(* ===== verification/Prelude.thy ===== *)
theory Prelude
  imports Main "HOL-Library.Word"
begin

text \<open>
  Shared vocabulary of the LiteOS-M development: the C integer types as machine words, the
  status-flag operations the kernel performs on them (\<open>x & m\<close>, \<open>x |= m\<close>, \<open>x &= ~m\<close>), the
  error-number scheme of \<open>src/utils/los_error.h\<close>, and the generic lemmas on words and lists that
  the component theories use.
\<close>

unbundle bit_operations_syntax

named_theorems sched_defs \<open>unfolding rules of the scheduler primitives\<close>
named_theorems errno_defs \<open>the numeric error codes\<close>

section \<open>C integer types\<close>

type_synonym u8 = "8 word"
type_synonym u16 = "16 word"
type_synonym u32 = "32 word"
type_synonym u64 = "64 word"

text \<open>
  A \<open>INT32\<close> is an \<open>int\<close>; \<open>to_int32\<close> is the conversion of an unsigned 64-bit value to \<open>INT32\<close>
  (truncation to 32 bits, read as two's complement) and \<open>wrap_int32\<close> brings the result of an
  \<open>INT32\<close> operation back into range.
\<close>

definition to_int32 :: "u64 \<Rightarrow> int" where
  "to_int32 x = sint (ucast x :: u32)"

definition wrap_int32 :: "int \<Rightarrow> int" where
  "wrap_int32 i = sint (word_of_int i :: u32)"

lemma to_int32_small:
  assumes "unat x < 2 ^ 31"
  shows "to_int32 x = int (unat x)"
proof -
  have x: "uint x < 2 ^ 31"
    using assms by (metis of_nat_less_iff of_nat_numeral of_nat_power uint_nat)
  have "uint (ucast x :: u32) = take_bit 32 (uint x)"
    by (simp add: unsigned_ucast_eq)
  also have "\<dots> = uint x"
    using x by (intro take_bit_int_eq_self) simp_all
  finally have "sint (ucast x :: u32) = signed_take_bit 31 (uint x)"
    by (simp add: sint_uint)
  also have "\<dots> = uint x"
    using x by (intro signed_take_bit_int_eq_self) (simp_all add: order_trans [OF _ uint_ge_0])
  finally show ?thesis by (simp add: to_int32_def)
qed

lemma wrap_int32_id: "- (2 ^ 31) \<le> i \<Longrightarrow> i < 2 ^ 31 \<Longrightarrow> wrap_int32 i = i"
  by (simp add: wrap_int32_def signed_of_int signed_take_bit_int_eq_self_iff)

text \<open>A cast to a type at least as wide keeps the value.\<close>

lemma unat_ucast_up:
  assumes "LENGTH('a::len) \<le> LENGTH('b::len)"
  shows "unat (ucast (x :: 'a word) :: 'b word) = unat x"
proof -
  have "unat x < 2 ^ LENGTH('a)" by (rule unsigned_less)
  also have "\<dots> \<le> 2 ^ LENGTH('b)" using assms by (simp add: power_increasing)
  finally show ?thesis
    by (simp only: unsigned_ucast_eq take_bit_nat_eq_self)
qed

text \<open>Counting up below a bound and down above zero does not wrap.\<close>

lemma unat_inc: "x < y \<Longrightarrow> unat (x + 1) = unat (x :: 'a::len word) + 1"
proof -
  assume "x < y"
  then have "unat x + 1 \<le> unat y" by (simp add: word_less_nat_alt)
  also have "unat y < 2 ^ LENGTH('a)" by (rule unsigned_less)
  finally show ?thesis by (simp add: unat_word_ariths(1))
qed

lemma unat_dec: "x > (0 :: 'a::len word) \<Longrightarrow> unat (x - 1) = unat x - 1"
  by (metis unat_gt_0 unat_minus_one word_gt_0)

text \<open>Clearing the low bits rounds down.\<close>

lemma unat_and_not_mask: "unat ((w :: 'a::len word) AND NOT (mask n)) = unat w - unat w mod 2 ^ n"
proof -
  have "w AND NOT (mask n) = push_bit n (drop_bit n w)"
    by (rule bit_word_eqI) (auto simp: bit_simps)
  then have e: "w AND NOT (mask n) = w - take_bit n w"
    using bits_ident [of n w] by (simp add: algebra_simps)
  have "unat (take_bit n w) = take_bit n (unat w)" by (rule unsigned_take_bit_eq)
  also have "\<dots> = unat w mod 2 ^ n" by (rule take_bit_eq_mod)
  finally have t: "unat (take_bit n w) = unat w mod 2 ^ n" .
  then have "take_bit n w \<le> w" by (simp add: word_le_nat_alt)
  then show ?thesis using e t by (simp add: unat_sub)
qed

section \<open>Status flags\<close>

definition hasFlag :: "'a::len word \<Rightarrow> 'a word \<Rightarrow> bool" where
  "hasFlag s m \<longleftrightarrow> s AND m \<noteq> 0"

definition setFlag :: "'a::len word \<Rightarrow> 'a word \<Rightarrow> 'a word" where
  "setFlag s m = s OR m"

definition clrFlag :: "'a::len word \<Rightarrow> 'a word \<Rightarrow> 'a word" where
  "clrFlag s m = s AND NOT m"

text \<open>The mask with exactly bit \<open>n\<close> set, \<open>1 << n\<close>.\<close>

definition flagBit :: "nat \<Rightarrow> 'a::len word" where
  "flagBit n = push_bit n 1"

lemma hasFlag_flagBit: "hasFlag s (flagBit n :: 'a::len word) \<longleftrightarrow> bit s n"
  by (simp add: hasFlag_def flagBit_def bit_iff_and_push_bit_not_eq_0)

lemma hasFlag_OR [simp]: "hasFlag s (a OR b) \<longleftrightarrow> hasFlag s a \<or> hasFlag s b"
  by (simp add: hasFlag_def word_ao_dist2 or_eq_0_iff)

lemma hasFlag_of_OR [simp]: "hasFlag (a OR b) s \<longleftrightarrow> hasFlag a s \<or> hasFlag b s"
  by (simp add: hasFlag_def word_ao_dist or_eq_0_iff)

lemma hasFlag_setFlag [simp]: "hasFlag (setFlag s m) f \<longleftrightarrow> hasFlag s f \<or> hasFlag m f"
  by (simp add: setFlag_def)

lemma hasFlag_clrFlag [simp]:
  "hasFlag (clrFlag s m) (flagBit n) \<longleftrightarrow> hasFlag s (flagBit n) \<and> \<not> hasFlag m (flagBit n)"
  using bit_imp_le_length [of s n]
  by (auto simp: clrFlag_def hasFlag_flagBit bit_and_iff bit_not_iff)

lemma bit_flagBit: "bit (flagBit m :: 'a::len word) n \<longleftrightarrow> m = n \<and> n < LENGTH('a)"
  by (auto simp: flagBit_def bit_exp_iff)

lemma hasFlag_flagBit_flagBit [simp]:
  "hasFlag (flagBit m :: 'a::len word) (flagBit n) \<longleftrightarrow> m = n \<and> n < LENGTH('a)"
  unfolding hasFlag_flagBit by (rule bit_flagBit)

lemma word_eq_hasFlag: "(a :: 'a::len word) = b \<longleftrightarrow> (\<forall>n. hasFlag a (flagBit n) = hasFlag b (flagBit n))"
  unfolding hasFlag_flagBit by (metis bit_word_eqI)

lemma hasFlag_zero [simp]: "\<not> hasFlag 0 f"
  by (simp add: hasFlag_def)

section \<open>Error numbers (los_error.h, los_compiler.h)\<close>

definition LOS_ERRTYPE_ERROR :: u32 where
  "LOS_ERRTYPE_ERROR = push_bit 24 2"

definition LOS_ERRTYPE_FATAL :: u32 where
  "LOS_ERRTYPE_FATAL = push_bit 24 3"

definition LOS_ERRNO_OS_ERROR :: "u32 \<Rightarrow> u32 \<Rightarrow> u32" where
  "LOS_ERRNO_OS_ERROR moduleID errno = LOS_ERRTYPE_ERROR OR 0 OR push_bit 8 moduleID OR errno"

definition LOS_ERRNO_OS_FATAL :: "u32 \<Rightarrow> u32 \<Rightarrow> u32" where
  "LOS_ERRNO_OS_FATAL moduleID errno = LOS_ERRTYPE_FATAL OR 0 OR push_bit 8 moduleID OR errno"

declare LOS_ERRTYPE_ERROR_def [errno_defs] LOS_ERRTYPE_FATAL_def [errno_defs]
  LOS_ERRNO_OS_ERROR_def [errno_defs] LOS_ERRNO_OS_FATAL_def [errno_defs]

abbreviation (input) LOS_MOD_SYS :: u32 where "LOS_MOD_SYS \<equiv> 0x0"
abbreviation (input) LOS_MOD_TSK :: u32 where "LOS_MOD_TSK \<equiv> 0x2"
abbreviation (input) LOS_MOD_SWTMR :: u32 where "LOS_MOD_SWTMR \<equiv> 0x3"
abbreviation (input) LOS_MOD_TICK :: u32 where "LOS_MOD_TICK \<equiv> 0x4"
abbreviation (input) LOS_MOD_QUE :: u32 where "LOS_MOD_QUE \<equiv> 0x6"
abbreviation (input) LOS_MOD_SEM :: u32 where "LOS_MOD_SEM \<equiv> 0x7"
abbreviation (input) LOS_MOD_EVENT :: u32 where "LOS_MOD_EVENT \<equiv> 0x1c"
abbreviation (input) LOS_MOD_MUX :: u32 where "LOS_MOD_MUX \<equiv> 0x1d"

abbreviation (input) LOS_OK :: u32 where "LOS_OK \<equiv> 0"
abbreviation (input) LOS_NOK :: u32 where "LOS_NOK \<equiv> 0xFFFFFFFF"
abbreviation (input) OS_INVALID :: u32 where "OS_INVALID \<equiv> 0xFFFFFFFF"
abbreviation (input) OS_NULL_INT :: u32 where "OS_NULL_INT \<equiv> 0xFFFFFFFF"
abbreviation (input) LOS_NO_WAIT :: u32 where "LOS_NO_WAIT \<equiv> 0"
abbreviation (input) LOS_WAIT_FOREVER :: u32 where "LOS_WAIT_FOREVER \<equiv> 0xFFFFFFFF"

lemma errtype_bit_25: "bit LOS_ERRTYPE_ERROR 25" "bit LOS_ERRTYPE_FATAL 25"
  by (simp_all add: LOS_ERRTYPE_ERROR_def LOS_ERRTYPE_FATAL_def)

lemma LOS_ERRNO_OS_ERROR_neq_0 [simp]: "LOS_ERRNO_OS_ERROR m e \<noteq> 0"
proof
  assume "LOS_ERRNO_OS_ERROR m e = 0"
  then have "\<not> bit (LOS_ERRNO_OS_ERROR m e) 25" by simp
  then show False by (simp only: LOS_ERRNO_OS_ERROR_def bit_or_iff errtype_bit_25 simp_thms)
qed

lemma LOS_ERRNO_OS_FATAL_neq_0 [simp]: "LOS_ERRNO_OS_FATAL m e \<noteq> 0"
proof
  assume "LOS_ERRNO_OS_FATAL m e = 0"
  then have "\<not> bit (LOS_ERRNO_OS_FATAL m e) 25" by simp
  then show False by (simp only: LOS_ERRNO_OS_FATAL_def bit_or_iff errtype_bit_25 simp_thms)
qed

section \<open>Lists\<close>

lemma sorted_wrt_remove1: "sorted_wrt P xs \<Longrightarrow> sorted_wrt P (remove1 x xs)"
  by (induction xs) (auto dest: set_remove1_subset [THEN subsetD])

lemma span_append:
  assumes "\<forall>x \<in> set xs. P x" and "\<forall>y \<in> set ys. \<not> P y"
  shows "takeWhile P (xs @ ys) = xs" and "dropWhile P (xs @ ys) = ys"
proof -
  have "takeWhile P ys = [] \<and> dropWhile P ys = ys" using assms(2) by (cases ys) auto
  then show "takeWhile P (xs @ ys) = xs" "dropWhile P (xs @ ys) = ys"
    using assms(1) by (induction xs) auto
qed

lemma sorted_wrt_map_cong:
  "(\<And>x. x \<in> set xs \<Longrightarrow> f x = g x) \<Longrightarrow>
   sorted_wrt (\<lambda>a b. R (f a) (f b)) xs \<longleftrightarrow> sorted_wrt (\<lambda>a b. R (g a) (g b)) xs"
  by (induction xs) auto

end
