(* ===== verification/Los_List.thy ===== *)
theory Los_List
  imports Prelude
begin

text \<open>
  The intrusive circular doubly linked list of \<open>src/utils/los_list.h\<close>.

  The first half translates the C code pointer by pointer: a heap gives every list cell its
  \<open>pstPrev\<close> and \<open>pstNext\<close> (\<open>None\<close> is \<open>NULL\<close>), and an operation that would dereference \<open>NULL\<close>
  returns \<open>None\<close>.  The second half is the contract the rest of the kernel relies on: a store that
  keeps, for every list head, the sequence of nodes queued on it, together with the head each node
  is queued on.  The locale \<open>list_store\<close> states the contract; it is interpreted both by the
  sequence store (which the scheduler and the IPC components use) and by the pointer code.
\<close>

section \<open>The pointer code\<close>

record 'a dl_heap =
  pstPrev :: "'a \<Rightarrow> 'a option"
  pstNext :: "'a \<Rightarrow> 'a option"

definition LOS_ListInit :: "'a \<Rightarrow> 'a dl_heap \<Rightarrow> 'a dl_heap" where
  "LOS_ListInit list h =
     (let h1 = h\<lparr>pstNext := (pstNext h)(list := Some list)\<rparr>
      in h1\<lparr>pstPrev := (pstPrev h1)(list := Some list)\<rparr>)"

definition LOS_DL_LIST_FIRST :: "'a \<Rightarrow> 'a dl_heap \<Rightarrow> 'a option" where
  "LOS_DL_LIST_FIRST object h = pstNext h object"

definition LOS_ListAdd :: "'a \<Rightarrow> 'a \<Rightarrow> 'a dl_heap \<Rightarrow> 'a dl_heap option" where
  "LOS_ListAdd list node h =
     (let h1 = h\<lparr>pstNext := (pstNext h)(node := pstNext h list)\<rparr>;
          h2 = h1\<lparr>pstPrev := (pstPrev h1)(node := Some list)\<rparr>
      in case pstNext h2 list of
           None \<Rightarrow> None
         | Some nx \<Rightarrow>
             (let h3 = h2\<lparr>pstPrev := (pstPrev h2)(nx := Some node)\<rparr>
              in Some (h3\<lparr>pstNext := (pstNext h3)(list := Some node)\<rparr>)))"

definition LOS_ListTailInsert :: "'a \<Rightarrow> 'a \<Rightarrow> 'a dl_heap \<Rightarrow> 'a dl_heap option" where
  "LOS_ListTailInsert list node h =
     (case pstPrev h list of None \<Rightarrow> None | Some p \<Rightarrow> LOS_ListAdd p node h)"

definition LOS_ListHeadInsert :: "'a \<Rightarrow> 'a \<Rightarrow> 'a dl_heap \<Rightarrow> 'a dl_heap option" where
  "LOS_ListHeadInsert list node h = LOS_ListAdd list node h"

definition LOS_ListDelete :: "'a \<Rightarrow> 'a dl_heap \<Rightarrow> 'a dl_heap option" where
  "LOS_ListDelete node h =
     (case pstNext h node of
        None \<Rightarrow> None
      | Some nx \<Rightarrow>
          (let h1 = h\<lparr>pstPrev := (pstPrev h)(nx := pstPrev h node)\<rparr>
           in case pstPrev h1 node of
                None \<Rightarrow> None
              | Some pv \<Rightarrow>
                  (let h2 = h1\<lparr>pstNext := (pstNext h1)(pv := pstNext h1 node)\<rparr>;
                       h3 = h2\<lparr>pstNext := (pstNext h2)(node := None)\<rparr>
                   in Some (h3\<lparr>pstPrev := (pstPrev h3)(node := None)\<rparr>))))"

definition LOS_ListEmpty :: "'a \<Rightarrow> 'a dl_heap \<Rightarrow> bool" where
  "LOS_ListEmpty node h \<longleftrightarrow> pstNext h node = Some node"

definition LOS_ListDelInit :: "'a \<Rightarrow> 'a dl_heap \<Rightarrow> 'a dl_heap option" where
  "LOS_ListDelInit list h =
     (case pstNext h list of
        None \<Rightarrow> None
      | Some nx \<Rightarrow>
          (let h1 = h\<lparr>pstPrev := (pstPrev h)(nx := pstPrev h list)\<rparr>
           in case pstPrev h1 list of
                None \<Rightarrow> None
              | Some pv \<Rightarrow>
                  Some (LOS_ListInit list (h1\<lparr>pstNext := (pstNext h1)(pv := pstNext h1 list)\<rparr>))))"

section \<open>Rings\<close>

text \<open>
  \<open>dseg h a xs b\<close>: following \<open>pstNext\<close> from \<open>a\<close> visits exactly \<open>xs\<close> and then \<open>b\<close>, and the
  \<open>pstPrev\<close> pointers run the same way back.  A list is a ring: a segment from its head to itself.
\<close>

primrec dseg :: "'a dl_heap \<Rightarrow> 'a \<Rightarrow> 'a list \<Rightarrow> 'a \<Rightarrow> bool" where
  "dseg h a [] b \<longleftrightarrow> pstNext h a = Some b \<and> pstPrev h b = Some a"
| "dseg h a (x # xs) b \<longleftrightarrow> pstNext h a = Some x \<and> pstPrev h x = Some a \<and> dseg h x xs b"

definition dl_ring :: "'a dl_heap \<Rightarrow> 'a \<Rightarrow> 'a list \<Rightarrow> bool" where
  "dl_ring h l xs \<longleftrightarrow> distinct (l # xs) \<and> dseg h l xs l"

lemma dseg_append: "dseg h a (xs @ y # ys) b \<longleftrightarrow> dseg h a xs y \<and> dseg h y ys b"
  by (induction xs arbitrary: a) auto

lemma dseg_cong:
  assumes "dseg h a xs b"
    and "\<forall>x \<in> set (a # xs). pstNext h' x = pstNext h x"
    and "\<forall>x \<in> set (xs @ [b]). pstPrev h' x = pstPrev h x"
  shows "dseg h' a xs b"
  using assms by (induction xs arbitrary: a) auto

lemma dseg_next_first: "dseg h a xs b \<Longrightarrow> pstNext h a = Some (hd (xs @ [b]))"
  by (cases xs) auto

lemma dseg_prev_last: "dseg h a xs b \<Longrightarrow> pstPrev h b = Some (last (a # xs))"
  by (induction xs arbitrary: a) auto

text \<open>Two heaps that agree outside a set of cells; a ring away from the set is not affected.\<close>

definition dl_same_off :: "'a set \<Rightarrow> 'a dl_heap \<Rightarrow> 'a dl_heap \<Rightarrow> bool" where
  "dl_same_off A h h' \<longleftrightarrow>
     (\<forall>x. x \<notin> A \<longrightarrow> pstNext h' x = pstNext h x \<and> pstPrev h' x = pstPrev h x)"

lemma dl_ring_same_off:
  "dl_ring h l xs \<Longrightarrow> dl_same_off A h h' \<Longrightarrow> set (l # xs) \<inter> A = {} \<Longrightarrow> dl_ring h' l xs"
  unfolding dl_ring_def dl_same_off_def by (force intro!: dseg_cong [of h l xs l])

lemma dl_ring_init: "dl_ring (LOS_ListInit l h) l []"
  by (simp add: dl_ring_def LOS_ListInit_def)

lemma dl_ring_empty: "dl_ring h l xs \<Longrightarrow> LOS_ListEmpty l h \<longleftrightarrow> xs = []"
  by (cases xs) (auto simp: dl_ring_def LOS_ListEmpty_def)

lemma dl_ring_first: "dl_ring h l (x # xs) \<Longrightarrow> LOS_DL_LIST_FIRST l h = Some x"
  by (simp add: dl_ring_def LOS_DL_LIST_FIRST_def)

text \<open>What \<open>LOS_ListAdd\<close> writes, when the successor of \<open>list\<close> is known.\<close>

lemma LOS_ListAdd_eq:
  assumes "pstNext h p = Some q" and "n \<noteq> p"
  shows "LOS_ListAdd p n h =
    Some (h\<lparr>pstNext := (pstNext h)(n := Some q, p := Some n),
            pstPrev := (pstPrev h)(n := Some p, q := Some n)\<rparr>)"
  using assms by (simp add: LOS_ListAdd_def Let_def)

lemma LOS_ListDelete_eq:
  assumes "pstNext h n = Some q" and "pstPrev h n = Some p" and "q \<noteq> n"
  shows "LOS_ListDelete n h =
    Some (h\<lparr>pstNext := (pstNext h)(p := Some q, n := None),
            pstPrev := (pstPrev h)(q := Some p, n := None)\<rparr>)"
  using assms by (simp add: LOS_ListDelete_def Let_def)

text \<open>Insertion after the head and after an inner element; the sort link uses the latter.\<close>

lemma dl_ring_add_head:
  assumes r: "dl_ring h l xs" and n: "n \<noteq> l" "n \<notin> set xs"
  shows "\<exists>h'. LOS_ListAdd l n h = Some h' \<and> dl_ring h' l (n # xs) \<and>
           dl_same_off (set (l # n # xs)) h h'"
proof (cases xs)
  case Nil
  with r n show ?thesis
    by (auto simp: dl_ring_def LOS_ListAdd_eq dl_same_off_def)
next
  case (Cons x ys)
  let ?h' = "h\<lparr>pstNext := (pstNext h)(n := Some x, l := Some n),
               pstPrev := (pstPrev h)(n := Some l, x := Some n)\<rparr>"
  have "dseg h x ys l" using r Cons by (simp add: dl_ring_def)
  then have "dseg ?h' x ys l"
    by (rule dseg_cong) (use r n Cons in \<open>auto simp: dl_ring_def\<close>)
  moreover have "LOS_ListAdd l n h = Some ?h'"
    using r n Cons by (simp add: dl_ring_def LOS_ListAdd_eq)
  ultimately show ?thesis
    using r n Cons by (auto simp: dl_ring_def dl_same_off_def)
qed

lemma dl_ring_add_after:
  assumes r: "dl_ring h l (xs @ p # ys)" and n: "n \<noteq> l" "n \<notin> set (xs @ p # ys)"
  shows "\<exists>h'. LOS_ListAdd p n h = Some h' \<and> dl_ring h' l (xs @ p # n # ys) \<and>
           dl_same_off (set (l # n # xs @ p # ys)) h h'"
proof -
  from r have seg: "dseg h l xs p" "dseg h p ys l" and dist: "distinct (l # xs @ p # ys)"
    by (auto simp: dl_ring_def dseg_append)
  define q where "q = hd (ys @ [l])"
  let ?h' = "h\<lparr>pstNext := (pstNext h)(n := Some q, p := Some n),
               pstPrev := (pstPrev h)(n := Some p, q := Some n)\<rparr>"
  have next_p: "pstNext h p = Some q"
    using dseg_next_first [OF seg(2)] by (simp add: q_def)
  then have add: "LOS_ListAdd p n h = Some ?h'"
    using n by (simp add: LOS_ListAdd_eq)
  have q: "q = l \<and> ys = [] \<or> (\<exists>zs. ys = q # zs)"
    by (cases ys) (auto simp: q_def)
  have "dseg ?h' l xs p"
    by (rule dseg_cong [OF seg(1)]) (use dist n q in auto)
  moreover have "dseg ?h' n ys l"
  proof (cases ys)
    case Nil
    then show ?thesis using n q by auto
  next
    case (Cons z zs)
    then have "dseg h z zs l" and "q = z" using seg(2) by (auto simp: q_def)
    then have "dseg ?h' z zs l"
      by (intro dseg_cong [OF \<open>dseg h z zs l\<close>]) (use dist n Cons in auto)
    then show ?thesis using Cons \<open>q = z\<close> n by auto
  qed
  ultimately have "dl_ring ?h' l (xs @ p # n # ys)"
    using dist n q by (auto simp: dl_ring_def dseg_append)
  moreover have "dl_same_off (set (l # n # xs @ p # ys)) h ?h'"
    using q by (auto simp: dl_same_off_def)
  ultimately show ?thesis using add by blast
qed

lemma dl_ring_tail_insert:
  assumes r: "dl_ring h l xs" and n: "n \<noteq> l" "n \<notin> set xs"
  shows "\<exists>h'. LOS_ListTailInsert l n h = Some h' \<and> dl_ring h' l (xs @ [n]) \<and>
           dl_same_off (set (l # n # xs)) h h'"
proof (cases xs rule: rev_cases)
  case Nil
  with r n show ?thesis
    using dl_ring_add_head [OF r n] by (simp add: LOS_ListTailInsert_def dl_ring_def)
next
  case (snoc ys y)
  have "pstPrev h l = Some y"
    using r snoc dseg_prev_last [of h l xs l] by (simp add: dl_ring_def)
  then show ?thesis
    using dl_ring_add_after [of h l ys y "[]" n] r n snoc by (simp add: LOS_ListTailInsert_def)
qed

lemma dl_ring_delete:
  assumes r: "dl_ring h l (xs @ n # ys)"
  shows "\<exists>h'. LOS_ListDelete n h = Some h' \<and> dl_ring h' l (xs @ ys) \<and>
           pstNext h' n = None \<and> pstPrev h' n = None \<and> dl_same_off (set (l # xs @ n # ys)) h h'"
proof -
  from r have seg: "dseg h l xs n" "dseg h n ys l" and dist: "distinct (l # xs @ n # ys)"
    by (auto simp: dl_ring_def dseg_append)
  define p where "p = last (l # xs)"
  define q where "q = hd (ys @ [l])"
  let ?h' = "h\<lparr>pstNext := (pstNext h)(p := Some q, n := None),
               pstPrev := (pstPrev h)(q := Some p, n := None)\<rparr>"
  have nb: "pstNext h n = Some q" "pstPrev h n = Some p"
    using dseg_next_first [OF seg(2)] dseg_prev_last [OF seg(1)] by (simp_all add: p_def q_def)
  have p: "p = l \<and> xs = [] \<or> (\<exists>zs. xs = zs @ [p])"
    by (cases xs rule: rev_cases) (auto simp: p_def)
  have q: "q = l \<and> ys = [] \<or> (\<exists>zs. ys = q # zs)"
    by (cases ys) (auto simp: q_def)
  have pq: "p \<noteq> n" "q \<noteq> n" using p q dist by auto
  have "dseg ?h' l (xs @ ys) l"
    using p q seg dist pq
    by (elim disjE conjE exE)
      (auto simp: dseg_append intro!: dseg_cong [where h = h and h' = ?h'] elim!: dseg_cong)
  moreover have "LOS_ListDelete n h = Some ?h'"
    using nb pq by (simp add: LOS_ListDelete_eq)
  moreover have "dl_same_off (set (l # xs @ n # ys)) h ?h'"
    using p q by (auto simp: dl_same_off_def)
  moreover have "pstNext ?h' n = None \<and> pstPrev ?h' n = None" by simp
  moreover have "distinct (l # xs @ ys)" using dist by auto
  ultimately show ?thesis unfolding dl_ring_def by blast
qed

section \<open>The sequence store\<close>

text \<open>
  \<open>ls_nodes s h\<close> is the sequence of nodes queued on head \<open>h\<close>, \<open>ls_loc s n\<close> the head whose ring
  node \<open>n\<close> is linked into (\<open>None\<close>: its two pointers are \<open>NULL\<close>).  \<open>ls_fault\<close> records that the
  pointer code was misused: a node that is in no ring was deleted (a \<open>NULL\<close> dereference) or a node
  that is still in a ring was inserted again (which corrupts that ring).
\<close>

record ('h, 'n) lstore =
  ls_nodes :: "'h \<Rightarrow> 'n list"
  ls_loc :: "'n \<Rightarrow> 'h option"
  ls_fault :: bool

definition ls_init :: "'h \<Rightarrow> ('h, 'n) lstore \<Rightarrow> ('h, 'n) lstore" where
  "ls_init h s = s\<lparr>ls_nodes := (ls_nodes s)(h := [])\<rparr>"

definition ls_add :: "'h \<Rightarrow> 'n \<Rightarrow> ('h, 'n) lstore \<Rightarrow> ('h, 'n) lstore" where
  "ls_add h n s =
     (if ls_loc s n = None
      then s\<lparr>ls_nodes := (ls_nodes s)(h := n # ls_nodes s h), ls_loc := (ls_loc s)(n := Some h)\<rparr>
      else s\<lparr>ls_fault := True\<rparr>)"

definition ls_tail :: "'h \<Rightarrow> 'n \<Rightarrow> ('h, 'n) lstore \<Rightarrow> ('h, 'n) lstore" where
  "ls_tail h n s =
     (if ls_loc s n = None
      then s\<lparr>ls_nodes := (ls_nodes s)(h := ls_nodes s h @ [n]), ls_loc := (ls_loc s)(n := Some h)\<rparr>
      else s\<lparr>ls_fault := True\<rparr>)"

definition ls_del :: "'n \<Rightarrow> ('h, 'n) lstore \<Rightarrow> ('h, 'n) lstore" where
  "ls_del n s =
     (case ls_loc s n of
        None \<Rightarrow> s\<lparr>ls_fault := True\<rparr>
      | Some h \<Rightarrow> s\<lparr>ls_nodes := (ls_nodes s)(h := remove1 n (ls_nodes s h)),
                   ls_loc := (ls_loc s)(n := None)\<rparr>)"

definition ls_wf :: "('h, 'n) lstore \<Rightarrow> bool" where
  "ls_wf s \<longleftrightarrow> \<not> ls_fault s \<and> (\<forall>h. distinct (ls_nodes s h)) \<and>
     (\<forall>n h. ls_loc s n = Some h \<longleftrightarrow> n \<in> set (ls_nodes s h))"

lemma ls_wf_distinct: "ls_wf s \<Longrightarrow> distinct (ls_nodes s h)"
  by (simp add: ls_wf_def)

lemma ls_wf_loc: "ls_wf s \<Longrightarrow> ls_loc s n = Some h \<longleftrightarrow> n \<in> set (ls_nodes s h)"
  by (simp add: ls_wf_def)

lemma ls_wf_free: "ls_wf s \<Longrightarrow> ls_loc s n = None \<longleftrightarrow> (\<forall>h. n \<notin> set (ls_nodes s h))"
  by (metis ls_wf_loc not_None_eq)

lemma ls_wf_add: "ls_wf s \<Longrightarrow> ls_loc s n = None \<Longrightarrow> ls_wf (ls_add h n s)"
  using ls_wf_free [of s n] by (auto simp: ls_wf_def ls_add_def)

lemma ls_wf_tail: "ls_wf s \<Longrightarrow> ls_loc s n = None \<Longrightarrow> ls_wf (ls_tail h n s)"
  using ls_wf_free [of s n] by (auto simp: ls_wf_def ls_tail_def)

lemma ls_wf_del:
  assumes wf: "ls_wf s" and n: "ls_loc s n \<noteq> None"
  shows "ls_wf (ls_del n s)"
proof -
  obtain h where h: "ls_loc s n = Some h" using n by blast
  have only: "n \<in> set (ls_nodes s k) \<longleftrightarrow> k = h" for k
    using h ls_wf_loc [OF wf, of n k] by auto
  show ?thesis
    using wf only by (auto simp: ls_wf_def ls_del_def h)
qed

lemma ls_wf_init: "ls_wf s \<Longrightarrow> ls_nodes s h = [] \<Longrightarrow> ls_wf (ls_init h s)"
  by (auto simp: ls_wf_def ls_init_def)

section \<open>The contract of the kernel's lists\<close>

text \<open>
  \<open>repr s L\<close>: state \<open>s\<close> holds the sequences \<open>L\<close> on the initialised heads \<open>H\<close>.  An operation
  returns \<open>None\<close> when it faults.
\<close>

locale list_store =
  fixes H :: "'h set"
    and repr :: "'s \<Rightarrow> ('h \<Rightarrow> 'n list) \<Rightarrow> bool"
    and add :: "'h \<Rightarrow> 'n \<Rightarrow> 's \<Rightarrow> 's option"
    and tail :: "'h \<Rightarrow> 'n \<Rightarrow> 's \<Rightarrow> 's option"
    and del :: "'n \<Rightarrow> 's \<Rightarrow> 's option"
    and is_empty :: "'h \<Rightarrow> 's \<Rightarrow> bool"
    and first :: "'h \<Rightarrow> 's \<Rightarrow> 'n option"
  assumes repr_distinct: "repr s L \<Longrightarrow> h \<in> H \<Longrightarrow> distinct (L h)"
    and repr_disjoint: "repr s L \<Longrightarrow> n \<in> set (L h) \<Longrightarrow> n \<in> set (L h') \<Longrightarrow> h = h'"
    and add_ok: "repr s L \<Longrightarrow> h \<in> H \<Longrightarrow> (\<forall>h'. n \<notin> set (L h')) \<Longrightarrow>
      \<exists>s'. add h n s = Some s' \<and> repr s' (L(h := n # L h))"
    and tail_ok: "repr s L \<Longrightarrow> h \<in> H \<Longrightarrow> (\<forall>h'. n \<notin> set (L h')) \<Longrightarrow>
      \<exists>s'. tail h n s = Some s' \<and> repr s' (L(h := L h @ [n]))"
    and del_ok: "repr s L \<Longrightarrow> h \<in> H \<Longrightarrow> n \<in> set (L h) \<Longrightarrow>
      \<exists>s'. del n s = Some s' \<and> repr s' (L(h := remove1 n (L h)))"
    and del_fault: "repr s L \<Longrightarrow> (\<forall>h'. n \<notin> set (L h')) \<Longrightarrow> del n s = None"
    and empty_ok: "repr s L \<Longrightarrow> h \<in> H \<Longrightarrow> is_empty h s \<longleftrightarrow> L h = []"
    and first_ok: "repr s L \<Longrightarrow> h \<in> H \<Longrightarrow> L h = n # ns \<Longrightarrow> first h s = Some n"
begin

text \<open>
  The step every wake-up performs: the first node of one list is unlinked and queued at the
  tail of another; and the step of round robin, where both lists are the same.
\<close>

lemma unlink_first:
  assumes r: "repr s L" and h: "h \<in> H" and L: "L h = n # ns"
  shows "\<exists>s1. first h s = Some n \<and> del n s = Some s1 \<and> repr s1 (L(h := ns)) \<and>
    (\<forall>k. n \<notin> set ((L(h := ns)) k))"
proof -
  have dist: "distinct (n # ns)" using repr_distinct [OF r h] L by simp
  have "\<forall>k. n \<notin> set ((L(h := ns)) k)"
    using dist repr_disjoint [OF r, of n h] L by (metis distinct.simps(2) fun_upd_apply list.set_intros(1))
  then show ?thesis
    using del_ok [OF r h, of n] first_ok [OF r h L] L by auto
qed

lemma move_first:
  assumes r: "repr s L" and h: "h \<in> H" "h' \<in> H" and L: "L h = n # ns" and ne: "h \<noteq> h'"
  shows "\<exists>s1 s2. first h s = Some n \<and> del n s = Some s1 \<and> tail h' n s1 = Some s2 \<and>
    repr s2 (L(h := ns, h' := L h' @ [n]))"
proof -
  obtain s1 where s1: "first h s = Some n" "del n s = Some s1" "repr s1 (L(h := ns))"
      "\<forall>k. n \<notin> set ((L(h := ns)) k)"
    using unlink_first [OF r h(1) L] by blast
  have "\<exists>s2. tail h' n s1 = Some s2 \<and> repr s2 (L(h := ns, h' := L h' @ [n]))"
    using tail_ok [of s1 "L(h := ns)" h' n] s1(3,4) h(2) ne by (simp del: fun_upd_apply add: fun_upd_other)
  then show ?thesis using s1 by blast
qed

lemma rotate_first:
  assumes r: "repr s L" and h: "h \<in> H" and L: "L h = n # ns"
  shows "\<exists>s1 s2. first h s = Some n \<and> del n s = Some s1 \<and> tail h n s1 = Some s2 \<and>
    repr s2 (L(h := rotate1 (L h)))"
proof -
  obtain s1 where s1: "first h s = Some n" "del n s = Some s1" "repr s1 (L(h := ns))"
      "\<forall>k. n \<notin> set ((L(h := ns)) k)"
    using unlink_first [OF r h L] by blast
  have "\<exists>s2. tail h n s1 = Some s2 \<and> repr s2 (L(h := rotate1 (L h)))"
    using tail_ok [of s1 "L(h := ns)" h n] s1(3,4) h L by (simp del: fun_upd_apply add: fun_upd_same)
  then show ?thesis using s1 by blast
qed

text \<open>Nodes leave in the order in which they were queued.\<close>

lemma drain_fifo:
  "repr s L \<Longrightarrow> h \<in> H \<Longrightarrow> L h = ns @ ms \<Longrightarrow>
   \<exists>s'. foldl (\<lambda>st n. Option.bind st (\<lambda>t. if first h t = Some n then del n t else None)) (Some s) ns
        = Some s' \<and> repr s' (L(h := ms))"
proof (induction ns arbitrary: s L)
  case Nil
  then have "L(h := ms) = L" by auto
  with Nil show ?case by simp
next
  case (Cons n ns)
  then obtain s1 where s1: "first h s = Some n" "del n s = Some s1" "repr s1 (L(h := ns @ ms))"
    using unlink_first [of s L h n "ns @ ms"] by auto
  then show ?case
    using Cons.IH [of s1 "L(h := ns @ ms)"] Cons.prems(2) by (simp del: fun_upd_apply add: fun_upd_same)
qed

end

section \<open>The two implementations of the contract\<close>

text \<open>The sequence store; the fault flag is read after each operation.\<close>

definition ls_chk :: "('h, 'n) lstore \<Rightarrow> ('h, 'n) lstore option" where
  "ls_chk s = (if ls_fault s then None else Some s)"

lemma ls_chk_wf: "ls_wf s \<Longrightarrow> ls_chk s = Some s"
  by (simp add: ls_chk_def ls_wf_def)

interpretation seq: list_store UNIV "\<lambda>s L. ls_wf s \<and> ls_nodes s = L"
  "\<lambda>h n s. ls_chk (ls_add h n s)" "\<lambda>h n s. ls_chk (ls_tail h n s)" "\<lambda>n s. ls_chk (ls_del n s)"
  "\<lambda>h s. ls_nodes s h = []" "\<lambda>h s. case ls_nodes s h of [] \<Rightarrow> None | n # _ \<Rightarrow> Some n"
proof (unfold_locales, goal_cases)
  case (1 s L h)
  then show ?case using ls_wf_distinct [of s h] by simp
next
  case (2 s L n h h')
  then have "ls_loc s n = Some h" "ls_loc s n = Some h'" by (simp_all add: ls_wf_loc)
  then show ?case by simp
next
  case (3 s L h n)
  then have "ls_loc s n = None" by (simp add: ls_wf_free)
  moreover from this have "ls_wf (ls_add h n s)" using 3 by (simp add: ls_wf_add)
  ultimately show ?case using 3 by (simp add: ls_chk_wf) (simp add: ls_add_def)
next
  case (4 s L h n)
  then have "ls_loc s n = None" by (simp add: ls_wf_free)
  moreover from this have "ls_wf (ls_tail h n s)" using 4 by (simp add: ls_wf_tail)
  ultimately show ?case using 4 by (simp add: ls_chk_wf) (simp add: ls_tail_def)
next
  case (5 s L h n)
  then have "ls_loc s n = Some h" by (simp add: ls_wf_loc)
  moreover from this have "ls_wf (ls_del n s)" using 5 by (simp add: ls_wf_del)
  ultimately show ?case using 5 by (simp add: ls_chk_wf) (simp add: ls_del_def)
next
  case (6 s L n)
  then have "ls_loc s n = None" by (simp add: ls_wf_free)
  then show ?case by (simp add: ls_del_def ls_chk_def)
qed simp_all

text \<open>
  The pointer code, on a heap whose cells are list heads and nodes: every initialised head is a
  ring of its nodes, and a node that is on no list has two \<open>NULL\<close> pointers.
\<close>

datatype ('h, 'n) cell = Head 'h | Node 'n

definition dl_repr :: "'h set \<Rightarrow> ('h, 'n) cell dl_heap \<Rightarrow> ('h \<Rightarrow> 'n list) \<Rightarrow> bool" where
  "dl_repr H hp L \<longleftrightarrow>
     (\<forall>h \<in> H. dl_ring hp (Head h) (map Node (L h))) \<and> (\<forall>h. h \<notin> H \<longrightarrow> L h = []) \<and>
     (\<forall>n h h'. n \<in> set (L h) \<longrightarrow> n \<in> set (L h') \<longrightarrow> h = h') \<and>
     (\<forall>n. (\<forall>h. n \<notin> set (L h)) \<longrightarrow> pstNext hp (Node n) = None \<and> pstPrev hp (Node n) = None)"

lemma dl_repr_ring: "dl_repr H hp L \<Longrightarrow> h \<in> H \<Longrightarrow> dl_ring hp (Head h) (map Node (L h))"
  by (simp add: dl_repr_def)

lemma dl_repr_disjoint: "dl_repr H hp L \<Longrightarrow> n \<in> set (L h) \<Longrightarrow> n \<in> set (L h') \<Longrightarrow> h = h'"
  unfolding dl_repr_def by blast

lemma dl_repr_unlinked:
  "dl_repr H hp L \<Longrightarrow> \<forall>h. n \<notin> set (L h) \<Longrightarrow> pstNext hp (Node n) = None \<and> pstPrev hp (Node n) = None"
  unfolding dl_repr_def by blast

text \<open>
  One ring changes and every cell outside it and the node \<open>n\<close> is untouched: the heap then
  represents the updated sequences.
\<close>

lemma dl_repr_update:
  assumes r: "dl_repr H hp L" and h: "h \<in> H"
    and ring: "dl_ring hp' (Head h) (map Node xs)"
    and off: "dl_same_off (insert (Head h) (Node ` (insert n (set (L h))))) hp hp'"
    and fresh: "\<forall>k. k \<noteq> h \<longrightarrow> n \<notin> set (L k)"
    and sub: "set xs \<subseteq> insert n (set (L h))" "set (L h) \<subseteq> insert n (set xs)"
    and null: "n \<notin> set xs \<Longrightarrow> pstNext hp' (Node n) = None \<and> pstPrev hp' (Node n) = None"
  shows "dl_repr H hp' (L(h := xs))"
  unfolding dl_repr_def
proof (intro conjI ballI allI impI)
  fix k assume k: "k \<in> H"
  show "dl_ring hp' (Head k) (map Node ((L(h := xs)) k))"
  proof (cases "k = h")
    case False
    have "set (Head k # map Node (L k)) \<inter> insert (Head h) (Node ` (insert n (set (L h)))) = {}"
      using False fresh dl_repr_disjoint [OF r] by fastforce
    then show ?thesis
      using False dl_ring_same_off [OF dl_repr_ring [OF r k] off] by simp
  qed (simp add: ring)
next
  fix k assume "k \<notin> H"
  then show "(L(h := xs)) k = []" using r h by (auto simp: dl_repr_def)
next
  fix m k k' assume "m \<in> set ((L(h := xs)) k)" "m \<in> set ((L(h := xs)) k')"
  then show "k = k'"
    using sub fresh dl_repr_disjoint [OF r] by (auto split: if_splits)
next
  fix m assume m: "\<forall>k. m \<notin> set ((L(h := xs)) k)"
  have "pstNext hp' (Node m) = None \<and> pstPrev hp' (Node m) = None"
  proof (cases "m = n")
    case True
    then show ?thesis using m null by (metis fun_upd_same)
  next
    case False
    then have "m \<notin> set (L k)" for k
      using m [THEN spec, of k] sub by (cases "k = h") auto
    then show ?thesis
      using False dl_repr_unlinked [OF r, of m] off by (auto simp: dl_same_off_def)
  qed
  then show "pstNext hp' (Node m) = None" "pstPrev hp' (Node m) = None" by simp_all
qed

lemma dl_repr_add:
  assumes r: "dl_repr H hp L" and h: "h \<in> H" and n: "\<forall>k. n \<notin> set (L k)"
  shows "\<exists>hp'. LOS_ListAdd (Head h) (Node n) hp = Some hp' \<and> dl_repr H hp' (L(h := n # L h))"
proof -
  obtain hp' where hp': "LOS_ListAdd (Head h) (Node n) hp = Some hp'"
      "dl_ring hp' (Head h) (Node n # map Node (L h))"
      "dl_same_off (set (Head h # Node n # map Node (L h))) hp hp'"
    using dl_ring_add_head [OF dl_repr_ring [OF r h], of "Node n"] n by auto
  then have "dl_repr H hp' (L(h := n # L h))"
    using n by (intro dl_repr_update [OF r h]) auto
  then show ?thesis using hp' by blast
qed

lemma dl_repr_tail:
  assumes r: "dl_repr H hp L" and h: "h \<in> H" and n: "\<forall>k. n \<notin> set (L k)"
  shows "\<exists>hp'. LOS_ListTailInsert (Head h) (Node n) hp = Some hp' \<and> dl_repr H hp' (L(h := L h @ [n]))"
proof -
  obtain hp' where hp': "LOS_ListTailInsert (Head h) (Node n) hp = Some hp'"
      "dl_ring hp' (Head h) (map Node (L h) @ [Node n])"
      "dl_same_off (set (Head h # Node n # map Node (L h))) hp hp'"
    using dl_ring_tail_insert [OF dl_repr_ring [OF r h], of "Node n"] n by auto
  then have "dl_repr H hp' (L(h := L h @ [n]))"
    using n by (intro dl_repr_update [OF r h]) auto
  then show ?thesis using hp' by blast
qed

lemma dl_repr_delete:
  assumes r: "dl_repr H hp L" and h: "h \<in> H" and n: "n \<in> set (L h)"
  shows "\<exists>hp'. LOS_ListDelete (Node n) hp = Some hp' \<and> dl_repr H hp' (L(h := remove1 n (L h)))"
proof -
  obtain xs ys where L: "L h = xs @ n # ys" "n \<notin> set xs"
    using split_list_first [OF n] by blast
  have dist: "distinct (L h)"
    using dl_repr_ring [OF r h] by (simp add: dl_ring_def distinct_map)
  obtain hp' where hp': "LOS_ListDelete (Node n) hp = Some hp'"
      "dl_ring hp' (Head h) (map Node (xs @ ys))" "pstNext hp' (Node n) = None \<and> pstPrev hp' (Node n) = None"
      "dl_same_off (set (Head h # map Node xs @ Node n # map Node ys)) hp hp'"
    using dl_ring_delete [of hp "Head h" "map Node xs" "Node n" "map Node ys"] dl_repr_ring [OF r h] L
    by auto
  have "dl_repr H hp' (L(h := xs @ ys))"
  proof (rule dl_repr_update [OF r h hp'(2)])
    show "dl_same_off (insert (Head h) (Node ` insert n (set (L h)))) hp hp'"
      using hp'(4) L by (auto simp: dl_same_off_def)
    show "\<forall>k. k \<noteq> h \<longrightarrow> n \<notin> set (L k)" using dl_repr_disjoint [OF r, of n h] n by blast
  qed (use L hp'(3) in auto)
  then show ?thesis using hp' L by (simp add: remove1_append)
qed

definition cell_node :: "('h, 'n) cell \<Rightarrow> 'n option" where
  "cell_node c = (case c of Head _ \<Rightarrow> None | Node n \<Rightarrow> Some n)"

interpretation ptr: list_store H "dl_repr H"
  "\<lambda>h n. LOS_ListAdd (Head h) (Node n)" "\<lambda>h n. LOS_ListTailInsert (Head h) (Node n)"
  "\<lambda>n. LOS_ListDelete (Node n)" "\<lambda>h. LOS_ListEmpty (Head h)"
  "\<lambda>h hp. Option.bind (LOS_DL_LIST_FIRST (Head h) hp) cell_node"
  for H
proof (unfold_locales, goal_cases)
  case (1 s L h)
  then show ?case using dl_repr_ring [of H s L h] by (simp add: dl_ring_def distinct_map)
next
  case (6 s L n)
  then show ?case using dl_repr_unlinked [of H s L n] by (simp add: LOS_ListDelete_def)
next
  case (7 s L h)
  then show ?case using dl_ring_empty [OF dl_repr_ring, of H s L h] by simp
next
  case (8 s L h n ns)
  then show ?case
    using dl_repr_ring [of H s L h] by (simp add: dl_ring_first cell_node_def)
qed (erule (2) dl_repr_disjoint dl_repr_add dl_repr_tail dl_repr_delete)+

section \<open>Whole runs\<close>

text \<open>
  A sequence of list operations, run on the sequence store (stopping at the first misuse) and on
  the pointers (stopping at the first \<open>NULL\<close> dereference).
\<close>

datatype ('h, 'n) lop = LAdd 'h 'n | LTail 'h 'n | LDel 'n

primrec lop_heads :: "('h, 'n) lop \<Rightarrow> 'h set" where
  "lop_heads (LAdd h n) = {h}"
| "lop_heads (LTail h n) = {h}"
| "lop_heads (LDel n) = {}"

primrec ls_step :: "('h, 'n) lop \<Rightarrow> ('h, 'n) lstore \<Rightarrow> ('h, 'n) lstore option" where
  "ls_step (LAdd h n) s = ls_chk (ls_add h n s)"
| "ls_step (LTail h n) s = ls_chk (ls_tail h n s)"
| "ls_step (LDel n) s = ls_chk (ls_del n s)"

primrec dl_step :: "('h, 'n) lop \<Rightarrow> ('h, 'n) cell dl_heap \<Rightarrow> ('h, 'n) cell dl_heap option" where
  "dl_step (LAdd h n) hp = LOS_ListAdd (Head h) (Node n) hp"
| "dl_step (LTail h n) hp = LOS_ListTailInsert (Head h) (Node n) hp"
| "dl_step (LDel n) hp = LOS_ListDelete (Node n) hp"

fun run_ops :: "('o \<Rightarrow> 's \<Rightarrow> 's option) \<Rightarrow> 'o list \<Rightarrow> 's \<Rightarrow> 's option" where
  "run_ops f [] s = Some s"
| "run_ops f (x # xs) s = (case f x s of None \<Rightarrow> None | Some s' \<Rightarrow> run_ops f xs s')"

lemma ls_step_cases:
  assumes wf: "ls_wf s" and st: "ls_step x s = Some s'"
  obtains (add) h n where "x = LAdd h n" "ls_loc s n = None" "s' = ls_add h n s"
  | (tail) h n where "x = LTail h n" "ls_loc s n = None" "s' = ls_tail h n s"
  | (del) h n where "x = LDel n" "ls_loc s n = Some h" "s' = ls_del n s"
proof (cases x)
  case (LAdd h n)
  then show ?thesis
    using st add [of h n] by (cases "ls_loc s n") (simp_all add: ls_chk_def ls_add_def split: if_splits)
next
  case (LTail h n)
  then show ?thesis
    using st tail [of h n] by (cases "ls_loc s n") (simp_all add: ls_chk_def ls_tail_def split: if_splits)
next
  case (LDel n)
  then show ?thesis
    using st del [of n] by (cases "ls_loc s n") (simp_all add: ls_chk_def ls_del_def split: if_splits)
qed

lemma ls_step_wf: "ls_wf s \<Longrightarrow> ls_step x s = Some s' \<Longrightarrow> ls_wf s'"
  by (rule ls_step_cases [of s x s']) (simp_all add: ls_wf_add ls_wf_tail ls_wf_del)

lemma dl_step_simulates:
  assumes wf: "ls_wf s" and r: "dl_repr H hp (ls_nodes s)" and st: "ls_step x s = Some s'"
    and H: "lop_heads x \<subseteq> H"
  shows "\<exists>hp'. dl_step x hp = Some hp' \<and> dl_repr H hp' (ls_nodes s')"
  using wf st
proof (cases rule: ls_step_cases)
  case (add h n)
  then show ?thesis using dl_repr_add [OF r, of h n] H ls_wf_free [OF wf] by (simp add: ls_add_def)
next
  case (tail h n)
  then show ?thesis using dl_repr_tail [OF r, of h n] H ls_wf_free [OF wf] by (simp add: ls_tail_def)
next
  case (del h n)
  then have n: "n \<in> set (ls_nodes s h)" using ls_wf_loc [OF wf] by simp
  then have "h \<in> H" using r by (auto simp: dl_repr_def)
  then show ?thesis using dl_repr_delete [OF r _ n] del by (simp add: ls_del_def)
qed

text \<open>C1: the pointer code of \<open>los_list.h\<close> refines the sequence store.  Take any sequence of
  insertions and deletions that does not misuse the lists (no node inserted twice, none deleted
  while it is unlinked).  Run on pointers that represent the store, it dereferences no \<open>NULL\<close>
  pointer, every head is again a well-formed ring carrying exactly the sequence of the store, and
  every unlinked node has two \<open>NULL\<close> pointers.\<close>

theorem list_code_refines_store:
  assumes "ls_wf s" and "dl_repr H hp (ls_nodes s)" and "run_ops ls_step ops s = Some s'"
    and "\<forall>x \<in> set ops. lop_heads x \<subseteq> H"
  shows "\<exists>hp'. run_ops dl_step ops hp = Some hp' \<and> dl_repr H hp' (ls_nodes s') \<and> ls_wf s'"
  using assms
proof (induction ops arbitrary: s hp)
  case (Cons x xs)
  then obtain s1 where s1: "ls_step x s = Some s1" "run_ops ls_step xs s1 = Some s'"
    by (auto split: option.splits)
  then obtain hp1 where "dl_step x hp = Some hp1" "dl_repr H hp1 (ls_nodes s1)"
    using dl_step_simulates [OF Cons.prems(1,2) s1(1)] Cons.prems(4) by auto
  then show ?case
    using Cons.IH [OF ls_step_wf [OF Cons.prems(1) s1(1)] _ s1(2)] Cons.prems(4) by simp
qed simp

definition demo_heap :: "(nat, nat) cell dl_heap" where
  "demo_heap = LOS_ListInit (Head 0) (LOS_ListInit (Head 1) \<lparr>pstPrev = Map.empty, pstNext = Map.empty\<rparr>)"

definition demo_store :: "(nat, nat) lstore" where
  "demo_store = \<lparr>ls_nodes = (\<lambda>_. []), ls_loc = Map.empty, ls_fault = False\<rparr>"

theorem list_code_refines_store_witness:
  "\<exists>hp'. run_ops dl_step [LTail 0 7, LTail 0 8, LDel 7, LAdd 1 7, LTail 0 9] demo_heap = Some hp' \<and>
     dl_repr {0, 1} hp' ((\<lambda>_. [])(0 := [8, 9], 1 := [7]))"
proof -
  have wf: "ls_wf demo_store" by (simp add: ls_wf_def demo_store_def)
  have repr: "dl_repr {0, 1} demo_heap (ls_nodes demo_store)"
    by (auto simp: dl_repr_def dl_ring_def demo_heap_def demo_store_def LOS_ListInit_def)
  have run: "run_ops ls_step [LTail 0 7, LTail 0 8, LDel 7, LAdd 1 7, LTail 0 9] demo_store =
      Some \<lparr>ls_nodes = (\<lambda>_. [])(0 := [8, 9], 1 := [7]),
            ls_loc = [8 \<mapsto> 0, 7 \<mapsto> 1, 9 \<mapsto> 0], ls_fault = False\<rparr>"
    by (simp add: demo_store_def ls_chk_def ls_add_def ls_tail_def ls_del_def fun_eq_iff)
  have "\<forall>x \<in> set [LTail 0 7, LTail 0 8, LDel 7, LAdd 1 7, LTail 0 9]. lop_heads x \<subseteq> {0, 1}" by simp
  from list_code_refines_store [OF wf repr run this] show ?thesis
    by (simp only: lstore.simps) blast
qed

end
