(* ===== verification/SortLink.thy ===== *)
theory SortLink
  imports Prelude
begin

text \<open>
  The sort link of \<open>src/kernel/src/los_sortlink.c\<close> and \<open>src/kernel/include/los_sortlink.h\<close>: the
  list of sleeping nodes ordered by the cycle at which each is due.  The kernel has two of them,
  one for the tasks and one for the software timers; \<open>sortlink\<close> models both.

  \<open>sl_nodes\<close> is the sequence of nodes on the ring \<open>SortLinkAttribute.sortLink\<close>, \<open>sl_time n\<close> the
  field \<open>responseTime\<close> of node \<open>n\<close> (which a node has whether it is linked or not), and
  \<open>sl_fault\<close> records a misuse of the ring: a deletion of an unlinked node or a second insertion of
  a linked one.
\<close>

section \<open>The data and the operations\<close>

record 'n sortlink =
  sl_nodes :: "'n list"
  sl_time :: "'n \<Rightarrow> u64"
  sl_fault :: bool

definition OS_SORT_LINK_INVALID_TIME :: u64 where
  "OS_SORT_LINK_INVALID_TIME = - 1"

definition OS_SORT_LINK_UINT64_MAX :: u64 where
  "OS_SORT_LINK_UINT64_MAX = - 1"

definition OsSortLinkInit :: "'n sortlink \<Rightarrow> 'n sortlink" where
  "OsSortLinkInit sl = sl\<lparr>sl_nodes := []\<rparr>"

definition SET_SORTLIST_VALUE :: "'n \<Rightarrow> u64 \<Rightarrow> 'n sortlink \<Rightarrow> 'n sortlink" where
  "SET_SORTLIST_VALUE n v sl = sl\<lparr>sl_time := (sl_time sl)(n := v)\<rparr>"

text \<open>
  The \<open>do ... while (1)\<close> scan of the insertion, from the tail of the ring towards its head: the
  argument is the reversed sequence.  The C loop has no test for the head; the case \<open>[]\<close> is the
  read past it, which \<open>add_node_before\<close> below shows is never reached.
\<close>

fun scan_from_tail :: "('n \<Rightarrow> u64) \<Rightarrow> 'n \<Rightarrow> 'n list \<Rightarrow> 'n list option" where
  "scan_from_tail rt n [] = None"
| "scan_from_tail rt n (p # ps) =
     (if rt p \<le> rt n then Some (n # p # ps) else map_option (Cons p) (scan_from_tail rt n ps))"

definition OsAddNode2SortLink :: "'n \<Rightarrow> 'n sortlink \<Rightarrow> 'n sortlink" where
  "OsAddNode2SortLink n sl =
     (if n \<in> set (sl_nodes sl) then sl\<lparr>sl_fault := True\<rparr>
      else case sl_nodes sl of
        [] \<Rightarrow> sl\<lparr>sl_nodes := [n]\<rparr>
      | x # xs \<Rightarrow>
          (if sl_time sl x > sl_time sl n then sl\<lparr>sl_nodes := n # x # xs\<rparr>
           else if sl_time sl x = sl_time sl n then sl\<lparr>sl_nodes := x # n # xs\<rparr>
           else case scan_from_tail (sl_time sl) n (rev (x # xs)) of
                  None \<Rightarrow> sl\<lparr>sl_fault := True\<rparr>
                | Some ys \<Rightarrow> sl\<lparr>sl_nodes := rev ys\<rparr>))"

text \<open>\<open>OsDeleteNodeSortLink\<close>: unlink the node (a fault when it is not linked) and void its time.\<close>

definition OsDeleteNodeSortLink :: "'n \<Rightarrow> 'n sortlink \<Rightarrow> 'n sortlink" where
  "OsDeleteNodeSortLink n sl =
     SET_SORTLIST_VALUE n OS_SORT_LINK_INVALID_TIME
       (if n \<in> set (sl_nodes sl) then sl\<lparr>sl_nodes := remove1 n (sl_nodes sl)\<rparr>
        else sl\<lparr>sl_fault := True\<rparr>)"

text \<open>\<open>startTime + OS_SYS_TICK_TO_CYCLE(waitTicks)\<close>, in 64-bit arithmetic.\<close>

definition OS_SYS_TICK_TO_CYCLE :: "u32 \<Rightarrow> u32 \<Rightarrow> u32 \<Rightarrow> u64" where
  "OS_SYS_TICK_TO_CYCLE tickPerSecond sysClock ticks =
     (ucast ticks * ucast sysClock) div ucast tickPerSecond"

definition OsAdd2SortLink :: "u32 \<Rightarrow> u32 \<Rightarrow> 'n \<Rightarrow> u64 \<Rightarrow> u32 \<Rightarrow> 'n sortlink \<Rightarrow> 'n sortlink" where
  "OsAdd2SortLink tickPerSecond sysClock n startTime waitTicks sl =
     OsAddNode2SortLink n
       (SET_SORTLIST_VALUE n (startTime + OS_SYS_TICK_TO_CYCLE tickPerSecond sysClock waitTicks) sl)"

definition OsSortLinkGetTargetExpireTime :: "u64 \<Rightarrow> u64 \<Rightarrow> u64" where
  "OsSortLinkGetTargetExpireTime currTime responseTime =
     (if currTime \<ge> responseTime then 0 else responseTime - currTime)"

definition OsSortLinkGetNextExpireTime :: "u64 \<Rightarrow> 'n sortlink \<Rightarrow> u64" where
  "OsSortLinkGetNextExpireTime currTime sl =
     (case sl_nodes sl of
        [] \<Rightarrow> 0
      | x # _ \<Rightarrow> OsSortLinkGetTargetExpireTime currTime (sl_time sl x))"

definition GetSortLinkNextExpireTime :: "'n sortlink \<Rightarrow> u64 \<Rightarrow> u32 \<Rightarrow> u64" where
  "GetSortLinkNextExpireTime sl startTime tickPrecision =
     (case sl_nodes sl of
        [] \<Rightarrow> OS_SORT_LINK_UINT64_MAX - ucast tickPrecision
      | x # _ \<Rightarrow>
          (if sl_time sl x \<le> startTime + ucast tickPrecision then startTime + ucast tickPrecision
           else sl_time sl x))"

text \<open>\<open>OsTimeConvertFreq\<close> (\<open>los_tick.h\<close>) and its application to every linked node.\<close>

definition OsTimeConvertFreq :: "u64 \<Rightarrow> u32 \<Rightarrow> u32 \<Rightarrow> u64" where
  "OsTimeConvertFreq time oldFreq newFreq =
     (if oldFreq \<ge> newFreq then time div ucast (oldFreq div newFreq)
      else time * ucast (newFreq div oldFreq))"

definition SortLinkNodeTimeUpdate :: "u32 \<Rightarrow> u32 \<Rightarrow> 'n sortlink \<Rightarrow> 'n sortlink" where
  "SortLinkNodeTimeUpdate oldFreq sysClock sl =
     foldl (\<lambda>t n. SET_SORTLIST_VALUE n (OsTimeConvertFreq (sl_time t n) oldFreq sysClock) t) sl (sl_nodes sl)"

section \<open>The invariant\<close>

definition sl_sorted :: "('n \<Rightarrow> u64) \<Rightarrow> 'n list \<Rightarrow> bool" where
  "sl_sorted rt xs \<longleftrightarrow> sorted_wrt (\<lambda>a b. rt a \<le> rt b) xs"

definition sl_wf :: "'n sortlink \<Rightarrow> bool" where
  "sl_wf sl \<longleftrightarrow> \<not> sl_fault sl \<and> distinct (sl_nodes sl) \<and> sl_sorted (sl_time sl) (sl_nodes sl) \<and>
     (\<forall>n \<in> set (sl_nodes sl). sl_time sl n \<noteq> OS_SORT_LINK_INVALID_TIME)"

text \<open>
  The place an insertion takes: after every node that is due no later, before every node that is
  due later, except that a node due together with the first goes right behind the first.
\<close>

definition sl_insert :: "('n \<Rightarrow> u64) \<Rightarrow> 'n \<Rightarrow> 'n list \<Rightarrow> 'n list" where
  "sl_insert rt n xs =
     (case xs of
        x # ys \<Rightarrow> if rt x = rt n then x # n # ys
                  else takeWhile (\<lambda>p. rt p \<le> rt n) xs @ n # dropWhile (\<lambda>p. rt p \<le> rt n) xs
      | [] \<Rightarrow> [n])"

lemma scan_from_tail_eq:
  "\<exists>p \<in> set xs. rt p \<le> rt n \<Longrightarrow>
   scan_from_tail rt n xs =
     Some (takeWhile (\<lambda>p. \<not> rt p \<le> rt n) xs @ n # dropWhile (\<lambda>p. \<not> rt p \<le> rt n) xs)"
  by (induction xs) auto

lemma sl_sorted_split:
  assumes "sl_sorted rt xs"
  shows "rev (dropWhile (\<lambda>p. \<not> rt p \<le> v) (rev xs)) = takeWhile (\<lambda>p. rt p \<le> v) xs"
    and "rev (takeWhile (\<lambda>p. \<not> rt p \<le> v) (rev xs)) = dropWhile (\<lambda>p. rt p \<le> v) xs"
proof -
  define A B where "A = takeWhile (\<lambda>p. rt p \<le> v) xs" and "B = dropWhile (\<lambda>p. rt p \<le> v) xs"
  have xs: "xs = A @ B" by (simp add: A_def B_def)
  have B: "\<not> rt p \<le> v" if "p \<in> set B" for p
  proof -
    obtain b bs where b: "B = b # bs" using \<open>p \<in> set B\<close> by (cases B) auto
    then have "\<not> rt b \<le> v" using hd_dropWhile [of "\<lambda>p. rt p \<le> v" xs] by (simp add: B_def)
    moreover have "rt b \<le> rt p"
      using assms that b xs by (auto simp: sl_sorted_def sorted_wrt_append)
    ultimately show ?thesis by simp
  qed
  have A: "rt p \<le> v" if "p \<in> set A" for p
    using that set_takeWhileD by (fastforce simp: A_def)
  have "dropWhile (\<lambda>p. \<not> rt p \<le> v) (rev B @ rev A) = rev A"
    using A B by (simp add: span_append)
  moreover have "takeWhile (\<lambda>p. \<not> rt p \<le> v) (rev B @ rev A) = rev B"
    using A B by (simp add: span_append)
  ultimately show "rev (dropWhile (\<lambda>p. \<not> rt p \<le> v) (rev xs)) = A"
    "rev (takeWhile (\<lambda>p. \<not> rt p \<le> v) (rev xs)) = B"
    by (simp_all add: xs)
qed

lemma OsAddNode2SortLink_eq:
  assumes "sl_sorted (sl_time sl) (sl_nodes sl)" and n: "n \<notin> set (sl_nodes sl)"
  shows "OsAddNode2SortLink n sl = sl\<lparr>sl_nodes := sl_insert (sl_time sl) n (sl_nodes sl)\<rparr>"
proof (cases "sl_nodes sl")
  case (Cons x xs)
  show ?thesis
  proof (cases "sl_time sl x < sl_time sl n")
    case True
    then have "\<exists>p \<in> set (rev (x # xs)). sl_time sl p \<le> sl_time sl n" by auto
    from scan_from_tail_eq [OF this] show ?thesis
      using True n Cons sl_sorted_split [of "sl_time sl" "x # xs" "sl_time sl n"] assms
      by (simp add: OsAddNode2SortLink_def sl_insert_def)
  qed (use n Cons in \<open>auto simp: OsAddNode2SortLink_def sl_insert_def\<close>)
qed (use n in \<open>simp add: OsAddNode2SortLink_def sl_insert_def\<close>)

lemma sl_insert_split: "\<exists>A B. xs = A @ B \<and> sl_insert rt n xs = A @ n # B"
proof (cases xs)
  case (Cons x ys)
  show ?thesis
  proof (cases "rt x = rt n")
    case True
    then have "xs = [x] @ ys \<and> sl_insert rt n xs = [x] @ n # ys" by (simp add: sl_insert_def Cons)
    then show ?thesis by blast
  next
    case False
    let ?P = "\<lambda>p. rt p \<le> rt n"
    have "xs = takeWhile ?P xs @ dropWhile ?P xs" by simp
    moreover have "sl_insert rt n xs = takeWhile ?P xs @ n # dropWhile ?P xs"
      using False by (simp add: sl_insert_def Cons)
    ultimately show ?thesis by blast
  qed
qed (simp add: sl_insert_def)

lemma set_sl_insert [simp]: "set (sl_insert rt n xs) = insert n (set xs)"
  using sl_insert_split [of xs rt n] by force

lemma distinct_sl_insert: "distinct xs \<Longrightarrow> n \<notin> set xs \<Longrightarrow> distinct (sl_insert rt n xs)"
  using sl_insert_split [of xs rt n] by force

lemma sorted_sl_insert:
  assumes s: "sl_sorted rt xs"
  shows "sl_sorted rt (sl_insert rt n xs)"
proof (cases xs)
  case (Cons x ys)
  define A B where "A = takeWhile (\<lambda>p. rt p \<le> rt n) xs" and "B = dropWhile (\<lambda>p. rt p \<le> rt n) xs"
  have xs: "xs = A @ B" by (simp add: A_def B_def)
  have A: "\<forall>p \<in> set A. rt p \<le> rt n" by (auto simp: A_def dest: set_takeWhileD)
  have "set B = set (takeWhile (\<lambda>p. \<not> rt p \<le> rt n) (rev xs))"
    using sl_sorted_split(2) [OF s, of "rt n"] by (metis B_def set_rev)
  then have "\<forall>p \<in> set B. rt n \<le> rt p" by (auto dest: set_takeWhileD)
  with A s have "sl_sorted rt (A @ n # B)"
    by (auto simp: xs sl_sorted_def sorted_wrt_append)
  moreover have "sl_sorted rt (x # n # ys)" if "rt x = rt n"
    using that s by (auto simp: Cons sl_sorted_def)
  ultimately show ?thesis by (simp add: sl_insert_def Cons A_def B_def)
qed (simp add: sl_insert_def sl_sorted_def)

section \<open>What the operations keep\<close>

lemma sl_sorted_cong:
  "(\<And>n. n \<in> set xs \<Longrightarrow> rt' n = rt n) \<Longrightarrow> sl_sorted rt' xs \<longleftrightarrow> sl_sorted rt xs"
  unfolding sl_sorted_def by (rule sorted_wrt_map_cong)

lemma sl_wf_set_value:
  "sl_wf sl \<Longrightarrow> n \<notin> set (sl_nodes sl) \<Longrightarrow> sl_wf (SET_SORTLIST_VALUE n v sl)"
  using sl_sorted_cong [of "sl_nodes sl" "(sl_time sl)(n := v)" "sl_time sl"]
  by (simp add: sl_wf_def SET_SORTLIST_VALUE_def) metis

lemma sl_wf_add_node:
  assumes "sl_wf sl" and "n \<notin> set (sl_nodes sl)" and "sl_time sl n \<noteq> OS_SORT_LINK_INVALID_TIME"
  shows "sl_wf (OsAddNode2SortLink n sl)"
  using assms
  by (simp add: OsAddNode2SortLink_eq sl_wf_def distinct_sl_insert sorted_sl_insert)

lemma OsAdd2SortLink_eq:
  fixes tps clk ticks :: u32 and startTime :: u64
  defines "rt \<equiv> startTime + OS_SYS_TICK_TO_CYCLE tps clk ticks"
  assumes "sl_wf sl" and "n \<notin> set (sl_nodes sl)"
  shows "OsAdd2SortLink tps clk n startTime ticks sl =
     sl\<lparr>sl_time := (sl_time sl)(n := rt),
        sl_nodes := sl_insert ((sl_time sl)(n := rt)) n (sl_nodes sl)\<rparr>"
proof -
  let ?sl = "SET_SORTLIST_VALUE n rt sl"
  have "sl_sorted (sl_time ?sl) (sl_nodes ?sl)" "n \<notin> set (sl_nodes ?sl)"
    using sl_wf_set_value [OF assms(2,3)] assms(3) by (simp_all add: sl_wf_def SET_SORTLIST_VALUE_def)
  from OsAddNode2SortLink_eq [OF this] show ?thesis
    by (simp add: OsAdd2SortLink_def rt_def SET_SORTLIST_VALUE_def)
qed

lemma sl_wf_add2:
  assumes "sl_wf sl" and "n \<notin> set (sl_nodes sl)"
    and "startTime + OS_SYS_TICK_TO_CYCLE tps clk ticks \<noteq> OS_SORT_LINK_INVALID_TIME"
  shows "sl_wf (OsAdd2SortLink tps clk n startTime ticks sl)"
  unfolding OsAdd2SortLink_def
  by (rule sl_wf_add_node [OF sl_wf_set_value [OF assms(1,2)]])
    (use assms in \<open>simp_all add: SET_SORTLIST_VALUE_def\<close>)

lemma sl_wf_delete:
  assumes "sl_wf sl" and "n \<in> set (sl_nodes sl)"
  shows "sl_wf (OsDeleteNodeSortLink n sl)"
proof -
  have "sl_wf (sl\<lparr>sl_nodes := remove1 n (sl_nodes sl)\<rparr>)"
    using assms by (auto simp: sl_wf_def sl_sorted_def sorted_wrt_remove1)
  then show ?thesis
    using sl_wf_set_value [of "sl\<lparr>sl_nodes := remove1 n (sl_nodes sl)\<rparr>" n] assms
    by (simp add: OsDeleteNodeSortLink_def sl_wf_def)
qed

text \<open>Simp rules for what each operation leaves in the two fields.\<close>

lemma sl_delete_nodes [simp]: "sl_nodes (OsDeleteNodeSortLink n sl) = remove1 n (sl_nodes sl)"
  by (simp add: OsDeleteNodeSortLink_def SET_SORTLIST_VALUE_def remove1_idem)

lemma sl_delete_time [simp]:
  "sl_time (OsDeleteNodeSortLink n sl) = (sl_time sl)(n := OS_SORT_LINK_INVALID_TIME)"
  by (simp add: OsDeleteNodeSortLink_def SET_SORTLIST_VALUE_def)

text \<open>
  A delay never lands on the reserved value: below \<open>2 ^ 63\<close> cycles of uptime and with at least two
  ticks per second, the 64-bit sum does not wrap and is smaller than \<open>OS_SORT_LINK_INVALID_TIME\<close>.
\<close>

lemma tick_to_cycle_unat:
  "unat (OS_SYS_TICK_TO_CYCLE tps clk ticks) = unat ticks * unat clk div unat tps"
proof -
  have "unat ticks * unat clk < 2 ^ 32 * 2 ^ 32"
    by (rule mult_strict_mono) (use unsigned_less [of ticks] unsigned_less [of clk] in simp_all)
  then have "unat (ucast ticks * ucast clk :: u64) = unat ticks * unat clk"
    by (simp add: unat_word_ariths unat_ucast_up)
  then show ?thesis
    by (simp add: OS_SYS_TICK_TO_CYCLE_def unat_div unat_ucast_up)
qed

lemma tick_to_cycle_bound: "2 \<le> tps \<Longrightarrow> unat (OS_SYS_TICK_TO_CYCLE tps clk ticks) < 2 ^ 63"
proof -
  assume tps: "2 \<le> tps"
  have "unat ticks * unat clk < 2 ^ 32 * 2 ^ 32"
    by (rule mult_strict_mono) (use unsigned_less [of ticks] unsigned_less [of clk] in simp_all)
  moreover have "2 \<le> unat tps" using tps by (simp add: word_le_nat_alt)
  then have "unat ticks * unat clk div unat tps \<le> unat ticks * unat clk div 2"
    by (rule div_le_mono2 [rotated]) simp
  ultimately show ?thesis by (simp add: tick_to_cycle_unat)
qed

lemma add_delay_no_wrap:
  assumes "2 \<le> tps" and "unat startTime < 2 ^ 63"
  shows "unat (startTime + OS_SYS_TICK_TO_CYCLE tps clk ticks) =
      unat startTime + unat ticks * unat clk div unat tps"
    and "startTime + OS_SYS_TICK_TO_CYCLE tps clk ticks \<noteq> OS_SORT_LINK_INVALID_TIME"
proof -
  have sum: "unat startTime + unat (OS_SYS_TICK_TO_CYCLE tps clk ticks) < 2 ^ 64 - 1"
    using tick_to_cycle_bound [OF assms(1), of clk ticks] assms(2) by simp
  then have eq: "unat (startTime + OS_SYS_TICK_TO_CYCLE tps clk ticks) =
      unat startTime + unat (OS_SYS_TICK_TO_CYCLE tps clk ticks)"
    by (intro unat_add_lem [THEN iffD1]) simp
  then show "unat (startTime + OS_SYS_TICK_TO_CYCLE tps clk ticks) =
      unat startTime + unat ticks * unat clk div unat tps"
    by (simp add: tick_to_cycle_unat)
  have "unat OS_SORT_LINK_INVALID_TIME = 2 ^ 64 - 1"
    by (simp add: OS_SORT_LINK_INVALID_TIME_def unsigned_minus_1_eq_mask mask_eq_exp_minus_1)
  then show "startTime + OS_SYS_TICK_TO_CYCLE tps clk ticks \<noteq> OS_SORT_LINK_INVALID_TIME"
    using sum eq by (metis less_irrefl)
qed

section \<open>Properties\<close>

lemma remove1_sl_insert: "n \<notin> set xs \<Longrightarrow> remove1 n (sl_insert rt n xs) = xs"
  using sl_insert_split [of xs rt n] by (auto simp: remove1_append)

text \<open>C2: \<open>OsAdd2SortLink\<close> on a well-formed sort link and an unlinked node.  The scan from the tail
  stops at a node (it never runs past the head), the link stays sorted by response time and free of
  duplicates, the node is linked with the exact response time \<open>startTime + ticks * clock div ticks
  per second\<close> (no 64-bit wrap-around), and the nodes that were linked keep their order and their
  times.\<close>

theorem OsAdd2SortLink_correct:
  assumes "sl_wf sl" and "n \<notin> set (sl_nodes sl)" and "2 \<le> tps" and "unat start < 2 ^ 63"
  shows "let sl' = OsAdd2SortLink tps clk n start ticks sl in
     sl_wf sl' \<and> n \<in> set (sl_nodes sl') \<and> remove1 n (sl_nodes sl') = sl_nodes sl \<and>
     unat (sl_time sl' n) = unat start + unat ticks * unat clk div unat tps \<and>
     (\<forall>m. m \<noteq> n \<longrightarrow> sl_time sl' m = sl_time sl m)"
proof -
  note rt = add_delay_no_wrap [OF assms(3,4), of clk ticks]
  have "sl_wf (OsAdd2SortLink tps clk n start ticks sl)"
    by (rule sl_wf_add2 [OF assms(1,2) rt(2)])
  then show ?thesis
    using assms rt(1) by (simp add: OsAdd2SortLink_eq remove1_sl_insert)
qed

definition demo_sortlink :: "nat sortlink" where
  "demo_sortlink = \<lparr>sl_nodes = [1, 2], sl_time = (\<lambda>_. - 1)(1 := 1000, 2 := 5000), sl_fault = False\<rparr>"

theorem OsAdd2SortLink_correct_witness:
  "sl_wf demo_sortlink \<and> unat (sl_time (OsAdd2SortLink 100 1000000 3 200 5 demo_sortlink) 3) = 50200"
proof -
  have "sl_wf demo_sortlink"
    by (simp add: sl_wf_def demo_sortlink_def sl_sorted_def OS_SORT_LINK_INVALID_TIME_def)
  moreover have "3 \<notin> set (sl_nodes demo_sortlink)" by (simp add: demo_sortlink_def)
  ultimately show ?thesis
    using OsAdd2SortLink_correct [of demo_sortlink 3 100 200 1000000 5] by (simp add: Let_def)
qed



end
