(* ===== verification/Kernel_State.thy ===== *)
theory Kernel_State
  imports Los_List SortLink
begin

text \<open>
  The state the scheduler, the task module and the IPC components share: the task control blocks
  (\<open>LosTaskCB\<close>, \<open>src/kernel/include/los_task.h\<close>), the list heads their \<open>pendList\<close> nodes can be
  queued on, and the globals of \<open>los_sched.c\<close> and \<open>los_task.c\<close>.

  A pointer to a task control block is its index in \<open>g_taskCBArray\<close>; the array has one slot more
  than \<open>g_taskMaxNum\<close>, the placeholder that is the running task before the scheduler starts and
  after the running task has deleted itself.
\<close>

section \<open>Task status\<close>

declare One_nat_def [simp del]

abbreviation OS_TASK_STATUS_UNUSED :: u16 where "OS_TASK_STATUS_UNUSED \<equiv> flagBit 0"
abbreviation OS_TASK_STATUS_SUSPEND :: u16 where "OS_TASK_STATUS_SUSPEND \<equiv> flagBit 1"
abbreviation OS_TASK_STATUS_READY :: u16 where "OS_TASK_STATUS_READY \<equiv> flagBit 2"
abbreviation OS_TASK_STATUS_PEND :: u16 where "OS_TASK_STATUS_PEND \<equiv> flagBit 3"
abbreviation OS_TASK_STATUS_RUNNING :: u16 where "OS_TASK_STATUS_RUNNING \<equiv> flagBit 4"
abbreviation OS_TASK_STATUS_DELAY :: u16 where "OS_TASK_STATUS_DELAY \<equiv> flagBit 5"
abbreviation OS_TASK_STATUS_TIMEOUT :: u16 where "OS_TASK_STATUS_TIMEOUT \<equiv> flagBit 6"
abbreviation OS_TASK_STATUS_PEND_TIME :: u16 where "OS_TASK_STATUS_PEND_TIME \<equiv> flagBit 7"
abbreviation OS_TASK_STATUS_EXIT :: u16 where "OS_TASK_STATUS_EXIT \<equiv> flagBit 8"
abbreviation OS_TASK_FLAG_STACK_FREE :: u16 where "OS_TASK_FLAG_STACK_FREE \<equiv> flagBit 11"
abbreviation OS_TASK_FLAG_SYSTEM_TASK :: u16 where "OS_TASK_FLAG_SYSTEM_TASK \<equiv> flagBit 12"
abbreviation OS_TASK_FLAG_SIGNAL :: u16 where "OS_TASK_FLAG_SIGNAL \<equiv> flagBit 13"
abbreviation OS_TASK_FLAG_FREEZE :: u16 where "OS_TASK_FLAG_FREEZE \<equiv> flagBit 14"
abbreviation OS_TASK_FLAG_JOINABLE :: u16 where "OS_TASK_FLAG_JOINABLE \<equiv> flagBit 15"

abbreviation OS_TASK_PRIORITY_LOWEST :: u16 where "OS_TASK_PRIORITY_LOWEST \<equiv> 31"

section \<open>Control blocks and list heads\<close>

type_synonym tptr = nat

text \<open>
  The node \<open>sortList\<close> of a task is in the sort link below; \<open>pendList\<close>, the head \<open>joinList\<close> and the
  list of the embedded event are in the list store.  Pointers to semaphores and mutexes are their
  indexes; stacks, names and entry functions are opaque addresses.
\<close>

record LosTaskCB =
  stackPointer :: u32
  taskStatus :: u16
  priority :: u16
  timeSlice :: int
  waitTimes :: u32
  startTime :: u64
  stackSize :: u32
  topOfStack :: u32
  taskID :: u32
  taskEntry :: u32
  taskSem :: "nat option"
  taskMux :: "nat option"
  arg :: u32
  taskName :: u32
  joinRetval :: u32
  eventMask :: u32
  eventMode :: u32
  msg :: u32
  errorNo :: int

text \<open>An event control block is embedded in a task or is an object of the application.\<close>

datatype evptr = TaskEvent tptr | EventObj nat

text \<open>
  \<open>g_losFreeTask\<close>, \<open>g_taskRecycleList\<close>, \<open>g_priQueueList[p]\<close>, the \<open>joinList\<close> of a task, the
  \<open>semList\<close> of a semaphore, the \<open>muxList\<close> of a mutex, the \<open>stEventList\<close> of an event and the three
  wait lists of a queue.
\<close>

datatype lhead =
    FreeTask
  | TaskRecycle
  | PriQueue nat
  | JoinList tptr
  | SemList nat
  | MuxList nat
  | EvtList evptr
  | QueReadList nat
  | QueWriteList nat
  | QueMemList nat

text \<open>The heads on which a task waits (the callers of \<open>OsSchedTaskWait\<close>).\<close>

fun is_wait :: "lhead \<Rightarrow> bool" where
  "is_wait FreeTask = False"
| "is_wait TaskRecycle = False"
| "is_wait (PriQueue p) = False"
| "is_wait _ = True"

section \<open>Configuration and globals\<close>

record kconfig =
  TICK_PER_SECOND :: u32
  TICK_PER_SECOND_MINI :: u32
  TIMESLICE_TIMEOUT :: u32
  TICK_PERIOD_MAX :: u64
  TSK_LIMIT :: u32
  SYS_HEAP_SIZE :: u32
  TSK_MIN_STACK_SIZE :: u32
  TSK_DEFAULT_STACK_SIZE :: u32
  TSK_IDLE_STACK_SIZE :: u32
  STACK_POINT_ALIGN_SIZE :: u32

record ksched =
  conf :: kconfig
  tcb :: "tptr \<Rightarrow> LosTaskCB"
  lst :: "(lhead, tptr) lstore"
  tskSort :: "tptr sortlink"
  swtSort :: "nat sortlink"
  g_queueBitmap :: u32
  runTask :: tptr
  newTask :: tptr
  g_taskScheduled :: bool
  g_losTaskLock :: u16
  g_taskMaxNum :: u32
  g_idleTaskID :: u32
  g_swtmrTaskID :: u32
  g_schedResponseID :: u32
  g_tickIntLock :: u16
  g_schedResponseTime :: u64
  g_schedTimeSlice :: int
  g_schedTimeSliceMin :: int
  g_schedTickMinPeriod :: u32
  g_tickResponsePrecision :: u32
  g_sysClock :: u32
  g_tickTimerStartTime :: u64
  sysCycle :: u64
  intActive :: bool
  pendSV :: bool
  assertFailed :: bool

text \<open>
  The last four are the machine: the cycle counter \<open>LOS_SysCycleGet\<close> reads, whether an interrupt
  handler is running (\<open>OS_INT_ACTIVE\<close>), whether the switch exception is pending
  (\<open>ArchTaskSchedule\<close>), and whether a \<open>LOS_ASSERT\<close> has failed.  The model continues after a failed
  assertion, as the code does where \<open>LOS_ASSERT\<close> is compiled to nothing; a theorem that the flag
  stays false covers the configuration in which the kernel stops there.
\<close>

section \<open>Accessors\<close>

definition mod_task :: "tptr \<Rightarrow> (LosTaskCB \<Rightarrow> LosTaskCB) \<Rightarrow> ksched \<Rightarrow> ksched" where
  "mod_task t f s = s\<lparr>tcb := (tcb s)(t := f (tcb s t))\<rparr>"

abbreviation status :: "ksched \<Rightarrow> tptr \<Rightarrow> u16" where
  "status s t \<equiv> taskStatus (tcb s t)"

abbreviation set_status :: "tptr \<Rightarrow> u16 \<Rightarrow> ksched \<Rightarrow> ksched" where
  "set_status t m s \<equiv> mod_task t (\<lambda>c. c\<lparr>taskStatus := setFlag (taskStatus c) m\<rparr>) s"

abbreviation clr_status :: "tptr \<Rightarrow> u16 \<Rightarrow> ksched \<Rightarrow> ksched" where
  "clr_status t m s \<equiv> mod_task t (\<lambda>c. c\<lparr>taskStatus := clrFlag (taskStatus c) m\<rparr>) s"

abbreviation mod_lst :: "((lhead, tptr) lstore \<Rightarrow> (lhead, tptr) lstore) \<Rightarrow> ksched \<Rightarrow> ksched" where
  "mod_lst f s \<equiv> s\<lparr>lst := f (lst s)\<rparr>"

abbreviation mod_tskSort :: "(tptr sortlink \<Rightarrow> tptr sortlink) \<Rightarrow> ksched \<Rightarrow> ksched" where
  "mod_tskSort f s \<equiv> s\<lparr>tskSort := f (tskSort s)\<rparr>"

definition LOS_ASSERT :: "bool \<Rightarrow> ksched \<Rightarrow> ksched" where
  "LOS_ASSERT b s = (if b then s else s\<lparr>assertFailed := True\<rparr>)"

abbreviation OsGetCurrSchedTimeCycle :: "ksched \<Rightarrow> u64" where
  "OsGetCurrSchedTimeCycle s \<equiv> sysCycle s"

abbreviation is_idle :: "ksched \<Rightarrow> tptr \<Rightarrow> bool" where
  "is_idle s t \<equiv> taskID (tcb s t) = g_idleTaskID s"

definition OS_TCB_FROM_TID :: "u32 \<Rightarrow> tptr" where
  "OS_TCB_FROM_TID tid = unat tid"

text \<open>\<open>__builtin_clz\<close>: the number of leading zero bits (the argument is not zero where it is used).\<close>

definition CLZ :: "u32 \<Rightarrow> nat" where
  "CLZ w = length (takeWhile (\<lambda>p. \<not> bit w (31 - p)) [0..<32])"

lemma CLZ_least:
  assumes "w \<noteq> 0"
  shows "CLZ w < 32 \<and> bit w (31 - CLZ w) \<and> (\<forall>p < CLZ w. \<not> bit w (31 - p))"
proof -
  let ?P = "\<lambda>p. \<not> bit w (31 - p)"
  obtain n where n: "bit w n" using assms by (auto simp: bit_eq_iff)
  then have "n < 32" using bit_imp_le_length [of w n] by simp
  then have "31 - n \<in> set [0..<32] \<and> \<not> ?P (31 - n)" using n by simp
  then have lt: "CLZ w < 32"
    unfolding CLZ_def using takeWhile_eq_all_conv [of ?P "[0..<32]"]
    by (metis (no_types, lifting) length_takeWhile_le length_upt diff_zero le_neq_implies_less
        takeWhile_eq_take take_all_iff order_refl)
  have nth: "takeWhile ?P [0..<32] ! p = p" if "p < CLZ w" for p
    using that lt takeWhile_nth [of p ?P "[0..<32]"] by (simp add: CLZ_def)
  have "\<not> bit w (31 - p)" if "p < CLZ w" for p
    using nth [OF that] that nth_mem [of p "takeWhile ?P [0..<32]"] set_takeWhileD [of p ?P "[0..<32]"]
    by (simp add: CLZ_def)
  moreover have "bit w (31 - CLZ w)"
    using nth_length_takeWhile [of ?P "[0..<32]"] lt by (simp add: CLZ_def)
  ultimately show ?thesis using lt by blast
qed

text \<open>Frame rules of \<open>mod_task\<close>.\<close>

lemma mod_task_tcb [simp]: "tcb (mod_task t f s) = (tcb s)(t := f (tcb s t))"
  by (simp add: mod_task_def)

lemma mod_task_frame [simp]:
  "conf (mod_task t f s) = conf s" "lst (mod_task t f s) = lst s"
  "tskSort (mod_task t f s) = tskSort s" "swtSort (mod_task t f s) = swtSort s"
  "g_queueBitmap (mod_task t f s) = g_queueBitmap s" "runTask (mod_task t f s) = runTask s"
  "newTask (mod_task t f s) = newTask s" "g_taskScheduled (mod_task t f s) = g_taskScheduled s"
  "g_losTaskLock (mod_task t f s) = g_losTaskLock s" "g_taskMaxNum (mod_task t f s) = g_taskMaxNum s"
  "g_idleTaskID (mod_task t f s) = g_idleTaskID s" "g_swtmrTaskID (mod_task t f s) = g_swtmrTaskID s"
  "g_schedResponseID (mod_task t f s) = g_schedResponseID s"
  "g_tickIntLock (mod_task t f s) = g_tickIntLock s"
  "g_schedResponseTime (mod_task t f s) = g_schedResponseTime s"
  "g_schedTimeSlice (mod_task t f s) = g_schedTimeSlice s"
  "g_schedTimeSliceMin (mod_task t f s) = g_schedTimeSliceMin s"
  "g_schedTickMinPeriod (mod_task t f s) = g_schedTickMinPeriod s"
  "g_tickResponsePrecision (mod_task t f s) = g_tickResponsePrecision s"
  "g_sysClock (mod_task t f s) = g_sysClock s"
  "g_tickTimerStartTime (mod_task t f s) = g_tickTimerStartTime s"
  "sysCycle (mod_task t f s) = sysCycle s" "intActive (mod_task t f s) = intActive s"
  "pendSV (mod_task t f s) = pendSV s" "assertFailed (mod_task t f s) = assertFailed s"
  by (simp_all add: mod_task_def)

end
