(* ===== verification/Sched.thy ===== *)
theory Sched
  imports Kernel_State
begin

text \<open>
  The scheduler, \<open>src/kernel/src/los_sched.c\<close>: the 32 ready queues and their bitmap, the time
  slices, the sleeping tasks, the choice of the next task and the task switch.

  \<open>LOSCFG_KERNEL_PM\<close> and the hooks are off, as in the default configuration; the software-timer
  scan that the tick handler calls is a parameter, registered by \<open>OsSchedSwtmrScanRegister\<close>.
\<close>

section \<open>Ready queues\<close>

definition OS_SCHED_MAX_RESPONSE_TIME :: u64 where
  "OS_SCHED_MAX_RESPONSE_TIME = OS_SORT_LINK_UINT64_MAX"

definition PRIQUEUE_PRIOR0_BIT :: u32 where
  "PRIQUEUE_PRIOR0_BIT = 0x80000000"

definition OsSchedPriQueueEnHead :: "tptr \<Rightarrow> nat \<Rightarrow> ksched \<Rightarrow> ksched" where
  "OsSchedPriQueueEnHead t prio s =
     (let s1 = (if ls_nodes (lst s) (PriQueue prio) = []
                then s\<lparr>g_queueBitmap := setFlag (g_queueBitmap s) (drop_bit prio PRIQUEUE_PRIOR0_BIT)\<rparr>
                else s)
      in mod_lst (ls_add (PriQueue prio) t) s1)"

definition OsSchedPriQueueEnTail :: "tptr \<Rightarrow> nat \<Rightarrow> ksched \<Rightarrow> ksched" where
  "OsSchedPriQueueEnTail t prio s =
     (let s1 = (if ls_nodes (lst s) (PriQueue prio) = []
                then s\<lparr>g_queueBitmap := setFlag (g_queueBitmap s) (drop_bit prio PRIQUEUE_PRIOR0_BIT)\<rparr>
                else s)
      in mod_lst (ls_tail (PriQueue prio) t) s1)"

definition OsSchedPriQueueDelete :: "tptr \<Rightarrow> nat \<Rightarrow> ksched \<Rightarrow> ksched" where
  "OsSchedPriQueueDelete t prio s =
     (let s1 = mod_lst (ls_del t) s
      in if ls_nodes (lst s1) (PriQueue prio) = []
         then s1\<lparr>g_queueBitmap := clrFlag (g_queueBitmap s1) (drop_bit prio PRIQUEUE_PRIOR0_BIT)\<rparr>
         else s1)"

definition OsSchedTaskEnQueue :: "tptr \<Rightarrow> ksched \<Rightarrow> ksched" where
  "OsSchedTaskEnQueue t s =
     (let s1 = LOS_ASSERT (\<not> hasFlag (status s t) OS_TASK_STATUS_READY) s;
          s2 = (if \<not> is_idle s1 t
                then if timeSlice (tcb s1 t) > g_schedTimeSliceMin s1
                     then OsSchedPriQueueEnHead t (unat (priority (tcb s1 t))) s1
                     else OsSchedPriQueueEnTail t (unat (priority (tcb s1 t)))
                            (mod_task t (\<lambda>c. c\<lparr>timeSlice := g_schedTimeSlice s1\<rparr>) s1)
                else s1);
          s3 = clr_status t (OS_TASK_STATUS_PEND OR OS_TASK_STATUS_SUSPEND OR
                             OS_TASK_STATUS_DELAY OR OS_TASK_STATUS_PEND_TIME) s2
      in set_status t OS_TASK_STATUS_READY s3)"

definition OsSchedTaskDeQueue :: "tptr \<Rightarrow> ksched \<Rightarrow> ksched" where
  "OsSchedTaskDeQueue t s =
     (if hasFlag (status s t) OS_TASK_STATUS_READY
      then let s1 = (if \<not> is_idle s t then OsSchedPriQueueDelete t (unat (priority (tcb s t))) s else s)
           in clr_status t OS_TASK_STATUS_READY s1
      else s)"

definition OsGetTopTask :: "ksched \<Rightarrow> tptr option" where
  "OsGetTopTask s =
     (if g_queueBitmap s \<noteq> 0
      then case ls_nodes (lst s) (PriQueue (CLZ (g_queueBitmap s))) of [] \<Rightarrow> None | t # _ \<Rightarrow> Some t
      else Some (OS_TCB_FROM_TID (g_idleTaskID s)))"

text \<open>
  \<open>OsGetTopTask\<close> is \<open>None\<close> when the bitmap names an empty queue: the C code would then take the
  list head for a task.  The invariant below excludes it.
\<close>

section \<open>Expiry times\<close>

definition OsSchedResetSchedResponseTime :: "u64 \<Rightarrow> ksched \<Rightarrow> ksched" where
  "OsSchedResetSchedResponseTime responseTime s =
     (if responseTime \<le> g_schedResponseTime s
      then s\<lparr>g_schedResponseTime := OS_SCHED_MAX_RESPONSE_TIME\<rparr> else s)"

text \<open>\<open>OsDeleteSortLink\<close> of \<open>los_sortlink.c\<close>, for a task.\<close>

definition OsDeleteSortLink :: "tptr \<Rightarrow> ksched \<Rightarrow> ksched" where
  "OsDeleteSortLink t s =
     (if sl_time (tskSort s) t \<noteq> OS_SORT_LINK_INVALID_TIME
      then mod_tskSort (OsDeleteNodeSortLink t)
             (OsSchedResetSchedResponseTime (sl_time (tskSort s) t) s)
      else s)"

definition OsGetNextExpireTime :: "u64 \<Rightarrow> u32 \<Rightarrow> ksched \<Rightarrow> u64" where
  "OsGetNextExpireTime start tickPrecision s =
     (let taskExpireTime = GetSortLinkNextExpireTime (tskSort s) start tickPrecision;
          swtmrExpireTime = GetSortLinkNextExpireTime (swtSort s) start tickPrecision
      in if taskExpireTime < swtmrExpireTime then taskExpireTime else swtmrExpireTime)"

definition OsSchedGetNextExpireTime :: "u64 \<Rightarrow> ksched \<Rightarrow> u64" where
  "OsSchedGetNextExpireTime start s = OsGetNextExpireTime start (g_tickResponsePrecision s) s"

definition OsTaskNextSwitchTimeGet :: "ksched \<Rightarrow> u32" where
  "OsTaskNextSwitchTimeGet s =
     ucast (OsSortLinkGetNextExpireTime (OsGetCurrSchedTimeCycle s) (tskSort s))"

text \<open>
  The timer programmed by \<open>OsTickTimerReload\<close>: the period is cut to what the counter can hold
  (\<open>SysTickReload\<close> of the ARM Cortex-M4 port), and the period programmed is returned.
\<close>

definition SysTickReload :: "u64 \<Rightarrow> ksched \<Rightarrow> u64" where
  "SysTickReload nextResponseTime s =
     (if nextResponseTime > TICK_PERIOD_MAX (conf s) then TICK_PERIOD_MAX (conf s) else nextResponseTime)"

definition OsTickTimerReload :: "u64 \<Rightarrow> ksched \<Rightarrow> u64" where
  "OsTickTimerReload period s = SysTickReload period s"

definition OsSchedSetNextExpireTime :: "u32 \<Rightarrow> u64 \<Rightarrow> ksched \<Rightarrow> ksched" where
  "OsSchedSetNextExpireTime responseID taskEndTime s =
     (let currTime = OsGetCurrSchedTimeCycle s;
          next0 = OsGetNextExpireTime currTime (g_tickResponsePrecision s) s;
          isTimeSlice = (next0 > taskEndTime \<and> next0 - taskEndTime > ucast (g_schedTickMinPeriod s));
          nextExpireTime = (if isTimeSlice then taskEndTime else next0)
      in if g_schedResponseTime s \<le> nextExpireTime \<or>
            g_schedResponseTime s - nextExpireTime < ucast (g_tickResponsePrecision s)
         then s
         else let s1 = s\<lparr>g_schedResponseID := (if isTimeSlice then responseID else OS_INVALID)\<rparr>;
                  resp0 = nextExpireTime - currTime;
                  nextResponseTime = (if resp0 < ucast (g_tickResponsePrecision s)
                                      then ucast (g_tickResponsePrecision s) else resp0)
              in s1\<lparr>g_schedResponseTime := currTime + OsTickTimerReload nextResponseTime s1\<rparr>)"

text \<open>\<open>endTime = startTime + timeSlice\<close>: the \<open>INT32\<close> is converted to \<open>UINT64\<close> before the addition.\<close>

definition OsSchedUpdateExpireTime :: "ksched \<Rightarrow> ksched" where
  "OsSchedUpdateExpireTime s =
     (if \<not> g_taskScheduled s \<or> g_tickIntLock s \<noteq> 0 then s
      else let t = runTask s;
               endTime = (if \<not> is_idle s t
                          then startTime (tcb s t) +
                               word_of_int (if timeSlice (tcb s t) \<le> g_schedTimeSliceMin s
                                            then g_schedTimeSlice s else timeSlice (tcb s t))
                          else OS_SCHED_MAX_RESPONSE_TIME - ucast (g_tickResponsePrecision s))
           in OsSchedSetNextExpireTime (taskID (tcb s t)) endTime s)"

definition OsTimeSliceUpdate :: "tptr \<Rightarrow> u64 \<Rightarrow> ksched \<Rightarrow> ksched" where
  "OsTimeSliceUpdate t currTime s =
     (let s1 = LOS_ASSERT (currTime \<ge> startTime (tcb s t)) s;
          incTime = to_int32 (currTime - startTime (tcb s1 t));
          s2 = (if \<not> is_idle s1 t
                then mod_task t (\<lambda>c. c\<lparr>timeSlice := wrap_int32 (timeSlice c - incTime)\<rparr>) s1 else s1)
      in mod_task t (\<lambda>c. c\<lparr>startTime := currTime\<rparr>) s2)"

section \<open>Blocking, waking, suspending\<close>

definition OsSchedWakePendTimeTask :: "tptr \<Rightarrow> ksched \<times> bool \<Rightarrow> ksched \<times> bool" where
  "OsSchedWakePendTimeTask t = (\<lambda>(s, needSchedule).
     (let tempStatus = status s t
      in if hasFlag tempStatus (OS_TASK_STATUS_PEND OR OS_TASK_STATUS_DELAY)
         then let s1 = clr_status t (OS_TASK_STATUS_PEND OR OS_TASK_STATUS_PEND_TIME OR OS_TASK_STATUS_DELAY) s;
                  s2 = (if hasFlag tempStatus OS_TASK_STATUS_PEND
                        then mod_task t (\<lambda>c. c\<lparr>taskMux := None, taskSem := None\<rparr>)
                               (mod_lst (ls_del t) (set_status t OS_TASK_STATUS_TIMEOUT s1))
                        else s1)
              in if \<not> hasFlag tempStatus OS_TASK_STATUS_SUSPEND
                 then (OsSchedTaskEnQueue t s2, True)
                 else (s2, needSchedule)
         else (s, needSchedule)))"

text \<open>
  The \<open>while\<close> loop of \<open>OsSchedScanTimerList\<close>: as long as the first node of the task sort link is
  due, unlink it and wake its task.  Each round shortens the sort link, so the length of the link
  is the bound of the recursion.
\<close>

lemma OsSchedTaskEnQueue_tskSort [simp]: "tskSort (OsSchedTaskEnQueue t s) = tskSort s"
  by (simp add: OsSchedTaskEnQueue_def OsSchedPriQueueEnHead_def OsSchedPriQueueEnTail_def Let_def
      LOS_ASSERT_def)

lemma OsSchedWakePendTimeTask_tskSort [simp]:
  "tskSort (fst (OsSchedWakePendTimeTask t (s, b))) = tskSort s"
  by (simp add: OsSchedWakePendTimeTask_def Let_def)

function scan_timer_loop :: "u64 \<Rightarrow> ksched \<times> bool \<Rightarrow> ksched \<times> bool" where
  "scan_timer_loop currTime (s, need) =
     (case sl_nodes (tskSort s) of
        [] \<Rightarrow> (s, need)
      | t # ts \<Rightarrow>
          if sl_time (tskSort s) t \<le> currTime
          then scan_timer_loop currTime
                 (OsSchedWakePendTimeTask t (mod_tskSort (OsDeleteNodeSortLink t) s, need))
          else (s, need))"
  by pat_completeness auto

termination
proof (relation "measure (\<lambda>(_, s, _). length (sl_nodes (tskSort s)))", goal_cases)
  case (2 currTime s need t ts)
  then show ?case
    using OsSchedWakePendTimeTask_tskSort [of t "mod_tskSort (OsDeleteNodeSortLink t) s" need]
    by (cases "OsSchedWakePendTimeTask t (mod_tskSort (OsDeleteNodeSortLink t) s, need)") simp
qed simp

definition OsSchedScanTimerList :: "ksched \<Rightarrow> ksched \<times> bool" where
  "OsSchedScanTimerList s = scan_timer_loop (OsGetCurrSchedTimeCycle s) (s, False)"

definition OsSchedTaskExit :: "tptr \<Rightarrow> ksched \<Rightarrow> ksched" where
  "OsSchedTaskExit t s =
     (let s1 = (if hasFlag (status s t) OS_TASK_STATUS_READY then OsSchedTaskDeQueue t s
                else if hasFlag (status s t) OS_TASK_STATUS_PEND
                     then clr_status t OS_TASK_STATUS_PEND (mod_lst (ls_del t) s)
                else s);
          s2 = (if hasFlag (status s1 t) (OS_TASK_STATUS_DELAY OR OS_TASK_STATUS_PEND_TIME)
                then clr_status t (OS_TASK_STATUS_DELAY OR OS_TASK_STATUS_PEND_TIME) (OsDeleteSortLink t s1)
                else s1)
      in set_status t OS_TASK_STATUS_EXIT s2)"

definition OsSchedYield :: "ksched \<Rightarrow> ksched" where
  "OsSchedYield s = mod_task (runTask s) (\<lambda>c. c\<lparr>timeSlice := 0\<rparr>) s"

definition OsSchedDelay :: "tptr \<Rightarrow> u32 \<Rightarrow> ksched \<Rightarrow> ksched" where
  "OsSchedDelay t tick s =
     mod_task t (\<lambda>c. c\<lparr>waitTimes := tick\<rparr>) (set_status t OS_TASK_STATUS_DELAY s)"

definition OsSchedTaskWait :: "lhead \<Rightarrow> u32 \<Rightarrow> ksched \<Rightarrow> ksched" where
  "OsSchedTaskWait h ticks s =
     (let t = runTask s;
          s1 = set_status t OS_TASK_STATUS_PEND s;
          s2 = mod_lst (ls_tail h t) s1
      in if ticks \<noteq> LOS_WAIT_FOREVER
         then mod_task t (\<lambda>c. c\<lparr>waitTimes := ticks\<rparr>) (set_status t OS_TASK_STATUS_PEND_TIME s2)
         else s2)"

definition OsSchedTaskWake :: "tptr \<Rightarrow> ksched \<Rightarrow> ksched" where
  "OsSchedTaskWake t s =
     (let s1 = clr_status t OS_TASK_STATUS_PEND (mod_lst (ls_del t) s);
          s2 = (if hasFlag (status s1 t) OS_TASK_STATUS_PEND_TIME
                then clr_status t OS_TASK_STATUS_PEND_TIME (OsDeleteSortLink t s1) else s1)
      in if \<not> hasFlag (status s2 t) OS_TASK_STATUS_SUSPEND \<and> \<not> hasFlag (status s2 t) OS_TASK_STATUS_RUNNING
         then OsSchedTaskEnQueue t s2 else s2)"

text \<open>\<open>OsSchedFreezeTask\<close> and \<open>OsSchedUnfreezeTask\<close>; the former is reached in power-management mode only.\<close>

definition OsSchedFreezeTask :: "tptr \<Rightarrow> ksched \<Rightarrow> ksched" where
  "OsSchedFreezeTask t s =
     (let responseTime = sl_time (tskSort s) t;
          s1 = OsDeleteSortLink t s;
          s2 = mod_tskSort (SET_SORTLIST_VALUE t responseTime) s1
      in set_status t OS_TASK_FLAG_FREEZE s2)"

definition OS_CYCLE_PER_TICK :: "ksched \<Rightarrow> u32" where
  "OS_CYCLE_PER_TICK s = g_sysClock s div TICK_PER_SECOND (conf s)"

definition OsSchedUnfreezeTask :: "tptr \<Rightarrow> ksched \<Rightarrow> ksched" where
  "OsSchedUnfreezeTask t s =
     (let s1 = clr_status t OS_TASK_FLAG_FREEZE s;
          currTime = OsGetCurrSchedTimeCycle s1;
          responseTime = sl_time (tskSort s1) t
      in if responseTime > currTime
         then let remainTick = ucast (((responseTime - currTime) + ucast (OS_CYCLE_PER_TICK s1) - 1)
                                      div ucast (OS_CYCLE_PER_TICK s1))
              in mod_tskSort (OsAdd2SortLink (TICK_PER_SECOND (conf s1)) (g_sysClock s1) t currTime remainTick) s1
         else let s2 = mod_tskSort (SET_SORTLIST_VALUE t OS_SORT_LINK_INVALID_TIME) s1;
                  s3 = (if hasFlag (status s2 t) OS_TASK_STATUS_PEND then mod_lst (ls_del t) s2 else s2)
              in clr_status t (OS_TASK_STATUS_DELAY OR OS_TASK_STATUS_PEND_TIME OR OS_TASK_STATUS_PEND) s3)"

definition OsSchedSuspend :: "bool \<Rightarrow> tptr \<Rightarrow> ksched \<Rightarrow> ksched" where
  "OsSchedSuspend isPmMode t s =
     (let s1 = (if hasFlag (status s t) OS_TASK_STATUS_READY then OsSchedTaskDeQueue t s else s);
          s2 = (if hasFlag (status s1 t) (OS_TASK_STATUS_PEND_TIME OR OS_TASK_STATUS_DELAY) \<and> isPmMode
                then OsSchedFreezeTask t s1 else s1)
      in set_status t OS_TASK_STATUS_SUSPEND s2)"

definition OsSchedResume :: "tptr \<Rightarrow> ksched \<Rightarrow> bool \<times> ksched" where
  "OsSchedResume t s =
     (let s1 = (if hasFlag (status s t) OS_TASK_FLAG_FREEZE then OsSchedUnfreezeTask t s else s);
          s2 = clr_status t OS_TASK_STATUS_SUSPEND s1
      in if \<not> hasFlag (status s2 t) (OS_TASK_STATUS_DELAY OR OS_TASK_STATUS_PEND)
         then (True, OsSchedTaskEnQueue t s2)
         else (False, s2))"

definition OsSchedModifyTaskSchedParam :: "tptr \<Rightarrow> u16 \<Rightarrow> ksched \<Rightarrow> bool \<times> ksched" where
  "OsSchedModifyTaskSchedParam t prio s =
     (if hasFlag (status s t) OS_TASK_STATUS_READY
      then let s1 = OsSchedTaskDeQueue t s;
               s2 = mod_task t (\<lambda>c. c\<lparr>priority := prio\<rparr>) s1
           in (True, OsSchedTaskEnQueue t s2)
      else let s1 = mod_task t (\<lambda>c. c\<lparr>priority := prio\<rparr>) s
           in (hasFlag (status s1 t) OS_TASK_STATUS_RUNNING, s1))"

definition OsSchedSetIdleTaskSchedParam :: "tptr \<Rightarrow> ksched \<Rightarrow> ksched" where
  "OsSchedSetIdleTaskSchedParam idleTask s = OsSchedTaskEnQueue idleTask s"

section \<open>Initialisation and frequency change\<close>

definition SchedTimeBaseInit :: "ksched \<Rightarrow> ksched" where
  "SchedTimeBaseInit s =
     (let period = g_sysClock s div TICK_PER_SECOND_MINI (conf s)
      in s\<lparr>g_schedResponseTime := OS_SCHED_MAX_RESPONSE_TIME,
           g_schedTickMinPeriod := period,
           g_tickResponsePrecision := (period * 75) div 100,
           g_schedTimeSlice := to_int32 ((ucast (g_sysClock s) * ucast (TIMESLICE_TIMEOUT (conf s))) div 1000000),
           g_schedTimeSliceMin := to_int32 ((ucast (g_sysClock s) * 50) div 1000000)\<rparr>)"

definition OsSchedInit :: "ksched \<Rightarrow> ksched" where
  "OsSchedInit s =
     (let s1 = foldl (\<lambda>st pri. mod_lst (ls_init (PriQueue pri)) st) s [0..<32];
          s2 = s1\<lparr>g_queueBitmap := 0\<rparr>;
          s3 = mod_tskSort OsSortLinkInit s2
      in SchedTimeBaseInit s3)"

definition convert_task_freq :: "u32 \<Rightarrow> u32 \<Rightarrow> LosTaskCB \<Rightarrow> LosTaskCB" where
  "convert_task_freq oldFreq newFreq c =
     (if hasFlag (taskStatus c) OS_TASK_STATUS_UNUSED then c
      else let c1 = c\<lparr>timeSlice := (if timeSlice c > 0
                                     then to_int32 (OsTimeConvertFreq (word_of_int (timeSlice c)) oldFreq newFreq)
                                     else 0)\<rparr>
           in if hasFlag (taskStatus c1) OS_TASK_STATUS_RUNNING
              then c1\<lparr>startTime := OsTimeConvertFreq (startTime c1) oldFreq newFreq\<rparr> else c1)"

definition TaskSchedTimeConvertFreq :: "u32 \<Rightarrow> ksched \<Rightarrow> ksched" where
  "TaskSchedTimeConvertFreq oldFreq s =
     foldl (\<lambda>st t. mod_task t (convert_task_freq oldFreq (g_sysClock st)) st) s [0..<unat (g_taskMaxNum s)]"

definition OsSortLinkResponseTimeConvertFreq :: "u32 \<Rightarrow> ksched \<Rightarrow> ksched" where
  "OsSortLinkResponseTimeConvertFreq oldFreq s =
     (let s1 = mod_tskSort (SortLinkNodeTimeUpdate oldFreq (g_sysClock s)) s
      in s1\<lparr>swtSort := SortLinkNodeTimeUpdate oldFreq (g_sysClock s1) (swtSort s1)\<rparr>)"

definition OsSchedTimeConvertFreq :: "u32 \<Rightarrow> ksched \<Rightarrow> ksched" where
  "OsSchedTimeConvertFreq oldFreq s =
     OsSchedUpdateExpireTime
       (OsSortLinkResponseTimeConvertFreq oldFreq
         (TaskSchedTimeConvertFreq oldFreq (SchedTimeBaseInit s)))"

section \<open>Dispatch\<close>

text \<open>\<open>OsCheckKernelRunning\<close> and \<open>LOS_Schedule\<close>; \<open>ArchTaskSchedule\<close> pends the switch exception.\<close>

definition OsCheckKernelRunning :: "ksched \<Rightarrow> bool" where
  "OsCheckKernelRunning s \<longleftrightarrow> g_taskScheduled s \<and> g_losTaskLock s = 0"

definition ArchTaskSchedule :: "ksched \<Rightarrow> ksched" where
  "ArchTaskSchedule s = s\<lparr>pendSV := True\<rparr>"

definition LOS_Schedule :: "ksched \<Rightarrow> ksched" where
  "LOS_Schedule s = (if OsCheckKernelRunning s then ArchTaskSchedule s else s)"

text \<open>
  \<open>OsSchedStart\<close>; \<open>swtmrReset\<close> is \<open>OsSwtmrResponseTimeReset\<close>, which the software-timer theory
  defines on its own part \<open>m\<close> of the state and the kernel state.  The result \<open>None\<close> stands for the
  bitmap naming an empty queue and for a reset that does not return.
\<close>

definition OsSchedStart :: "(u64 \<Rightarrow> 'm \<times> ksched \<Rightarrow> ('m \<times> ksched) option) \<Rightarrow> 'm \<times> ksched \<Rightarrow> ('m \<times> ksched) option" where
  "OsSchedStart swtmrReset = (\<lambda>(m, s).
     case OsGetTopTask s of
        None \<Rightarrow> None
      | Some t \<Rightarrow>
          (let s1 = set_status t OS_TASK_STATUS_RUNNING s;
               s2 = s1\<lparr>newTask := t, runTask := t\<rparr>;
               s3 = mod_task t (\<lambda>c. c\<lparr>startTime := OsGetCurrSchedTimeCycle s2\<rparr>) s2;
               s4 = OsSchedTaskDeQueue t s3;
               s5 = s4\<lparr>g_tickTimerStartTime := startTime (tcb s4 t)\<rparr>
           in case swtmrReset (startTime (tcb s5 t)) (m, s5) of
                None \<Rightarrow> None
              | Some (m6, s6) \<Rightarrow>
                  (let s7 = s6\<lparr>g_taskScheduled := True, g_schedResponseTime := OS_SCHED_MAX_RESPONSE_TIME,
                               g_schedResponseID := OS_INVALID\<rparr>
                   in Some (m6, OsSchedSetNextExpireTime (taskID (tcb s7 t))
                      (startTime (tcb s7 t) + word_of_int (timeSlice (tcb s7 t))) s7))))"

definition OS_TASK_BLOCKED_STATUS :: u16 where
  "OS_TASK_BLOCKED_STATUS =
     OS_TASK_STATUS_PEND OR OS_TASK_STATUS_SUSPEND OR OS_TASK_STATUS_EXIT OR OS_TASK_STATUS_UNUSED"

definition OsSchedTaskSwitch :: "ksched \<Rightarrow> (bool \<times> ksched) option" where
  "OsSchedTaskSwitch s =
     (let r = runTask s;
          s1 = OsTimeSliceUpdate r (OsGetCurrSchedTimeCycle s) s;
          s2 = (if hasFlag (status s1 r) (OS_TASK_STATUS_PEND_TIME OR OS_TASK_STATUS_DELAY)
                then mod_tskSort (OsAdd2SortLink (TICK_PER_SECOND (conf s1)) (g_sysClock s1) r
                                    (startTime (tcb s1 r)) (waitTimes (tcb s1 r))) s1
                else if \<not> hasFlag (status s1 r) OS_TASK_BLOCKED_STATUS then OsSchedTaskEnQueue r s1
                else s1)
      in case OsGetTopTask s2 of
           None \<Rightarrow> None
         | Some n \<Rightarrow>
             (let s3 = s2\<lparr>newTask := n\<rparr>;
                  isTaskSwitch = (r \<noteq> n);
                  s4 = (if isTaskSwitch
                        then mod_task n (\<lambda>c. c\<lparr>startTime := startTime (tcb s3 r)\<rparr>)
                               (set_status n OS_TASK_STATUS_RUNNING (clr_status r OS_TASK_STATUS_RUNNING s3))
                        else s3);
                  s5 = OsSchedTaskDeQueue n s4;
                  endTime = (if \<not> is_idle s5 n
                             then startTime (tcb s5 n) + word_of_int (timeSlice (tcb s5 n))
                             else OS_SCHED_MAX_RESPONSE_TIME - ucast (g_tickResponsePrecision s5));
                  s6 = (if g_schedResponseID s5 = taskID (tcb s5 r)
                        then s5\<lparr>g_schedResponseTime := OS_SCHED_MAX_RESPONSE_TIME\<rparr> else s5)
              in Some (isTaskSwitch, OsSchedSetNextExpireTime (taskID (tcb s6 n)) endTime s6)))"

text \<open>
  The switch exception (\<open>los_dispatch.S\<close>, \<open>HalPendSV\<close>): it calls \<open>OsSchedTaskSwitch\<close> and, when a
  switch is due, makes the new task the running one.
\<close>

definition HalPendSV :: "ksched \<Rightarrow> ksched option" where
  "HalPendSV s =
     (case OsSchedTaskSwitch (s\<lparr>pendSV := False\<rparr>) of
        None \<Rightarrow> None
      | Some (isTaskSwitch, s1) \<Rightarrow> Some (if isTaskSwitch then s1\<lparr>runTask := newTask s1\<rparr> else s1))"

definition OS_SYS_CYCLE_TO_NS :: "u64 \<Rightarrow> u32 \<Rightarrow> u64" where
  "OS_SYS_CYCLE_TO_NS cycle freq =
     (cycle div ucast freq) * 1000000000 + (cycle mod ucast freq) * 1000000000 div ucast freq"

definition LOS_SchedTickTimeoutNsGet :: "ksched \<Rightarrow> u64" where
  "LOS_SchedTickTimeoutNsGet s =
     (let responseTime = g_schedResponseTime s; currTime = OsGetCurrSchedTimeCycle s;
          remain = (if responseTime > currTime then responseTime - currTime else 0)
      in OS_SYS_CYCLE_TO_NS remain (g_sysClock s))"

text \<open>\<open>g_swtmrScan\<close> is \<open>None\<close> until a scan function has been registered.\<close>

definition OsSchedSwtmrScanRegister :: "'f option \<Rightarrow> 'f option \<Rightarrow> u32 \<times> 'f option" where
  "OsSchedSwtmrScanRegister func g_swtmrScan =
     (if func = None then (LOS_NOK, g_swtmrScan) else (LOS_OK, func))"

definition LOS_SchedTickHandler ::
  "('m \<times> ksched \<Rightarrow> ('m \<times> ksched) option) option \<Rightarrow> 'm \<times> ksched \<Rightarrow> ('m \<times> ksched) option" where
  "LOS_SchedTickHandler swtmrScan = (\<lambda>(m, s).
     if \<not> g_taskScheduled s then Some (m, s)
     else let tickStartTime = OsGetCurrSchedTimeCycle s;
              scanned = (if g_schedResponseID s = OS_INVALID
                         then let a = s\<lparr>g_tickIntLock := g_tickIntLock s + 1\<rparr>
                              in case (case swtmrScan of None \<Rightarrow> Some (m, a) | Some f \<Rightarrow> f (m, a)) of
                                   None \<Rightarrow> None
                                 | Some (m', b) \<Rightarrow>
                                     (let c = fst (OsSchedScanTimerList b)
                                      in Some (m', c\<lparr>g_tickIntLock := g_tickIntLock c - 1\<rparr>))
                         else Some (m, s))
          in case scanned of
               None \<Rightarrow> None
             | Some (m1, s1) \<Rightarrow>
                 (let s2 = OsTimeSliceUpdate (runTask s1) tickStartTime s1;
                      s3 = mod_task (runTask s2) (\<lambda>c. c\<lparr>startTime := OsGetCurrSchedTimeCycle s2\<rparr>) s2;
                      s4 = s3\<lparr>g_schedResponseTime := OS_SCHED_MAX_RESPONSE_TIME\<rparr>
                  in Some (m1, if g_losTaskLock s4 = 0 then ArchTaskSchedule s4 else OsSchedUpdateExpireTime s4)))"

end
