(* ===== verification/Tick.thy ===== *)
theory Tick
  imports Sched
begin

text \<open>
  The system time, \<open>src/kernel/src/los_tick.c\<close>, on top of the SysTick timer of the ARM Cortex-M4 port
  (\<open>src/arch/arm/cortex-m4/gcc/los_timer.c\<close>): the 64-bit cycle count that is kept from a down-counter
  of 24 bits (\<open>LOSCFG_BASE_CORE_TICK_WTIMER\<close> is 0), the registration of a timer, the change of the
  clock frequency and the conversions between cycles, ticks and milliseconds.

  The scheduler theories use the value \<open>LOS_SysCycleGet\<close> returns as \<open>sysCycle\<close>; here is how the code
  computes it, and what it is worth.
\<close>

section \<open>Timer hardware\<close>

text \<open>
  The registers of the counter that the port uses.  When it is enabled it counts down once per cycle;
  on reaching zero it pends its interrupt, and the next cycle loads it again.
\<close>

record systick =
  ST_LOAD :: u32
  ST_VAL :: u32
  ST_PENDST :: bool
  ST_ENABLE :: bool

definition systick_cycle :: "systick \<Rightarrow> systick" where
  "systick_cycle h =
     (if \<not> ST_ENABLE h then h
      else if ST_VAL h = 0 then h\<lparr>ST_VAL := ST_LOAD h\<rparr>
      else h\<lparr>ST_VAL := ST_VAL h - 1, ST_PENDST := (ST_PENDST h \<or> ST_VAL h = 1)\<rparr>)"

text \<open>The table of the timer; function pointers are addresses, zero for \<open>NULL\<close>.\<close>

record ArchTickTimer =
  freq :: u32
  irqNum :: int
  periodMax :: u64
  tickInit :: u32
  getCycle :: u32
  tickReload :: u32
  tickLock :: u32
  tickUnlock :: u32
  tickHandler :: u32

text \<open>
  \<open>g_sysTickTimer\<close> is \<open>NULL\<close> or points to \<open>g_archTickTimer\<close>, the only table \<open>ArchSysTickTimerGet\<close>
  returns.
\<close>

record ticks =
  hw :: systick
  g_archTickTimer :: ArchTickTimer
  g_sysTickTimer :: bool
  g_sysTimerIsInit :: bool
  g_cyclesPerTick :: u32
  g_tickTimerBase :: u64
  g_oldTickTimerBase :: u64
  g_tickTimerBaseUpdate :: bool
  baseAssertFailed :: bool

type_synonym tickst = "ticks \<times> ksched"

abbreviation mod_hw :: "(systick \<Rightarrow> systick) \<Rightarrow> ticks \<Rightarrow> ticks" where
  "mod_hw f k \<equiv> k\<lparr>hw := f (hw k)\<rparr>"

abbreviation (input) "LOS_ERRNO_TICK_CFG_INVALID \<equiv> LOS_ERRNO_OS_ERROR LOS_MOD_TICK 0x00"
abbreviation (input) "LOS_ERRNO_TICK_PER_SEC_TOO_SMALL \<equiv> LOS_ERRNO_OS_ERROR LOS_MOD_TICK 0x02"
abbreviation (input) "LOS_ERRNO_SYS_PTR_NULL \<equiv> LOS_ERRNO_OS_ERROR LOS_MOD_SYS 0x10"
abbreviation (input) "LOS_ERRNO_SYS_CLOCK_INVALID \<equiv> LOS_ERRNO_OS_ERROR LOS_MOD_SYS 0x11"
abbreviation (input) "LOS_ERRNO_SYS_TIMER_IS_RUNNING \<equiv> LOS_ERRNO_OS_ERROR LOS_MOD_SYS 0x15"
abbreviation (input) "LOS_ERRNO_SYS_HOOK_IS_NULL \<equiv> LOS_ERRNO_OS_ERROR LOS_MOD_SYS 0x16"
abbreviation (input) "LOS_ERRNO_SYS_TIMER_ADDR_FAULT \<equiv> LOS_ERRNO_OS_ERROR LOS_MOD_SYS 0x16"

section \<open>The port\<close>

text \<open>
  \<open>SysTickStart\<close>: \<open>clock\<close> is \<open>OS_SYS_CLOCK\<close> and \<open>config\<close> the result of the CMSIS function
  \<open>SysTick_Config\<close>.
\<close>

definition SysTickStart :: "u32 \<Rightarrow> u32 \<Rightarrow> ticks \<Rightarrow> u32 \<times> ticks" where
  "SysTickStart clock config k =
     (let k1 = k\<lparr>g_archTickTimer := (g_archTickTimer k)\<lparr>freq := clock\<rparr>\<rparr>
      in if config = 1 then (LOS_ERRNO_TICK_PER_SEC_TOO_SMALL, k1) else (LOS_OK, k1))"

definition reload_timer :: "u64 \<Rightarrow> ticks \<Rightarrow> u64 \<times> ticks" where
  "reload_timer nextResponseTime k =
     (let next = (if nextResponseTime > periodMax (g_archTickTimer k) then periodMax (g_archTickTimer k)
                  else nextResponseTime);
          h1 = (hw k)\<lparr>ST_ENABLE := False\<rparr>;
          h2 = h1\<lparr>ST_LOAD := ucast (next - 1)\<rparr>;
          h3 = h2\<lparr>ST_VAL := 0\<rparr>;
          h4 = h3\<lparr>ST_PENDST := False\<rparr>
      in (next, k\<lparr>hw := h4\<lparr>ST_ENABLE := True\<rparr>\<rparr>))"

text \<open>The results are the cycles of the period so far and \<open>*period\<close>.\<close>

definition SysTickCycleGet :: "ticks \<Rightarrow> u64 \<times> u32" where
  "SysTickCycleGet k =
     (let val = ST_VAL (hw k); period = ST_LOAD (hw k);
          hwCycle = (if val \<noteq> 0 then period - val else 0)
      in (ucast hwCycle, period))"

definition SysTickLock :: "ticks \<Rightarrow> ticks" where
  "SysTickLock k = mod_hw (\<lambda>h. h\<lparr>ST_ENABLE := False\<rparr>) k"

definition SysTickUnlock :: "ticks \<Rightarrow> ticks" where
  "SysTickUnlock k = mod_hw (\<lambda>h. h\<lparr>ST_ENABLE := True\<rparr>) k"

section \<open>The cycle count\<close>

definition OsUpdateSysTimeBase :: "ticks \<Rightarrow> ticks" where
  "OsUpdateSysTimeBase k =
     (let k1 = (if \<not> g_tickTimerBaseUpdate k
                then k\<lparr>g_tickTimerBase := g_tickTimerBase k + ucast (snd (SysTickCycleGet k))\<rparr> else k)
      in k1\<lparr>g_tickTimerBaseUpdate := False\<rparr>)"

definition OsTickTimerBaseReset :: "u64 \<Rightarrow> ticks \<Rightarrow> ticks" where
  "OsTickTimerBaseReset currTime k =
     (let k1 = (if currTime \<ge> g_tickTimerBase k then k else k\<lparr>baseAssertFailed := True\<rparr>)
      in k1\<lparr>g_tickTimerBase := currTime\<rparr>)"

definition LOS_SysCycleGet :: "ticks \<Rightarrow> u64 \<times> ticks" where
  "LOS_SysCycleGet k =
     (let (time, period) = SysTickCycleGet k;
          schedTime0 = g_tickTimerBase k + time;
          k1 = (if schedTime0 < g_oldTickTimerBase k
                then k\<lparr>g_tickTimerBase := g_tickTimerBase k + ucast period, g_tickTimerBaseUpdate := True\<rparr>
                else k);
          schedTime = (if schedTime0 < g_oldTickTimerBase k then g_tickTimerBase k1 + time else schedTime0);
          k2 = (if schedTime \<ge> g_oldTickTimerBase k1 then k1 else k1\<lparr>baseAssertFailed := True\<rparr>)
      in (schedTime, k2\<lparr>g_oldTickTimerBase := schedTime\<rparr>))"

definition reload_tick :: "u64 \<Rightarrow> ticks \<Rightarrow> u64 \<times> ticks" where
  "reload_tick period k =
     (let (now, k1) = LOS_SysCycleGet k in reload_timer period (k1\<lparr>g_tickTimerBase := now\<rparr>))"

text \<open>
  \<open>OsTickHandler\<close>: the interrupt of the timer.  \<open>LOS_SchedTickHandler\<close> sees the cycle count that
  \<open>LOS_SysCycleGet\<close> then returns.
\<close>

definition OsTickHandler ::
  "('m \<times> ksched \<Rightarrow> ('m \<times> ksched) option) option \<Rightarrow> ticks \<times> 'm \<times> ksched \<Rightarrow> (ticks \<times> 'm \<times> ksched) option" where
  "OsTickHandler swtmrScan = (\<lambda>(k, m, s).
     let k1 = OsUpdateSysTimeBase k;
         (now, k2) = LOS_SysCycleGet k1
     in map_option (Pair k2) (LOS_SchedTickHandler swtmrScan (m, s\<lparr>sysCycle := now\<rparr>)))"

section \<open>Registration and frequency\<close>

definition TickTimerCheck :: "int \<Rightarrow> ArchTickTimer option \<Rightarrow> tickst \<Rightarrow> u32" where
  "TickTimerCheck hwiLimit tick = (\<lambda>(k, s).
     case tick of
       None \<Rightarrow> LOS_ERRNO_SYS_PTR_NULL
     | Some t \<Rightarrow>
         if freq t = 0 \<or> TICK_PER_SECOND (conf s) = 0 \<or> TICK_PER_SECOND (conf s) > freq t
         then LOS_ERRNO_SYS_CLOCK_INVALID
         else if irqNum t > hwiLimit then LOS_ERRNO_TICK_CFG_INVALID
         else if periodMax t = 0 then LOS_ERRNO_TICK_CFG_INVALID
         else if tickInit t = 0 \<or> tickReload t = 0 \<or> tickLock t = 0 \<or> tickUnlock t = 0 \<or> getCycle t = 0
              then LOS_ERRNO_SYS_HOOK_IS_NULL
         else if g_sysTimerIsInit k then LOS_ERRNO_SYS_TIMER_IS_RUNNING
         else LOS_OK)"

definition OsTickTimerInit :: "int \<Rightarrow> u32 \<Rightarrow> u32 \<Rightarrow> tickst \<Rightarrow> u32 \<times> tickst" where
  "OsTickTimerInit hwiLimit clock config = (\<lambda>(k, s).
     let k1 = k\<lparr>g_sysTickTimer := True\<rparr>; t = g_archTickTimer k1
     in if tickInit t = 0 \<or> tickReload t = 0 \<or> tickLock t = 0 \<or> tickUnlock t = 0 \<or> getCycle t = 0
        then (LOS_ERRNO_SYS_HOOK_IS_NULL, (k1, s))
        else let (ret, k2) = SysTickStart clock config k1; t2 = g_archTickTimer k2
             in if ret \<noteq> LOS_OK then (ret, (k2, s))
                else if freq t2 = 0 \<or> freq t2 < TICK_PER_SECOND (conf s) then (LOS_ERRNO_SYS_CLOCK_INVALID, (k2, s))
                else if irqNum t2 > hwiLimit then (LOS_ERRNO_TICK_CFG_INVALID, (k2, s))
                else (LOS_OK, (k2\<lparr>g_cyclesPerTick := freq t2 div TICK_PER_SECOND (conf s), g_sysTimerIsInit := True\<rparr>,
                               s\<lparr>g_sysClock := freq t2\<rparr>)))"

text \<open>
  The argument \<open>timer\<close> is a table with a flag that says whether it is \<open>g_archTickTimer\<close> itself; a copy
  from another table succeeds (\<open>copyOk\<close>) unless the two overlap.
\<close>

definition LOS_TickTimerRegister ::
  "int \<Rightarrow> (bool \<times> ArchTickTimer) option \<Rightarrow> bool \<Rightarrow> u32 \<Rightarrow> tickst \<Rightarrow> u32 \<times> tickst" where
  "LOS_TickTimerRegister hwiLimit timer copyOk handler = (\<lambda>(k, s).
     if timer = None \<and> handler = 0 then (LOS_ERRNO_SYS_PTR_NULL, (k, s))
     else case timer of
            Some (same, t) \<Rightarrow>
              (let ret = TickTimerCheck hwiLimit (Some t) (k, s)
               in if ret \<noteq> LOS_OK then (ret, (k, s))
                  else let k1 = k\<lparr>g_sysTickTimer := True\<rparr>
                       in if same then (LOS_ERRNO_SYS_TIMER_ADDR_FAULT, (k1, s))
                          else if copyOk then (ret, (k1\<lparr>g_archTickTimer := t\<rparr>, s))
                          else (LOS_ERRNO_SYS_TIMER_ADDR_FAULT, (k1, s)))
          | None \<Rightarrow>
              if g_sysTimerIsInit k then (LOS_ERRNO_SYS_TIMER_IS_RUNNING, (k, s))
              else (LOS_OK, (k\<lparr>g_sysTickTimer := True, g_archTickTimer := (g_archTickTimer k)\<lparr>tickHandler := handler\<rparr>\<rparr>, s)))"

text \<open>
  \<open>newFreq\<close> is what the handler returns, \<open>None\<close> when no handler is given; \<open>responseMax\<close> is
  \<open>LOSCFG_BASE_CORE_TICK_RESPONSE_MAX\<close>.
\<close>

definition LOS_SysTickClockFreqAdjust :: "u64 \<Rightarrow> u32 option \<Rightarrow> tickst \<Rightarrow> u32 \<times> tickst" where
  "LOS_SysTickClockFreqAdjust responseMax newFreq = (\<lambda>(k, s).
     case newFreq of
       None \<Rightarrow> (LOS_ERRNO_SYS_HOOK_IS_NULL, (k, s))
     | Some f \<Rightarrow>
         (let oldFreq = g_sysClock s;
              (currTimeCycle, k1) = LOS_SysCycleGet (SysTickLock k)
          in if f = 0 \<or> f = g_sysClock s then (LOS_ERRNO_SYS_CLOCK_INVALID, (SysTickUnlock k1, s))
             else let k2 = SysTickUnlock (snd (reload_timer responseMax k1));
                      k3 = k2\<lparr>g_tickTimerBase := OsTimeConvertFreq currTimeCycle oldFreq f,
                              g_oldTickTimerBase := OsTimeConvertFreq (g_oldTickTimerBase k2) oldFreq f,
                              g_archTickTimer := (g_archTickTimer k2)\<lparr>freq := f\<rparr>,
                              g_cyclesPerTick := f div TICK_PER_SECOND (conf s)\<rparr>;
                      s1 = s\<lparr>g_tickTimerStartTime := OsTimeConvertFreq (g_tickTimerStartTime s) oldFreq f,
                             g_sysClock := f\<rparr>;
                      (now, k4) = LOS_SysCycleGet k3
                  in (LOS_OK, (k4, OsSchedTimeConvertFreq oldFreq (s1\<lparr>sysCycle := now\<rparr>)))))"

definition OsTickSysTimerStartTimeSet :: "u64 \<Rightarrow> ksched \<Rightarrow> ksched" where
  "OsTickSysTimerStartTimeSet currTime s = s\<lparr>g_tickTimerStartTime := currTime\<rparr>"

section \<open>Conversions and delays\<close>

definition OS_SYS_CYCLE_TO_TICK :: "u32 \<Rightarrow> u32 \<Rightarrow> u64 \<Rightarrow> u64" where
  "OS_SYS_CYCLE_TO_TICK tickPerSecond sysClock cycle = (cycle * ucast tickPerSecond) div ucast sysClock"

definition LOS_TickCountGet :: "tickst \<Rightarrow> u64 \<times> tickst" where
  "LOS_TickCountGet = (\<lambda>(k, s).
     let (now, k1) = LOS_SysCycleGet k
     in (OS_SYS_CYCLE_TO_TICK (TICK_PER_SECOND (conf s)) (g_sysClock s) (now - g_tickTimerStartTime s), (k1, s)))"

definition LOS_CyclePerTickGet :: "ticks \<Rightarrow> u32" where
  "LOS_CyclePerTickGet k = g_cyclesPerTick k"

definition LOS_MS2Tick :: "u32 \<Rightarrow> u32 \<Rightarrow> u32" where
  "LOS_MS2Tick tickPerSecond millisec =
     (if millisec = OS_NULL_INT then OS_NULL_INT
      else ucast ((ucast millisec * ucast tickPerSecond :: u64) div 1000))"

definition LOS_Tick2MS :: "u32 \<Rightarrow> u32 \<Rightarrow> u32" where
  "LOS_Tick2MS tickPerSecond ticks = ucast ((ucast ticks * 1000 :: u64) div ucast tickPerSecond)"

text \<open>\<open>None\<close> is the division by zero of a clock below one megahertz.\<close>

definition LOS_CurrNanosec :: "tickst \<Rightarrow> u64 option \<times> tickst" where
  "LOS_CurrNanosec = (\<lambda>(k, s).
     let (now, k1) = LOS_SysCycleGet k
     in (if g_sysClock s div 1000000 = 0 then None
         else Some (now * (1000000000 div 1000000) div ucast (g_sysClock s div 1000000)), (k1, s)))"

text \<open>
  \<open>LOS_UDelay\<close> reads the clock until it shows the end time.  The readings are an argument; the result
  is the readings that are left, \<open>None\<close> when the loop has not ended by the last of them.
\<close>

definition udelay_cycles :: "u32 \<Rightarrow> u64 \<Rightarrow> u64" where
  "udelay_cycles sysClock microseconds =
     (microseconds div 1000000) * ucast sysClock + (microseconds mod 1000000) * ucast sysClock div 1000000"

fun udelay_loop :: "u64 \<Rightarrow> u64 list \<Rightarrow> u64 list option" where
  "udelay_loop endTime [] = None"
| "udelay_loop endTime (now # rest) = (if now < endTime then udelay_loop endTime rest else Some rest)"

definition LOS_UDelay :: "u32 \<Rightarrow> u64 \<Rightarrow> u64 list \<Rightarrow> u64 list option" where
  "LOS_UDelay sysClock microseconds readings =
     (if microseconds = 0 then Some readings
      else case readings of
             [] \<Rightarrow> None
           | now # rest \<Rightarrow> udelay_loop (now + udelay_cycles sysClock microseconds) rest)"

lemma mdelay_max: "(0xFFFFFFFF div 1000 :: u32) = 4294967"
  by (simp add: One_nat_def)

lemma mdelay_less: "(4294967 :: u32) < m \<Longrightarrow> unat (m - 4294967) < unat m"
proof -
  assume a: "(4294967 :: u32) < m"
  then have "unat (m - 4294967) = unat m - unat (4294967 :: u32)" by (intro unat_sub) (rule order_less_imp_le)
  moreover have "unat (4294967 :: u32) < unat m" using a by (rule word_less_nat_alt [THEN iffD1])
  moreover have "0 < unat (4294967 :: u32)" by simp
  ultimately show ?thesis by linarith
qed

text \<open>\<open>LOS_MDelay\<close>: the arguments of its calls of \<open>LOS_UDelay\<close>, in order.\<close>

function LOS_MDelay :: "u32 \<Rightarrow> u64 list" where
  "LOS_MDelay millisec =
     (if millisec > 0xFFFFFFFF div 1000
      then ucast ((0xFFFFFFFF div 1000) * 1000 :: u32) # LOS_MDelay (millisec - 0xFFFFFFFF div 1000)
      else [ucast (millisec * 1000)])"
  by pat_completeness auto

termination
proof (relation "measure unat", goal_cases)
  case (2 millisec)
  then have "(4294967 :: u32) < millisec" by (simp only: mdelay_max)
  from mdelay_less [OF this] show ?case by (simp only: mdelay_max in_measure)
qed simp

declare LOS_MDelay.simps [simp del]

section \<open>The cycle count never runs backwards\<close>

text \<open>
  What the code keeps: the last value returned lies at most one period after the base, so that a
  reading that seems to lie before it shows that the counter has been loaded again.
\<close>

definition tick_ok :: "ticks \<Rightarrow> bool" where
  "tick_ok k \<longleftrightarrow> \<not> baseAssertFailed k \<and> ST_VAL (hw k) \<le> ST_LOAD (hw k) \<and>
     unat (g_oldTickTimerBase k) \<le> unat (g_tickTimerBase k) + unat (ST_LOAD (hw k))"

abbreviation room :: "ticks \<Rightarrow> bool" where
  "room k \<equiv> unat (g_tickTimerBase k) < 2 ^ 63"

lemma SysTickCycleGet_le:
  assumes "tick_ok k"
  shows "unat (fst (SysTickCycleGet k)) \<le> unat (ST_LOAD (hw k))" and "snd (SysTickCycleGet k) = ST_LOAD (hw k)"
proof -
  have "unat (ST_LOAD (hw k) - ST_VAL (hw k)) \<le> unat (ST_LOAD (hw k))"
    using assms by (simp add: tick_ok_def unat_sub)
  then show "unat (fst (SysTickCycleGet k)) \<le> unat (ST_LOAD (hw k))"
    by (simp add: SysTickCycleGet_def Let_def unat_ucast_up)
  show "snd (SysTickCycleGet k) = ST_LOAD (hw k)" by (simp add: SysTickCycleGet_def Let_def)
qed

lemma unat_plus64: "unat (a :: u64) + unat b < 2 ^ 64 \<Longrightarrow> unat (a + b) = unat a + unat b"
  by (rule unat_add_lem [THEN iffD1]) simp

lemma LOS_SysCycleGet_spec:
  assumes ok: "tick_ok k" and room: "room k"
  shows "tick_ok (snd (LOS_SysCycleGet k))" and "g_oldTickTimerBase k \<le> fst (LOS_SysCycleGet k)"
    and "g_oldTickTimerBase (snd (LOS_SysCycleGet k)) = fst (LOS_SysCycleGet k)"
    and "hw (snd (LOS_SysCycleGet k)) = hw k" and "g_archTickTimer (snd (LOS_SysCycleGet k)) = g_archTickTimer k"
proof -
  obtain time period where tp: "SysTickCycleGet k = (time, period)" by (cases "SysTickCycleGet k")
  have t: "unat time \<le> unat (ST_LOAD (hw k))" "period = ST_LOAD (hw k)" using SysTickCycleGet_le [OF ok] tp by simp_all
  have l: "unat (ST_LOAD (hw k)) < 2 ^ 32" by (rule order_less_le_trans [OF unsigned_less]) simp
  let ?b = "g_tickTimerBase k"
  have b1: "unat (?b + ucast period) = unat ?b + unat (ST_LOAD (hw k))"
    using room l t(2) by (subst unat_plus64) (simp_all add: unat_ucast_up)
  have b2: "unat (?b + time) = unat ?b + unat time" using room l t(1) by (subst unat_plus64) simp_all
  have b3: "unat (?b + ucast period + time) = unat ?b + unat (ST_LOAD (hw k)) + unat time"
    using room l t(1) b1 by (subst unat_plus64) simp_all
  have old: "unat (g_oldTickTimerBase k) \<le> unat ?b + unat (ST_LOAD (hw k))" using ok by (simp add: tick_ok_def)
  have "g_oldTickTimerBase k \<le> ?b + ucast period + time" using b3 old by (simp add: word_le_nat_alt)
  then show "tick_ok (snd (LOS_SysCycleGet k))" "g_oldTickTimerBase k \<le> fst (LOS_SysCycleGet k)"
    "g_oldTickTimerBase (snd (LOS_SysCycleGet k)) = fst (LOS_SysCycleGet k)"
    "hw (snd (LOS_SysCycleGet k)) = hw k" "g_archTickTimer (snd (LOS_SysCycleGet k)) = g_archTickTimer k"
    using ok b1 b2 b3 t by (auto simp: LOS_SysCycleGet_def Let_def tp tick_ok_def not_less)
qed

lemma reload_timer_ok: "tick_ok k \<Longrightarrow> g_oldTickTimerBase k \<le> g_tickTimerBase k \<Longrightarrow> tick_ok (snd (reload_timer p k))"
  by (simp add: reload_timer_def Let_def tick_ok_def word_le_nat_alt)

lemma reload_timer_frame [simp]:
  "g_oldTickTimerBase (snd (reload_timer p k)) = g_oldTickTimerBase k"
  "g_tickTimerBase (snd (reload_timer p k)) = g_tickTimerBase k"
  "g_tickTimerBaseUpdate (snd (reload_timer p k)) = g_tickTimerBaseUpdate k"
  "g_archTickTimer (snd (reload_timer p k)) = g_archTickTimer k"
  by (simp_all add: reload_timer_def Let_def)

lemma reload_tick_spec:
  assumes "tick_ok k" and "room k"
  shows "tick_ok (snd (reload_tick p k))" and "g_oldTickTimerBase k \<le> g_oldTickTimerBase (snd (reload_tick p k))"
proof -
  obtain now k1 where g: "LOS_SysCycleGet k = (now, k1)" by (cases "LOS_SysCycleGet k")
  note s = LOS_SysCycleGet_spec [OF assms, unfolded g, simplified]
  have "tick_ok (k1\<lparr>g_tickTimerBase := now\<rparr>)" using s(1,3) by (simp add: tick_ok_def)
  then show "tick_ok (snd (reload_tick p k))" using s(3) by (simp add: reload_tick_def g reload_timer_ok)
  show "g_oldTickTimerBase k \<le> g_oldTickTimerBase (snd (reload_tick p k))" using s(2,3) by (simp add: reload_tick_def g)
qed

lemma OsUpdateSysTimeBase_spec:
  assumes "tick_ok k" and "room k"
  shows "tick_ok (OsUpdateSysTimeBase k)" and "g_oldTickTimerBase (OsUpdateSysTimeBase k) = g_oldTickTimerBase k"
proof -
  have l: "unat (ST_LOAD (hw k)) < 2 ^ 32" by (rule order_less_le_trans [OF unsigned_less]) simp
  have "unat (g_tickTimerBase k + ucast (ST_LOAD (hw k))) = unat (g_tickTimerBase k) + unat (ST_LOAD (hw k))"
    using assms(2) l by (subst unat_plus64) (simp_all add: unat_ucast_up)
  then show "tick_ok (OsUpdateSysTimeBase k)"
    using assms(1) by (auto simp: OsUpdateSysTimeBase_def Let_def SysTickCycleGet_def tick_ok_def)
  show "g_oldTickTimerBase (OsUpdateSysTimeBase k) = g_oldTickTimerBase k"
    by (simp add: OsUpdateSysTimeBase_def Let_def)
qed

lemma systick_cycle_le: "ST_VAL h \<le> ST_LOAD h \<Longrightarrow> ST_VAL (systick_cycle h) \<le> ST_LOAD (systick_cycle h)"
proof -
  assume a: "ST_VAL h \<le> ST_LOAD h"
  have "ST_VAL h - 1 \<le> ST_LOAD h" if "ST_VAL h \<noteq> 0"
    using a that unat_dec [of "ST_VAL h"] by (simp add: word_le_nat_alt word_gt_0)
  with a show ?thesis by (simp add: systick_cycle_def)
qed

text \<open>
  The histories: the counter counts, code reads the clock or programs the timer, the interrupt is
  taken while it is pending, in any order and with any delay.
\<close>

inductive tick_step :: "ticks \<Rightarrow> ticks \<Rightarrow> bool" where
  tick_cycle: "tick_step k (mod_hw systick_cycle k)"
| tick_get: "room k \<Longrightarrow> tick_step k (snd (LOS_SysCycleGet k))"
| tick_reload: "room k \<Longrightarrow> tick_step k (snd (reload_tick p k))"
| tick_irq: "room k \<Longrightarrow> ST_PENDST (hw k) \<Longrightarrow>
    tick_step k (OsUpdateSysTimeBase (mod_hw (\<lambda>h. h\<lparr>ST_PENDST := False\<rparr>) k))"
| tick_lock: "tick_step k (SysTickLock k)"
| tick_unlock: "tick_step k (SysTickUnlock k)"

lemma tick_step_ok: "tick_step k k' \<Longrightarrow> tick_ok k \<Longrightarrow> tick_ok k' \<and> g_oldTickTimerBase k \<le> g_oldTickTimerBase k'"
proof (induction rule: tick_step.induct)
  case (tick_cycle k)
  moreover have "ST_LOAD (systick_cycle (hw k)) = ST_LOAD (hw k)" by (simp add: systick_cycle_def)
  ultimately show ?case using systick_cycle_le [of "hw k"] by (simp add: tick_ok_def)
next
  case (tick_get k)
  then show ?case using LOS_SysCycleGet_spec [of k] by simp
next
  case (tick_reload k p)
  then show ?case using reload_tick_spec [of k p] by simp
next
  case (tick_irq k)
  let ?k = "mod_hw (\<lambda>h. h\<lparr>ST_PENDST := False\<rparr>) k"
  have "tick_ok ?k" using tick_irq by (simp add: tick_ok_def)
  then show ?case using OsUpdateSysTimeBase_spec [of ?k] tick_irq by simp
qed (simp_all add: SysTickLock_def SysTickUnlock_def tick_ok_def)

lemma tick_steps_ok: "tick_step\<^sup>*\<^sup>* k k' \<Longrightarrow> tick_ok k \<Longrightarrow> tick_ok k' \<and> g_oldTickTimerBase k \<le> g_oldTickTimerBase k'"
  by (induction rule: rtranclp_induct) (auto dest: tick_step_ok order_trans)

text \<open>C29: the cycle count is monotone.  Whatever the counter, the readers and the interrupt do, and
  however late the interrupt is taken, a value returned by \<open>LOS_SysCycleGet\<close> is never smaller than a
  value it returned before, and its assertion never fails.\<close>

theorem LOS_SysCycleGet_monotone:
  assumes "tick_ok k" and "tick_step\<^sup>*\<^sup>* (snd (LOS_SysCycleGet k)) k'" and "room k" and "room k'"
  shows "fst (LOS_SysCycleGet k) \<le> fst (LOS_SysCycleGet k') \<and> \<not> baseAssertFailed (snd (LOS_SysCycleGet k'))"
proof -
  note s = LOS_SysCycleGet_spec [OF assms(1,3)]
  have "tick_ok k'" and le: "fst (LOS_SysCycleGet k) \<le> g_oldTickTimerBase k'"
    using tick_steps_ok [OF assms(2) s(1)] s(3) by simp_all
  then have "tick_ok (snd (LOS_SysCycleGet k'))" "g_oldTickTimerBase k' \<le> fst (LOS_SysCycleGet k')"
    using LOS_SysCycleGet_spec [of k'] assms(4) by blast+
  with le show ?thesis by (auto simp: tick_ok_def)
qed

definition demo_ticks :: ticks where
  "demo_ticks = \<lparr>hw = \<lparr>ST_LOAD = 99, ST_VAL = 1, ST_PENDST = False, ST_ENABLE = True\<rparr>,
     g_archTickTimer = \<lparr>freq = 1000000, irqNum = 15, periodMax = 0xFFFFFF, tickInit = 4, getCycle = 8, tickReload = 12,
       tickLock = 16, tickUnlock = 20, tickHandler = 0\<rparr>,
     g_sysTickTimer = True, g_sysTimerIsInit = True, g_cyclesPerTick = 10000, g_tickTimerBase = 5000,
     g_oldTickTimerBase = 5010, g_tickTimerBaseUpdate = False, baseAssertFailed = False\<rparr>"

lemma demo_ticks_ok: "tick_ok demo_ticks"
  by (simp add: tick_ok_def demo_ticks_def)

theorem LOS_SysCycleGet_monotone_witness:
  "fst (LOS_SysCycleGet demo_ticks) \<le> fst (LOS_SysCycleGet (mod_hw systick_cycle (snd (LOS_SysCycleGet demo_ticks))))"
proof -
  have st: "tick_step\<^sup>*\<^sup>* (snd (LOS_SysCycleGet demo_ticks)) (mod_hw systick_cycle (snd (LOS_SysCycleGet demo_ticks)))"
    by (rule r_into_rtranclp [of tick_step]) (rule tick_step.intros)
  show ?thesis
    using LOS_SysCycleGet_monotone [OF demo_ticks_ok st]
    by (simp add: demo_ticks_def LOS_SysCycleGet_def SysTickCycleGet_def Let_def)
qed

section \<open>What a period is worth\<close>

lemma systick_after:
  assumes "ST_ENABLE h" and "ST_VAL h = 0" and "\<not> ST_PENDST h" and "j \<le> unat (ST_LOAD h)" and "0 < ST_LOAD h"
  shows "(systick_cycle ^^ Suc j) h = h\<lparr>ST_VAL := ST_LOAD h - of_nat j, ST_PENDST := (j = unat (ST_LOAD h))\<rparr>"
  using assms(4)
proof (induction j)
  case 0
  then show ?case using assms by (cases h) (simp add: systick_cycle_def unat_eq_0)
next
  case (Suc j)
  let ?v = "ST_LOAD h - of_nat j"
  have j: "unat (of_nat j :: u32) = j" using Suc.prems order_le_less_trans [OF _ unsigned_less [of "ST_LOAD h"], of j]
    by (simp add: unsigned_of_nat take_bit_nat_eq_self)
  then have v: "unat ?v = unat (ST_LOAD h) - j" using Suc.prems by (subst unat_sub) (simp_all add: word_le_nat_alt)
  then have "?v \<noteq> 0" and one: "?v = 1 \<longleftrightarrow> Suc j = unat (ST_LOAD h)" using Suc.prems by (auto simp: word_unat_eq_iff)
  then have c: "systick_cycle (h\<lparr>ST_VAL := ?v, ST_PENDST := False\<rparr>) =
      h\<lparr>ST_VAL := ?v - 1, ST_PENDST := (Suc j = unat (ST_LOAD h))\<rparr>"
    using assms(1) by (simp add: systick_cycle_def)
  have e: "?v - 1 = ST_LOAD h - of_nat (Suc j)" by simp
  have "(systick_cycle ^^ Suc j) h = h\<lparr>ST_VAL := ?v, ST_PENDST := False\<rparr>" using Suc by simp
  then have "(systick_cycle ^^ Suc (Suc j)) h = systick_cycle (h\<lparr>ST_VAL := ?v, ST_PENDST := False\<rparr>)"
    by (simp only: funpow.simps o_apply)
  then show ?case unfolding c e .
qed

text \<open>C30: what one period of the timer is worth.  The timer is programmed for \<open>p\<close> cycles and nothing
  reads the clock until its interrupt comes, \<open>p\<close> cycles later.  The clock then shows \<open>p - 1\<close> cycles
  more: \<open>SysTickCycleGet\<close> reports the reload value, not the length of the period.  But if
  \<open>g_tickTimerBaseUpdate\<close> was set when the timer was programmed, the handler takes the period for one
  that has been accounted for already, and the clock shows no time at all for it.\<close>

theorem tick_period_lost:
  assumes "tick_ok k" and "room k" and "2 \<le> p" and "p \<le> periodMax (g_archTickTimer k)" and "p \<le> 2 ^ 24"
    and "room k1" and k1: "k1 = snd (reload_tick p k)" and k2: "k2 = mod_hw (systick_cycle ^^ unat p) k1"
    and k3: "k3 = OsUpdateSysTimeBase (mod_hw (\<lambda>h. h\<lparr>ST_PENDST := False\<rparr>) k2)"
  shows "ST_PENDST (hw k2) \<and>
     fst (LOS_SysCycleGet k3) = g_oldTickTimerBase k1 + (if g_tickTimerBaseUpdate k1 then 0 else p - 1)"
proof -
  obtain now k0 where g: "LOS_SysCycleGet k = (now, k0)" by (cases "LOS_SysCycleGet k")
  note s = LOS_SysCycleGet_spec [OF assms(1,2), unfolded g, simplified]
  have up: "unat p \<le> 2 ^ 24" using assms(5) by (simp add: word_le_nat_alt)
  have p: "unat (p - 1) = unat p - 1" "2 \<le> unat p"
    using assms(3) unat_dec [of p] by (cases "p = 0"; simp add: word_le_nat_alt word_gt_0)+
  let ?L = "ucast (p - 1) :: u32"
  have L: "unat ?L = unat p - 1"
    using p up by (simp add: unsigned_ucast_eq take_bit_nat_eq_self)
  have hw1: "hw k1 = \<lparr>ST_LOAD = ?L, ST_VAL = 0, ST_PENDST = False, ST_ENABLE = True\<rparr>"
    and b1: "g_tickTimerBase k1 = now" "g_oldTickTimerBase k1 = now" 
    using assms(4) s(3-5) unfolding k1 reload_tick_def g by (auto simp: reload_timer_def Let_def not_less)
  have L0: "0 < ?L" using L p(2) by (simp add: word_less_nat_alt)
  have zero: "?L - of_nat (unat p - 1) = 0" unfolding L [symmetric] by simp
  have "(systick_cycle ^^ Suc (unat p - 1)) (hw k1) =
      (hw k1)\<lparr>ST_VAL := ST_LOAD (hw k1) - of_nat (unat p - 1), ST_PENDST := (unat p - 1 = unat (ST_LOAD (hw k1)))\<rparr>"
    by (rule systick_after) (simp_all add: hw1 L L0)
  moreover have "Suc (unat p - 1) = unat p" using p(2) by linarith
  ultimately have "hw k2 = (hw k1)\<lparr>ST_VAL := ST_LOAD (hw k1) - of_nat (unat p - 1), ST_PENDST := (unat p - 1 = unat (ST_LOAD (hw k1)))\<rparr>"
    unfolding k2 by simp
  then have hw2: "hw k2 = \<lparr>ST_LOAD = ?L, ST_VAL = 0, ST_PENDST = True, ST_ENABLE = True\<rparr>"
    unfolding hw1 by (simp only: systick.simps zero L simp_thms)
  have other: "g_tickTimerBase k2 = now" "g_oldTickTimerBase k2 = now" "g_tickTimerBaseUpdate k2 = g_tickTimerBaseUpdate k1"
    by (simp_all add: k2 b1)
  have "unat (now + (p - 1)) = unat now + unat (p - 1)"
    using \<open>room k1\<close> b1(1) p up by (intro unat_plus64) simp
  then have now: "\<not> now + (p - 1) < now" by (simp add: word_less_nat_alt)
  have "(ucast ?L :: u64) = p - 1" using L p by (simp add: word_unat_eq_iff unat_ucast_up)
  then have k3': "g_tickTimerBase k3 = now + (if g_tickTimerBaseUpdate k1 then 0 else p - 1)"
    "g_oldTickTimerBase k3 = now" "ST_VAL (hw k3) = 0"
    using hw2 other by (simp_all add: k3 OsUpdateSysTimeBase_def SysTickCycleGet_def Let_def)
  have "fst (LOS_SysCycleGet k3) = g_tickTimerBase k3"
    using k3' now by (simp add: LOS_SysCycleGet_def SysTickCycleGet_def Let_def)
  then show ?thesis using hw2 b1 k3'(1) by simp
qed

theorem tick_period_lost_witness:
  "let k = snd (LOS_SysCycleGet (mod_hw systick_cycle demo_ticks)); k1 = snd (reload_tick 100 k);
       k2 = mod_hw (systick_cycle ^^ 100) k1
   in fst (LOS_SysCycleGet k1) = 5099 \<and>
      fst (LOS_SysCycleGet (OsUpdateSysTimeBase (mod_hw (\<lambda>h. h\<lparr>ST_PENDST := False\<rparr>) k2))) = 5099"
proof -
  let ?k = "snd (LOS_SysCycleGet (mod_hw systick_cycle demo_ticks))"
  let ?k1 = "snd (reload_tick 100 ?k)"
  have k: "?k = demo_ticks\<lparr>hw := \<lparr>ST_LOAD = 99, ST_VAL = 0, ST_PENDST = True, ST_ENABLE = True\<rparr>,
      g_tickTimerBase := 5099, g_oldTickTimerBase := 5099, g_tickTimerBaseUpdate := True\<rparr>"
    by (simp add: demo_ticks_def systick_cycle_def LOS_SysCycleGet_def SysTickCycleGet_def Let_def)
  have k1: "?k1 = demo_ticks\<lparr>hw := \<lparr>ST_LOAD = 99, ST_VAL = 0, ST_PENDST = False, ST_ENABLE = True\<rparr>,
      g_tickTimerBase := 5099, g_oldTickTimerBase := 5099, g_tickTimerBaseUpdate := True\<rparr>"
    unfolding k by (simp add: demo_ticks_def reload_tick_def reload_timer_def LOS_SysCycleGet_def SysTickCycleGet_def Let_def)
  have ok: "tick_ok ?k" unfolding k by (simp add: tick_ok_def demo_ticks_def)
  have r: "room ?k" "100 \<le> periodMax (g_archTickTimer ?k)" "room ?k1" unfolding k1 unfolding k by (simp_all add: demo_ticks_def)
  have "fst (LOS_SysCycleGet (OsUpdateSysTimeBase (mod_hw (\<lambda>h. h\<lparr>ST_PENDST := False\<rparr>) (mod_hw (systick_cycle ^^ unat (100 :: u64)) ?k1)))) =
      g_oldTickTimerBase ?k1 + (if g_tickTimerBaseUpdate ?k1 then 0 else 100 - 1)"
    using tick_period_lost [OF ok r(1) _ r(2) _ r(3) refl refl refl] by simp
  moreover have "fst (LOS_SysCycleGet ?k1) = 5099"
    unfolding k1 by (simp add: demo_ticks_def LOS_SysCycleGet_def SysTickCycleGet_def Let_def)
  ultimately show ?thesis unfolding Let_def k1 by simp
qed

section \<open>Conversions\<close>

lemma unat_u32: "unat (x :: u32) < 2 ^ 32"
  by (rule order_less_le_trans [OF unsigned_less]) simp

lemma ms_product: "unat (ucast (a :: u32) * ucast (b :: u32) :: u64) = unat a * unat b"
proof -
  have "unat a * unat b < 2 ^ 32 * 2 ^ 32"
    by (rule mult_strict_mono) (use unsigned_less [of a] unsigned_less [of b] in simp_all)
  then show ?thesis by (simp add: unat_word_ariths(2) unat_ucast_up)
qed

lemma ms_product1000: "unat (ucast (a :: u32) * 1000 :: u64) = unat a * 1000"
  using ms_product [of a 1000] by simp

lemma LOS_MS2Tick_value:
  assumes "ms \<noteq> OS_NULL_INT" and "unat tps \<le> 1000"
  shows "unat (LOS_MS2Tick tps ms) = unat ms * unat tps div 1000"
proof -
  have "unat ms * unat tps div 1000 \<le> unat ms * 1000 div 1000" using assms(2) by (intro div_le_mono) simp
  then have "unat ms * unat tps div 1000 < 2 ^ 32" using unat_u32 [of ms] by simp
  then show ?thesis
    using assms(1) by (simp add: LOS_MS2Tick_def unsigned_ucast_eq unat_div ms_product take_bit_nat_eq_self)
qed

lemma LOS_Tick2MS_value:
  assumes "unat t * 1000 div unat tps < 2 ^ 32"
  shows "unat (LOS_Tick2MS tps t) = unat t * 1000 div unat tps"
proof -
  have "unat ((ucast t * 1000 :: u64) div ucast tps) = unat t * 1000 div unat tps"
    by (simp add: unat_div ms_product1000 unat_ucast_up)
  then show ?thesis using assms by (simp add: LOS_Tick2MS_def unsigned_ucast_eq [where 'b = 64] take_bit_nat_eq_self)
qed



lemma udelay_cycles_value:
  assumes "unat us < 2 ^ 32"
  shows "unat (udelay_cycles clk us) = unat us * unat clk div 1000000"
proof -
  let ?u = "unat us" and ?c = "unat clk"
  have c: "?c < 2 ^ 32" by (rule order_less_le_trans [OF unsigned_less]) simp
  have d: "?u div 1000000 \<le> 4294" "?u mod 1000000 < 1000000" using assms by simp_all
  have b1: "?u div 1000000 * ?c \<le> 4294 * 2 ^ 32" using d(1) c by (intro mult_le_mono) simp_all
  have b2: "?u mod 1000000 * ?c \<le> 1000000 * 2 ^ 32" using d(2) c by (intro mult_le_mono) simp_all
  have u1: "unat (us div 1000000 * ucast clk) = ?u div 1000000 * ?c"
    using b1 by (simp add: unat_word_ariths(2) unat_div unat_ucast_up)
  have u2: "unat (us mod 1000000 * ucast clk) = ?u mod 1000000 * ?c"
    using b2 by (simp add: unat_word_ariths(2) unat_mod unat_ucast_up)
  have b3: "?u mod 1000000 * ?c div 1000000 \<le> 2 ^ 32" using div_le_mono [OF b2, of 1000000] by simp
  have "unat (udelay_cycles clk us) = ?u div 1000000 * ?c + ?u mod 1000000 * ?c div 1000000"
    unfolding udelay_cycles_def using b1 b3 u1 u2 by (subst unat_plus64) (simp_all add: unat_div)
  also have "\<dots> = (?u div 1000000 * ?c * 1000000 + ?u mod 1000000 * ?c) div 1000000" by simp
  also have "?u div 1000000 * ?c * 1000000 + ?u mod 1000000 * ?c = (?u div 1000000 * 1000000 + ?u mod 1000000) * ?c"
    by (simp only: add_mult_distrib2 ac_simps)
  also have "\<dots> = ?u * ?c" by (simp only: div_mult_mod_eq)
  finally show ?thesis .
qed


text \<open>The reload of the timer as the scheduler theory sees it is the one of the port.\<close>

lemma reload_timer_period:
  assumes "periodMax (g_archTickTimer k) = TICK_PERIOD_MAX (conf s)"
  shows "fst (reload_tick p k) = OsTickTimerReload p s"
proof -
  obtain now k1 where g: "LOS_SysCycleGet k = (now, k1)" by (cases "LOS_SysCycleGet k")
  have "g_archTickTimer k1 = g_archTickTimer k" using g by (auto simp: LOS_SysCycleGet_def Let_def split: prod.splits)
  then show ?thesis
    using assms by (simp add: reload_tick_def g reload_timer_def Let_def OsTickTimerReload_def SysTickReload_def)
qed

end
