(* ===== verification/Sched_Inv.thy ===== *)
theory Sched_Inv
  imports Sched
begin

text \<open>
  The scheduler invariant: how the status word of a task determines the list its \<open>pendList\<close> is on
  and whether it is on the sort link, that the bitmap mirrors the ready queues, and that no
  assertion has failed.  One lemma per operation of \<open>los_sched.c\<close> shows that it keeps the
  invariant; the properties at the end rest on them.
\<close>

section \<open>The invariant\<close>

text \<open>
  What the scheduler relies on about one task: \<open>idle\<close> is the identifier of the idle task, \<open>run\<close>
  says whether the task is the running one, \<open>l\<close> is the list its \<open>pendList\<close> is on, \<open>insl\<close> whether
  it is on the sort link and \<open>void\<close> whether its response time is void.
\<close>

fun loc_ok :: "bool \<Rightarrow> nat \<Rightarrow> u16 \<Rightarrow> lhead option \<Rightarrow> bool" where
  "loc_ok idle p st None \<longleftrightarrow> \<not> hasFlag st OS_TASK_STATUS_PEND \<and> (hasFlag st OS_TASK_STATUS_READY \<longrightarrow> idle)"
| "loc_ok idle p st (Some (PriQueue q)) \<longleftrightarrow> hasFlag st OS_TASK_STATUS_READY \<and> \<not> idle \<and> q = p"
| "loc_ok idle p st (Some FreeTask) \<longleftrightarrow> hasFlag st OS_TASK_STATUS_UNUSED"
| "loc_ok idle p st (Some TaskRecycle) \<longleftrightarrow> hasFlag st OS_TASK_STATUS_UNUSED"
| "loc_ok idle p st (Some _) \<longleftrightarrow> hasFlag st OS_TASK_STATUS_PEND"

definition tok :: "u32 \<Rightarrow> bool \<Rightarrow> LosTaskCB \<Rightarrow> lhead option \<Rightarrow> bool \<Rightarrow> bool \<Rightarrow> bool" where
  "tok idle run c l insl void \<longleftrightarrow>
     loc_ok (taskID c = idle) (unat (priority c)) (taskStatus c) l \<and>
     (hasFlag (taskStatus c) OS_TASK_STATUS_READY \<longrightarrow>
        \<not> hasFlag (taskStatus c) (OS_TASK_STATUS_RUNNING OR OS_TASK_STATUS_PEND OR
            OS_TASK_STATUS_SUSPEND OR OS_TASK_STATUS_DELAY OR OS_TASK_STATUS_UNUSED OR OS_TASK_STATUS_EXIT)) \<and>
     (hasFlag (taskStatus c) OS_TASK_STATUS_PEND \<longrightarrow> \<not> hasFlag (taskStatus c) OS_TASK_STATUS_DELAY) \<and>
     (hasFlag (taskStatus c) OS_TASK_STATUS_PEND_TIME \<longrightarrow> hasFlag (taskStatus c) OS_TASK_STATUS_PEND) \<and>
     (insl \<longleftrightarrow> \<not> run \<and> hasFlag (taskStatus c) (OS_TASK_STATUS_DELAY OR OS_TASK_STATUS_PEND_TIME)) \<and>
     (\<not> insl \<and> \<not> hasFlag (taskStatus c) OS_TASK_STATUS_UNUSED \<longrightarrow> void) \<and>
     (run \<longrightarrow> hasFlag (taskStatus c) OS_TASK_STATUS_RUNNING) \<and>
     (hasFlag (taskStatus c) OS_TASK_STATUS_RUNNING \<longrightarrow>
        run \<or> hasFlag (taskStatus c) OS_TASK_STATUS_UNUSED) \<and>
     (taskID c = idle \<longrightarrow> hasFlag (taskStatus c) OS_TASK_STATUS_UNUSED \<or>
        \<not> hasFlag (taskStatus c) (OS_TASK_STATUS_SUSPEND OR OS_TASK_STATUS_PEND OR
            OS_TASK_STATUS_DELAY OR OS_TASK_STATUS_EXIT) \<and>
        (run \<or> hasFlag (taskStatus c) OS_TASK_STATUS_READY)) \<and>
     (hasFlag (taskStatus c) (OS_TASK_STATUS_UNUSED OR OS_TASK_STATUS_EXIT) \<longrightarrow>
        \<not> hasFlag (taskStatus c) (OS_TASK_STATUS_PEND OR OS_TASK_STATUS_DELAY)) \<and>
     \<not> hasFlag (taskStatus c) OS_TASK_FLAG_FREEZE \<and>
     (hasFlag (taskStatus c) OS_TASK_STATUS_UNUSED \<or> unat (priority c) < 32)"

lemma loc_ok_wait [simp]: "is_wait h \<Longrightarrow> loc_ok idle p st (Some h) \<longleftrightarrow> hasFlag st OS_TASK_STATUS_PEND"
  by (cases h) simp_all

abbreviation task_ok :: "ksched \<Rightarrow> tptr \<Rightarrow> bool" where
  "task_ok s t \<equiv> tok (g_idleTaskID s) (t = runTask s) (tcb s t) (ls_loc (lst s) t)
     (t \<in> set (sl_nodes (tskSort s))) (sl_time (tskSort s) t = OS_SORT_LINK_INVALID_TIME)"

definition bitmap_ok :: "u32 \<Rightarrow> (lhead \<Rightarrow> tptr list) \<Rightarrow> bool" where
  "bitmap_ok bm L \<longleftrightarrow> (\<forall>p < 32. bit bm (31 - p) \<longleftrightarrow> L (PriQueue p) \<noteq> [])"

text \<open>\<open>inv_but s t\<close>: everything but the condition on task \<open>t\<close>, which an operation is about to change.\<close>

definition inv_but :: "ksched \<Rightarrow> tptr \<Rightarrow> bool" where
  "inv_but s t \<longleftrightarrow> ls_wf (lst s) \<and> sl_wf (tskSort s) \<and> bitmap_ok (g_queueBitmap s) (ls_nodes (lst s)) \<and>
     \<not> assertFailed s \<and> (\<forall>u. startTime (tcb s u) \<le> sysCycle s) \<and> (\<forall>u. u \<noteq> t \<longrightarrow> task_ok s u)"

definition sched_inv :: "ksched \<Rightarrow> bool" where
  "sched_inv s \<longleftrightarrow> ls_wf (lst s) \<and> sl_wf (tskSort s) \<and> bitmap_ok (g_queueBitmap s) (ls_nodes (lst s)) \<and>
     \<not> assertFailed s \<and> (\<forall>u. startTime (tcb s u) \<le> sysCycle s) \<and> (\<forall>u. task_ok s u)"

lemma sched_inv_split: "sched_inv s \<longleftrightarrow> inv_but s t \<and> task_ok s t"
  by (auto simp: sched_inv_def inv_but_def)

lemma sched_inv_but: "sched_inv s \<Longrightarrow> inv_but s t"
  by (auto simp: sched_inv_def inv_but_def)

lemma sched_inv_task: "sched_inv s \<Longrightarrow> task_ok s t"
  by (simp add: sched_inv_def)

text \<open>The bitmap follows the ready queues.\<close>

lemma PRIOR0_eq: "PRIQUEUE_PRIOR0_BIT = flagBit 31"
  by (simp add: PRIQUEUE_PRIOR0_BIT_def flagBit_def)

lemma bit_PRIOR0: "p < 32 \<Longrightarrow> q < 32 \<Longrightarrow> bit (drop_bit p PRIQUEUE_PRIOR0_BIT) (31 - q) \<longleftrightarrow> q = p"
  unfolding bit_drop_bit_eq o_def PRIOR0_eq bit_flagBit by auto

lemma bitmap_ok_set:
  "bitmap_ok bm L \<Longrightarrow> p < 32 \<Longrightarrow> xs \<noteq> [] \<Longrightarrow>
   bitmap_ok (setFlag bm (drop_bit p PRIQUEUE_PRIOR0_BIT)) (L(PriQueue p := xs))"
  by (auto simp: bitmap_ok_def setFlag_def bit_or_iff bit_PRIOR0)

lemma bitmap_ok_clr:
  "bitmap_ok bm L \<Longrightarrow> p < 32 \<Longrightarrow>
   bitmap_ok (clrFlag bm (drop_bit p PRIQUEUE_PRIOR0_BIT)) (L(PriQueue p := []))"
  by (auto simp: bitmap_ok_def clrFlag_def bit_and_iff bit_not_iff bit_PRIOR0)

lemma bitmap_ok_same:
  "bitmap_ok bm L \<Longrightarrow> L (PriQueue p) \<noteq> [] \<Longrightarrow> xs \<noteq> [] \<Longrightarrow> bitmap_ok bm (L(PriQueue p := xs))"
  by (auto simp: bitmap_ok_def)

lemma bitmap_ok_other: "(\<And>p. h \<noteq> PriQueue p) \<Longrightarrow> bitmap_ok bm (L(h := xs)) = bitmap_ok bm L"
  by (simp add: bitmap_ok_def) metis

section \<open>Effects of the queue operations\<close>

definition enq_slice :: "ksched \<Rightarrow> tptr \<Rightarrow> int" where
  "enq_slice s t = (if \<not> is_idle s t \<and> timeSlice (tcb s t) \<le> g_schedTimeSliceMin s
                    then g_schedTimeSlice s else timeSlice (tcb s t))"

definition enq_status :: "u16 \<Rightarrow> u16" where
  "enq_status st = setFlag (clrFlag st (OS_TASK_STATUS_PEND OR OS_TASK_STATUS_SUSPEND OR
      OS_TASK_STATUS_DELAY OR OS_TASK_STATUS_PEND_TIME)) OS_TASK_STATUS_READY"

lemma hasFlag_enq_status [simp]:
  "hasFlag (enq_status st) (flagBit n) \<longleftrightarrow> n = 2 \<or> n \<notin> {1, 3, 5, 7} \<and> hasFlag st (flagBit n)"
  by (auto simp: enq_status_def)

lemma EnQueue_tcb [simp]:
  "tcb (OsSchedTaskEnQueue t s) =
     (tcb s)(t := (tcb s t)\<lparr>timeSlice := enq_slice s t, taskStatus := enq_status (status s t)\<rparr>)"
  by (simp add: OsSchedTaskEnQueue_def OsSchedPriQueueEnHead_def OsSchedPriQueueEnTail_def Let_def
      LOS_ASSERT_def enq_slice_def enq_status_def)

lemma EnQueue_frame [simp]:
  "conf (OsSchedTaskEnQueue t s) = conf s" "swtSort (OsSchedTaskEnQueue t s) = swtSort s"
  "runTask (OsSchedTaskEnQueue t s) = runTask s" "newTask (OsSchedTaskEnQueue t s) = newTask s"
  "g_taskScheduled (OsSchedTaskEnQueue t s) = g_taskScheduled s"
  "g_losTaskLock (OsSchedTaskEnQueue t s) = g_losTaskLock s"
  "g_taskMaxNum (OsSchedTaskEnQueue t s) = g_taskMaxNum s"
  "g_idleTaskID (OsSchedTaskEnQueue t s) = g_idleTaskID s"
  "g_swtmrTaskID (OsSchedTaskEnQueue t s) = g_swtmrTaskID s"
  "g_tickIntLock (OsSchedTaskEnQueue t s) = g_tickIntLock s"
  "g_sysClock (OsSchedTaskEnQueue t s) = g_sysClock s"
  "sysCycle (OsSchedTaskEnQueue t s) = sysCycle s" "intActive (OsSchedTaskEnQueue t s) = intActive s"
  "pendSV (OsSchedTaskEnQueue t s) = pendSV s"
  "g_schedTimeSlice (OsSchedTaskEnQueue t s) = g_schedTimeSlice s"
  "g_schedTimeSliceMin (OsSchedTaskEnQueue t s) = g_schedTimeSliceMin s"
  by (simp_all add: OsSchedTaskEnQueue_def OsSchedPriQueueEnHead_def OsSchedPriQueueEnTail_def Let_def
      LOS_ASSERT_def)

lemma EnQueue_assert:
  "\<not> hasFlag (status s t) OS_TASK_STATUS_READY \<Longrightarrow> assertFailed (OsSchedTaskEnQueue t s) = assertFailed s"
  by (simp add: OsSchedTaskEnQueue_def OsSchedPriQueueEnHead_def OsSchedPriQueueEnTail_def Let_def
      LOS_ASSERT_def)

lemma EnQueue_loc:
  assumes "ls_loc (lst s) t = None"
  shows "ls_loc (lst (OsSchedTaskEnQueue t s)) =
     (if is_idle s t then ls_loc (lst s)
      else (ls_loc (lst s))(t := Some (PriQueue (unat (priority (tcb s t))))))"
  using assms
  by (simp add: OsSchedTaskEnQueue_def OsSchedPriQueueEnHead_def OsSchedPriQueueEnTail_def Let_def
      LOS_ASSERT_def ls_add_def ls_tail_def)

text \<open>The ready queue after an insertion: at the head while the time slice lasts, else at the tail.\<close>

lemma EnQueue_nodes:
  assumes "ls_loc (lst s) t = None"
  shows "ls_nodes (lst (OsSchedTaskEnQueue t s)) =
     (if is_idle s t then ls_nodes (lst s)
      else let q = PriQueue (unat (priority (tcb s t))); xs = ls_nodes (lst s) q
           in (ls_nodes (lst s))(q := if timeSlice (tcb s t) > g_schedTimeSliceMin s then t # xs else xs @ [t]))"
  using assms
  by (simp add: OsSchedTaskEnQueue_def OsSchedPriQueueEnHead_def OsSchedPriQueueEnTail_def Let_def
      LOS_ASSERT_def ls_add_def ls_tail_def)

lemma EnQueue_bitmap:
  "g_queueBitmap (OsSchedTaskEnQueue t s) =
     (if is_idle s t \<or> ls_nodes (lst s) (PriQueue (unat (priority (tcb s t)))) \<noteq> [] then g_queueBitmap s
      else setFlag (g_queueBitmap s) (drop_bit (unat (priority (tcb s t))) PRIQUEUE_PRIOR0_BIT))"
  by (simp add: OsSchedTaskEnQueue_def OsSchedPriQueueEnHead_def OsSchedPriQueueEnTail_def Let_def
      LOS_ASSERT_def)

lemma EnQueue_wf:
  assumes "ls_wf (lst s)" and "ls_loc (lst s) t = None"
  shows "ls_wf (lst (OsSchedTaskEnQueue t s))"
  using assms ls_wf_add [OF assms] ls_wf_tail [OF assms]
  by (simp add: OsSchedTaskEnQueue_def OsSchedPriQueueEnHead_def OsSchedPriQueueEnTail_def Let_def
      LOS_ASSERT_def)

lemma EnQueue_inv_but:
  assumes inv: "inv_but s t" and loc: "ls_loc (lst s) t = None"
    and nr: "\<not> hasFlag (status s t) OS_TASK_STATUS_READY" and prio: "unat (priority (tcb s t)) < 32"
  shows "inv_but (OsSchedTaskEnQueue t s) t"
proof -
  have bm: "bitmap_ok (g_queueBitmap (OsSchedTaskEnQueue t s)) (ls_nodes (lst (OsSchedTaskEnQueue t s)))"
    using inv prio
    by (simp add: EnQueue_nodes [OF loc] EnQueue_bitmap Let_def inv_but_def bitmap_ok_set bitmap_ok_same)
  show ?thesis
    using inv bm loc nr by (simp add: inv_but_def EnQueue_wf EnQueue_loc EnQueue_assert)
qed

text \<open>Insertion of a task that is neither ready, waiting, sleeping nor running makes it ready.\<close>

lemma EnQueue_inv:
  assumes inv: "inv_but s t" and loc: "ls_loc (lst s) t = None" and run: "t \<noteq> runTask s"
    and sl: "t \<notin> set (sl_nodes (tskSort s))" "sl_time (tskSort s) t = OS_SORT_LINK_INVALID_TIME"
    and st: "\<not> hasFlag (status s t) (OS_TASK_STATUS_READY OR OS_TASK_STATUS_RUNNING OR
        OS_TASK_STATUS_UNUSED OR OS_TASK_STATUS_EXIT OR OS_TASK_FLAG_FREEZE)"
    and prio: "unat (priority (tcb s t)) < 32"
  shows "sched_inv (OsSchedTaskEnQueue t s)"
proof -
  have "inv_but (OsSchedTaskEnQueue t s) t"
    by (rule EnQueue_inv_but [OF inv loc _ prio]) (use st in simp)
  moreover have "task_ok (OsSchedTaskEnQueue t s) t"
    using loc run sl st prio by (auto simp: EnQueue_loc tok_def)
  ultimately show ?thesis by (simp add: sched_inv_split [of _ t])
qed

text \<open>Removal from the ready queue.\<close>

lemma DeQueue_tcb [simp]:
  "tcb (OsSchedTaskDeQueue t s) =
     (tcb s)(t := (tcb s t)\<lparr>taskStatus := if hasFlag (status s t) OS_TASK_STATUS_READY
        then clrFlag (status s t) OS_TASK_STATUS_READY else status s t\<rparr>)"
  by (simp add: OsSchedTaskDeQueue_def OsSchedPriQueueDelete_def Let_def)

lemma DeQueue_frame [simp]:
  "conf (OsSchedTaskDeQueue t s) = conf s" "swtSort (OsSchedTaskDeQueue t s) = swtSort s"
  "tskSort (OsSchedTaskDeQueue t s) = tskSort s"
  "runTask (OsSchedTaskDeQueue t s) = runTask s" "newTask (OsSchedTaskDeQueue t s) = newTask s"
  "g_taskScheduled (OsSchedTaskDeQueue t s) = g_taskScheduled s"
  "g_losTaskLock (OsSchedTaskDeQueue t s) = g_losTaskLock s"
  "g_taskMaxNum (OsSchedTaskDeQueue t s) = g_taskMaxNum s"
  "g_idleTaskID (OsSchedTaskDeQueue t s) = g_idleTaskID s"
  "g_swtmrTaskID (OsSchedTaskDeQueue t s) = g_swtmrTaskID s"
  "g_tickIntLock (OsSchedTaskDeQueue t s) = g_tickIntLock s"
  "g_sysClock (OsSchedTaskDeQueue t s) = g_sysClock s"
  "sysCycle (OsSchedTaskDeQueue t s) = sysCycle s" "intActive (OsSchedTaskDeQueue t s) = intActive s"
  "pendSV (OsSchedTaskDeQueue t s) = pendSV s" "assertFailed (OsSchedTaskDeQueue t s) = assertFailed s"
  "g_schedTimeSlice (OsSchedTaskDeQueue t s) = g_schedTimeSlice s"
  "g_schedTimeSliceMin (OsSchedTaskDeQueue t s) = g_schedTimeSliceMin s"
  by (simp_all add: OsSchedTaskDeQueue_def OsSchedPriQueueDelete_def Let_def)

lemma DeQueue_loc:
  assumes "hasFlag (status s t) OS_TASK_STATUS_READY"
    and "\<not> is_idle s t \<Longrightarrow> ls_loc (lst s) t = Some (PriQueue (unat (priority (tcb s t))))"
  shows "ls_loc (lst (OsSchedTaskDeQueue t s)) =
     (if is_idle s t then ls_loc (lst s) else (ls_loc (lst s))(t := None))"
  using assms
  by (cases "is_idle s t") (simp_all add: OsSchedTaskDeQueue_def OsSchedPriQueueDelete_def Let_def ls_del_def)

lemma DeQueue_nodes:
  assumes "hasFlag (status s t) OS_TASK_STATUS_READY"
    and "\<not> is_idle s t \<Longrightarrow> ls_loc (lst s) t = Some (PriQueue (unat (priority (tcb s t))))"
  shows "ls_nodes (lst (OsSchedTaskDeQueue t s)) =
     (if is_idle s t then ls_nodes (lst s)
      else let q = PriQueue (unat (priority (tcb s t)))
           in (ls_nodes (lst s))(q := remove1 t (ls_nodes (lst s) q)))"
  using assms
  by (cases "is_idle s t") (simp_all add: OsSchedTaskDeQueue_def OsSchedPriQueueDelete_def Let_def ls_del_def)

lemma DeQueue_inv_but:
  assumes inv: "inv_but s t" and rd: "hasFlag (status s t) OS_TASK_STATUS_READY"
    and loc: "\<not> is_idle s t \<Longrightarrow> ls_loc (lst s) t = Some (PriQueue (unat (priority (tcb s t))))"
    and prio: "unat (priority (tcb s t)) < 32"
  shows "inv_but (OsSchedTaskDeQueue t s) t"
proof (cases "is_idle s t")
  case True
  then show ?thesis
    using inv rd by (simp add: inv_but_def OsSchedTaskDeQueue_def)
next
  case False
  define q where "q = PriQueue (unat (priority (tcb s t)))"
  have wf: "ls_wf (lst s)" using inv by (simp add: inv_but_def)
  have l: "ls_loc (lst s) t = Some q" using loc False by (simp add: q_def)
  then have "ls_nodes (lst s) q \<noteq> []" using ls_wf_loc [OF wf, of t q] by auto
  then have "bitmap_ok (g_queueBitmap (OsSchedTaskDeQueue t s)) (ls_nodes (lst (OsSchedTaskDeQueue t s)))"
    using False rd l inv prio
    by (simp add: OsSchedTaskDeQueue_def OsSchedPriQueueDelete_def Let_def ls_del_def inv_but_def q_def
        bitmap_ok_clr bitmap_ok_same)
  moreover have "ls_wf (lst (OsSchedTaskDeQueue t s))"
    using ls_wf_del [OF wf, of t] l rd False
    by (simp add: OsSchedTaskDeQueue_def OsSchedPriQueueDelete_def Let_def)
  ultimately show ?thesis
    using inv rd by (simp add: inv_but_def DeQueue_loc [OF rd loc])
qed

section \<open>What each operation keeps\<close>

text \<open>Fields the invariant does not read.\<close>

lemma sched_inv_irrelevant [simp]:
  "sched_inv (s\<lparr>g_schedResponseTime := x\<rparr>) = sched_inv s"
  "sched_inv (s\<lparr>g_schedResponseID := y\<rparr>) = sched_inv s"
  "sched_inv (s\<lparr>newTask := n\<rparr>) = sched_inv s"
  "sched_inv (s\<lparr>pendSV := b\<rparr>) = sched_inv s"
  "sched_inv (s\<lparr>g_tickIntLock := l\<rparr>) = sched_inv s"
  "sched_inv (s\<lparr>g_losTaskLock := l\<rparr>) = sched_inv s"
  "sched_inv (s\<lparr>g_taskScheduled := b\<rparr>) = sched_inv s"
  "sched_inv (s\<lparr>g_tickTimerStartTime := x\<rparr>) = sched_inv s"
  "sched_inv (s\<lparr>intActive := b\<rparr>) = sched_inv s"
  "sched_inv (s\<lparr>swtSort := w\<rparr>) = sched_inv s"
  by (simp_all add: sched_inv_def)

lemma inv_but_irrelevant [simp]:
  "inv_but (s\<lparr>g_schedResponseTime := x\<rparr>) t = inv_but s t"
  "inv_but (s\<lparr>newTask := n\<rparr>) t = inv_but s t"
  "inv_but (s\<lparr>pendSV := b\<rparr>) t = inv_but s t"
  by (simp_all add: inv_but_def)

lemma sched_inv_SetNextExpireTime [simp]: "sched_inv (OsSchedSetNextExpireTime i e s) = sched_inv s"
  by (simp add: OsSchedSetNextExpireTime_def Let_def)

lemma SetNextExpireTime_frame [simp]:
  "tcb (OsSchedSetNextExpireTime i e s) = tcb s" "lst (OsSchedSetNextExpireTime i e s) = lst s"
  "tskSort (OsSchedSetNextExpireTime i e s) = tskSort s"
  "assertFailed (OsSchedSetNextExpireTime i e s) = assertFailed s"
  "swtSort (OsSchedSetNextExpireTime i e s) = swtSort s"
  "g_queueBitmap (OsSchedSetNextExpireTime i e s) = g_queueBitmap s"
  "runTask (OsSchedSetNextExpireTime i e s) = runTask s" "newTask (OsSchedSetNextExpireTime i e s) = newTask s"
  "conf (OsSchedSetNextExpireTime i e s) = conf s" "g_idleTaskID (OsSchedSetNextExpireTime i e s) = g_idleTaskID s"
  "g_taskScheduled (OsSchedSetNextExpireTime i e s) = g_taskScheduled s"
  "g_losTaskLock (OsSchedSetNextExpireTime i e s) = g_losTaskLock s"
  "g_taskMaxNum (OsSchedSetNextExpireTime i e s) = g_taskMaxNum s"
  "sysCycle (OsSchedSetNextExpireTime i e s) = sysCycle s" "pendSV (OsSchedSetNextExpireTime i e s) = pendSV s"
  "intActive (OsSchedSetNextExpireTime i e s) = intActive s"
  "g_swtmrTaskID (OsSchedSetNextExpireTime i e s) = g_swtmrTaskID s"
  by (simp_all add: OsSchedSetNextExpireTime_def Let_def)

lemma OsSchedUpdateExpireTime_inv [simp]: "sched_inv (OsSchedUpdateExpireTime s) = sched_inv s"
  by (simp add: OsSchedUpdateExpireTime_def Let_def)

lemma LOS_Schedule_inv [simp]: "sched_inv (LOS_Schedule s) = sched_inv s"
  by (simp add: LOS_Schedule_def ArchTaskSchedule_def)

text \<open>Updates of the task the invariant is suspended for.\<close>

lemma inv_but_mod_task:
  "inv_but s t \<Longrightarrow> startTime (f (tcb s t)) \<le> sysCycle s \<Longrightarrow> inv_but (mod_task t f s) t"
  by (simp add: inv_but_def)

lemma inv_but_start: "inv_but s t \<Longrightarrow> startTime (tcb s u) \<le> sysCycle s"
  by (simp add: inv_but_def)

lemma inv_but_wf: "inv_but s t \<Longrightarrow> ls_wf (lst s)" "inv_but s t \<Longrightarrow> sl_wf (tskSort s)"
  by (simp_all add: inv_but_def)

lemma inv_but_del:
  assumes inv: "inv_but s t" and l: "ls_loc (lst s) t = Some h" and h: "\<And>p. h \<noteq> PriQueue p"
  shows "inv_but (mod_lst (ls_del t) s) t"
proof -
  have "ls_wf (ls_del t (lst s))" using inv l by (simp add: inv_but_def ls_wf_del)
  moreover have "bitmap_ok (g_queueBitmap s) (ls_nodes (ls_del t (lst s)))"
    using inv bitmap_ok_other [OF h] by (simp add: ls_del_def l inv_but_def)
  ultimately show ?thesis using inv by (simp add: inv_but_def ls_del_def l)
qed

lemma inv_but_tail:
  assumes inv: "inv_but s t" and l: "ls_loc (lst s) t = None" and h: "\<And>p. h \<noteq> PriQueue p"
  shows "inv_but (mod_lst (ls_tail h t) s) t"
proof -
  have "ls_wf (ls_tail h t (lst s))" using inv l by (simp add: inv_but_def ls_wf_tail)
  moreover have "bitmap_ok (g_queueBitmap s) (ls_nodes (ls_tail h t (lst s)))"
    using inv bitmap_ok_other [OF h] by (simp add: ls_tail_def l inv_but_def)
  ultimately show ?thesis using inv by (simp add: inv_but_def ls_tail_def l)
qed

lemma inv_but_add:
  assumes inv: "inv_but s t" and l: "ls_loc (lst s) t = None" and h: "\<And>p. h \<noteq> PriQueue p"
  shows "inv_but (mod_lst (ls_add h t) s) t"
proof -
  have "ls_wf (ls_add h t (lst s))" using inv l by (simp add: inv_but_def ls_wf_add)
  moreover have "bitmap_ok (g_queueBitmap s) (ls_nodes (ls_add h t (lst s)))"
    using inv bitmap_ok_other [OF h] by (simp add: ls_add_def l inv_but_def)
  ultimately show ?thesis using inv by (simp add: inv_but_def ls_add_def l)
qed

lemma ls_loc_simps [simp]:
  "ls_loc s n = Some h \<Longrightarrow> ls_loc (ls_del n s) = (ls_loc s)(n := None)"
  "ls_loc s n = None \<Longrightarrow> ls_loc (ls_tail h n s) = (ls_loc s)(n := Some h)"
  "ls_loc s n = None \<Longrightarrow> ls_loc (ls_add h n s) = (ls_loc s)(n := Some h)"
  by (simp_all add: ls_del_def ls_tail_def ls_add_def)

text \<open>Where a task that is neither ready nor waiting is.\<close>

lemma is_wait_cases: "\<not> is_wait h \<Longrightarrow> h = FreeTask \<or> h = TaskRecycle \<or> (\<exists>p. h = PriQueue p)"
  by (cases h) auto

lemma tok_no_list:
  assumes "tok idle run c l insl void" and "\<not> hasFlag (taskStatus c) OS_TASK_STATUS_READY"
    and "\<not> hasFlag (taskStatus c) OS_TASK_STATUS_PEND" and "\<not> hasFlag (taskStatus c) OS_TASK_STATUS_UNUSED"
  shows "l = None"
proof (rule ccontr)
  assume "l \<noteq> None"
  then obtain h where "l = Some h" by blast
  then show False using assms by (cases h) (simp_all add: tok_def)
qed

text \<open>The invariant read for a ready task, for a waiting task and for a running one.\<close>

lemma tok_readyD:
  assumes "tok idle run c l insl void" and "hasFlag (taskStatus c) OS_TASK_STATUS_READY"
  shows "\<not> hasFlag (taskStatus c) OS_TASK_STATUS_RUNNING" "\<not> hasFlag (taskStatus c) OS_TASK_STATUS_PEND"
    "\<not> hasFlag (taskStatus c) OS_TASK_STATUS_SUSPEND" "\<not> hasFlag (taskStatus c) OS_TASK_STATUS_DELAY"
    "\<not> hasFlag (taskStatus c) OS_TASK_STATUS_PEND_TIME" "\<not> hasFlag (taskStatus c) OS_TASK_STATUS_UNUSED"
    "\<not> hasFlag (taskStatus c) OS_TASK_STATUS_EXIT" "\<not> hasFlag (taskStatus c) OS_TASK_FLAG_FREEZE"
    "\<not> run" "\<not> insl" "void" "unat (priority c) < 32"
    "l = (if taskID c = idle then None else Some (PriQueue (unat (priority c))))"
proof -
  show "l = (if taskID c = idle then None else Some (PriQueue (unat (priority c))))"
  proof (cases l)
    case None
    then show ?thesis using assms by (simp add: tok_def)
  next
    case (Some h)
    then show ?thesis using assms by (cases h) (auto simp: tok_def)
  qed
qed (use assms in \<open>auto simp: tok_def\<close>)

lemma tok_pendD:
  assumes "tok idle run c l insl void" and "hasFlag (taskStatus c) OS_TASK_STATUS_PEND"
  shows "\<not> hasFlag (taskStatus c) OS_TASK_STATUS_READY" "\<not> hasFlag (taskStatus c) OS_TASK_STATUS_DELAY"
    "\<not> hasFlag (taskStatus c) OS_TASK_STATUS_UNUSED" "\<not> hasFlag (taskStatus c) OS_TASK_STATUS_EXIT"
    "\<not> hasFlag (taskStatus c) OS_TASK_FLAG_FREEZE" "unat (priority c) < 32" "taskID c \<noteq> idle"
    "run \<longleftrightarrow> hasFlag (taskStatus c) OS_TASK_STATUS_RUNNING"
    "insl \<longleftrightarrow> \<not> run \<and> hasFlag (taskStatus c) OS_TASK_STATUS_PEND_TIME" "\<not> insl \<Longrightarrow> void"
    "\<exists>h. l = Some h \<and> is_wait h"
proof -
  show "\<exists>h. l = Some h \<and> is_wait h"
  proof (cases l)
    case None
    then show ?thesis using assms by (simp add: tok_def)
  next
    case (Some h)
    then show ?thesis using assms by (cases h) (auto simp: tok_def)
  qed
qed (use assms in \<open>auto simp: tok_def\<close>)

lemma tok_usedD:
  assumes "tok idle run c l insl void" and "\<not> hasFlag (taskStatus c) OS_TASK_STATUS_UNUSED"
  shows "run \<longleftrightarrow> hasFlag (taskStatus c) OS_TASK_STATUS_RUNNING" "unat (priority c) < 32"
    "\<not> hasFlag (taskStatus c) OS_TASK_FLAG_FREEZE" "\<not> insl \<Longrightarrow> void"
    "insl \<longleftrightarrow> \<not> run \<and> (hasFlag (taskStatus c) OS_TASK_STATUS_DELAY \<or>
        hasFlag (taskStatus c) OS_TASK_STATUS_PEND_TIME)"
  using assms by (auto simp: tok_def)

lemma tok_waitD:
  "tok idle run c (Some h) insl void \<Longrightarrow> is_wait h \<Longrightarrow> hasFlag (taskStatus c) OS_TASK_STATUS_PEND"
  by (simp add: tok_def)

lemma is_wait_not_PriQueue: "is_wait h \<Longrightarrow> h \<noteq> PriQueue p"
  by auto

section \<open>Sleeping tasks\<close>

lemma OsDeleteSortLink_frame [simp]:
  "tcb (OsDeleteSortLink t s) = tcb s" "lst (OsDeleteSortLink t s) = lst s"
  "g_queueBitmap (OsDeleteSortLink t s) = g_queueBitmap s" "runTask (OsDeleteSortLink t s) = runTask s"
  "g_idleTaskID (OsDeleteSortLink t s) = g_idleTaskID s" "sysCycle (OsDeleteSortLink t s) = sysCycle s"
  "assertFailed (OsDeleteSortLink t s) = assertFailed s" "conf (OsDeleteSortLink t s) = conf s"
  "newTask (OsDeleteSortLink t s) = newTask s" "g_taskScheduled (OsDeleteSortLink t s) = g_taskScheduled s"
  "g_losTaskLock (OsDeleteSortLink t s) = g_losTaskLock s" "swtSort (OsDeleteSortLink t s) = swtSort s"
  "g_taskMaxNum (OsDeleteSortLink t s) = g_taskMaxNum s" "intActive (OsDeleteSortLink t s) = intActive s"
  "g_swtmrTaskID (OsDeleteSortLink t s) = g_swtmrTaskID s" "pendSV (OsDeleteSortLink t s) = pendSV s"
  "g_schedTimeSlice (OsDeleteSortLink t s) = g_schedTimeSlice s"
  "g_schedTimeSliceMin (OsDeleteSortLink t s) = g_schedTimeSliceMin s"
  "g_sysClock (OsDeleteSortLink t s) = g_sysClock s"
  by (simp_all add: OsDeleteSortLink_def OsSchedResetSchedResponseTime_def)

lemma OsDeleteSortLink_tskSort:
  "tskSort (OsDeleteSortLink t s) =
     (if sl_time (tskSort s) t \<noteq> OS_SORT_LINK_INVALID_TIME then OsDeleteNodeSortLink t (tskSort s) else tskSort s)"
  by (simp add: OsDeleteSortLink_def OsSchedResetSchedResponseTime_def)

lemma sl_delete_other [simp]:
  "u \<noteq> t \<Longrightarrow> u \<in> set (sl_nodes (OsDeleteNodeSortLink t sl)) \<longleftrightarrow> u \<in> set (sl_nodes sl)"
  by simp

lemma OsDeleteSortLink_inv_but:
  assumes inv: "inv_but s t"
    and c: "t \<notin> set (sl_nodes (tskSort s)) \<Longrightarrow> sl_time (tskSort s) t = OS_SORT_LINK_INVALID_TIME"
  shows "inv_but (OsDeleteSortLink t s) t \<and> t \<notin> set (sl_nodes (tskSort (OsDeleteSortLink t s))) \<and>
    sl_time (tskSort (OsDeleteSortLink t s)) t = OS_SORT_LINK_INVALID_TIME"
proof (cases "t \<in> set (sl_nodes (tskSort s))")
  case True
  have wf: "sl_wf (tskSort s)" using inv by (simp add: inv_but_def)
  then have "sl_time (tskSort s) t \<noteq> OS_SORT_LINK_INVALID_TIME" using True by (simp add: sl_wf_def)
  then have eq: "tskSort (OsDeleteSortLink t s) = OsDeleteNodeSortLink t (tskSort s)"
    by (simp add: OsDeleteSortLink_tskSort)
  have "sl_wf (OsDeleteNodeSortLink t (tskSort s))" by (rule sl_wf_delete [OF wf True])
  moreover have "distinct (sl_nodes (tskSort s))" using wf by (simp add: sl_wf_def)
  ultimately show ?thesis using inv by (simp add: inv_but_def eq)
next
  case False
  then have "OsDeleteSortLink t s = s" using c by (simp add: OsDeleteSortLink_def)
  then show ?thesis using inv False c by simp
qed

lemma loc_ok_cong:
  "hasFlag st' OS_TASK_STATUS_PEND = hasFlag st OS_TASK_STATUS_PEND \<Longrightarrow>
   hasFlag st' OS_TASK_STATUS_READY = hasFlag st OS_TASK_STATUS_READY \<Longrightarrow>
   hasFlag st' OS_TASK_STATUS_UNUSED = hasFlag st OS_TASK_STATUS_UNUSED \<Longrightarrow>
   loc_ok idle p st' l = loc_ok idle p st l"
  by (cases "(idle, p, st, l)" rule: loc_ok.cases) simp_all

lemma inv_but_mod: "inv_but s t \<Longrightarrow> (\<And>c. startTime (f c) = startTime c) \<Longrightarrow> inv_but (mod_task t f s) t"
  by (simp add: inv_but_mod_task inv_but_start)

lemma sched_invI: "inv_but s t \<Longrightarrow> task_ok s t \<Longrightarrow> sched_inv s"
  using sched_inv_split by blast

text \<open>\<open>OsSchedTaskWait\<close>: the running task is queued on the wait list.\<close>

lemma OsSchedTaskWait_inv:
  assumes inv: "sched_inv s" and h: "is_wait h" and idle: "\<not> is_idle s (runTask s)"
    and st: "\<not> hasFlag (status s (runTask s)) OS_TASK_STATUS_UNUSED"
      "\<not> hasFlag (status s (runTask s)) OS_TASK_STATUS_EXIT"
      "\<not> hasFlag (status s (runTask s)) OS_TASK_STATUS_PEND"
      "\<not> hasFlag (status s (runTask s)) OS_TASK_STATUS_DELAY"
  shows "sched_inv (OsSchedTaskWait h ticks s)"
proof -
  let ?t = "runTask s"
  have ok: "task_ok s ?t" by (rule sched_inv_task [OF inv])
  note u = tok_usedD [OF ok st(1)]
  have nr: "\<not> hasFlag (status s ?t) OS_TASK_STATUS_READY" using tok_readyD(1) [OF ok] u(1) by auto
  have loc: "ls_loc (lst s) ?t = None" by (rule tok_no_list [OF ok nr st(3,1)])
  let ?s1 = "mod_lst (ls_tail h ?t) (set_status ?t OS_TASK_STATUS_PEND s)"
  have i1: "inv_but ?s1 ?t"
    by (intro inv_but_tail inv_but_mod sched_inv_but [OF inv]) (use loc h in auto)
  have "inv_but (OsSchedTaskWait h ticks s) ?t"
    using i1 by (simp add: OsSchedTaskWait_def Let_def inv_but_mod)
  moreover have "task_ok (OsSchedTaskWait h ticks s) ?t"
    using u st idle loc h nr by (simp add: OsSchedTaskWait_def Let_def tok_def)
  ultimately show ?thesis by (rule sched_invI)
qed

text \<open>\<open>OsSchedTaskWake\<close>: a waiting task leaves its wait list and, unless suspended or running, is ready.\<close>

lemma OsSchedTaskWake_inv:
  assumes inv: "sched_inv s" and l: "ls_loc (lst s) t = Some h" and h: "is_wait h"
  shows "sched_inv (OsSchedTaskWake t s)"
proof -
  have ok: "task_ok s t" by (rule sched_inv_task [OF inv])
  then have p: "hasFlag (status s t) OS_TASK_STATUS_PEND" using l h tok_waitD by metis
  note d = tok_pendD [OF ok p]
  let ?s1 = "clr_status t OS_TASK_STATUS_PEND (mod_lst (ls_del t) s)"
  have i1: "inv_but ?s1 t"
    by (intro inv_but_mod inv_but_del [OF sched_inv_but [OF inv] l]) (use h in auto)
  define s2 where "s2 = (if hasFlag (status s t) OS_TASK_STATUS_PEND_TIME
      then clr_status t OS_TASK_STATUS_PEND_TIME (OsDeleteSortLink t ?s1) else ?s1)"
  have wake: "OsSchedTaskWake t s = (if hasFlag (status s t) OS_TASK_STATUS_SUSPEND \<or>
      hasFlag (status s t) OS_TASK_STATUS_RUNNING then s2 else OsSchedTaskEnQueue t s2)"
    by (simp add: OsSchedTaskWake_def Let_def s2_def)
  have void: "t \<notin> set (sl_nodes (tskSort ?s1)) \<Longrightarrow> sl_time (tskSort ?s1) t = OS_SORT_LINK_INVALID_TIME"
    using d(10) by simp
  note ds = OsDeleteSortLink_inv_but [OF i1 void]
  have i2: "inv_but s2 t" using i1 ds by (simp add: s2_def inv_but_mod)
  have sl: "t \<notin> set (sl_nodes (tskSort s2))" "sl_time (tskSort s2) t = OS_SORT_LINK_INVALID_TIME"
    using ds d(9,10) by (simp_all add: s2_def)
  have rest: "ls_loc (lst s2) t = None" "runTask s2 = runTask s" "g_idleTaskID s2 = g_idleTaskID s"
    "priority (tcb s2 t) = priority (tcb s t)" "taskID (tcb s2 t) = taskID (tcb s t)"
    using l by (simp_all add: s2_def)
  have st: "hasFlag (status s2 t) (flagBit n) \<longleftrightarrow> hasFlag (status s t) (flagBit n) \<and> n \<noteq> 3 \<and> n \<noteq> 7" for n
    by (auto simp: s2_def)
  show ?thesis
  proof (cases "hasFlag (status s t) OS_TASK_STATUS_SUSPEND \<or> hasFlag (status s t) OS_TASK_STATUS_RUNNING")
    case True
    have "task_ok s2 t" using sl by (simp add: tok_def rest st d)
    with True i2 show ?thesis by (simp add: wake sched_invI)
  next
    case False
    have "sched_inv (OsSchedTaskEnQueue t s2)"
      by (rule EnQueue_inv [OF i2 rest(1) _ sl]) (use False d in \<open>simp_all add: st rest\<close>)
    with False show ?thesis by (simp add: wake)
  qed
qed

text \<open>\<open>OsSchedDelay\<close>: the running task asks to sleep; the sort link is entered at the switch.\<close>

lemma OsSchedDelay_inv:
  assumes inv: "sched_inv s" and idle: "\<not> is_idle s (runTask s)"
    and st: "\<not> hasFlag (status s (runTask s)) OS_TASK_STATUS_UNUSED"
      "\<not> hasFlag (status s (runTask s)) OS_TASK_STATUS_EXIT"
      "\<not> hasFlag (status s (runTask s)) OS_TASK_STATUS_PEND"
  shows "sched_inv (OsSchedDelay (runTask s) tick s)"
proof -
  let ?t = "runTask s"
  have ok: "task_ok s ?t" by (rule sched_inv_task [OF inv])
  note u = tok_usedD [OF ok st(1)]
  have nr: "\<not> hasFlag (status s ?t) OS_TASK_STATUS_READY" using tok_readyD(1) [OF ok] u(1) by auto
  have loc: "ls_loc (lst s) ?t = None" by (rule tok_no_list [OF ok nr st(3,1)])
  have pt: "\<not> hasFlag (status s ?t) OS_TASK_STATUS_PEND_TIME" using ok st by (simp add: tok_def)
  have "inv_but (OsSchedDelay ?t tick s) ?t"
    unfolding OsSchedDelay_def by (intro inv_but_mod sched_inv_but [OF inv]) simp_all
  moreover have "task_ok (OsSchedDelay ?t tick s) ?t"
    using u st idle loc nr pt by (simp add: OsSchedDelay_def tok_def)
  ultimately show ?thesis by (rule sched_invI)
qed

lemma tok_cong:
  "taskStatus c' = taskStatus c \<Longrightarrow> taskID c' = taskID c \<Longrightarrow> priority c' = priority c \<Longrightarrow>
   tok idle run c' l insl void = tok idle run c l insl void"
  by (simp add: tok_def)

lemma sched_inv_mod_task:
  assumes "sched_inv s" and "taskStatus (f (tcb s t)) = taskStatus (tcb s t)"
    and "taskID (f (tcb s t)) = taskID (tcb s t)" and "priority (f (tcb s t)) = priority (tcb s t)"
    and "startTime (f (tcb s t)) \<le> sysCycle s"
  shows "sched_inv (mod_task t f s)"
  using assms tok_cong [of "f (tcb s t)" "tcb s t"] by (simp add: sched_inv_def)

lemma sched_inv_start: "sched_inv s \<Longrightarrow> startTime (tcb s t) \<le> sysCycle s"
  by (simp add: sched_inv_def)

lemma OsSchedYield_inv: "sched_inv s \<Longrightarrow> sched_inv (OsSchedYield s)"
  by (simp add: OsSchedYield_def sched_inv_mod_task sched_inv_start)

text \<open>A ready task taken off its queue, before its status is settled.\<close>

lemma DeQueue_ready:
  assumes inv: "sched_inv s" and rd: "hasFlag (status s t) OS_TASK_STATUS_READY"
  shows "inv_but (OsSchedTaskDeQueue t s) t" and "ls_loc (lst (OsSchedTaskDeQueue t s)) = (ls_loc (lst s))(t := None)"
proof -
  note d = tok_readyD [OF sched_inv_task [OF inv] rd]
  have loc: "ls_loc (lst s) t = Some (PriQueue (unat (priority (tcb s t))))" if "\<not> is_idle s t"
    using d(13) that by simp
  show "inv_but (OsSchedTaskDeQueue t s) t"
    by (rule DeQueue_inv_but [OF sched_inv_but [OF inv] rd loc d(12)])
  show "ls_loc (lst (OsSchedTaskDeQueue t s)) = (ls_loc (lst s))(t := None)"
    using DeQueue_loc [OF rd loc] d(13) by (simp add: fun_upd_idem)
qed

text \<open>How the condition on one task moves along with its status.\<close>

lemma tok_suspend:
  assumes "tok idle run c l insl void" and "taskID c \<noteq> idle"
    and "\<not> hasFlag (taskStatus c) OS_TASK_STATUS_READY"
  shows "tok idle run (c\<lparr>taskStatus := setFlag (taskStatus c) OS_TASK_STATUS_SUSPEND\<rparr>) l insl void"
proof -
  have "loc_ok False (unat (priority c)) (setFlag (taskStatus c) OS_TASK_STATUS_SUSPEND) l =
      loc_ok False (unat (priority c)) (taskStatus c) l"
    by (rule loc_ok_cong) simp_all
  with assms show ?thesis unfolding tok_def by simp
qed

lemma tok_unsuspend:
  assumes "tok idle run c l insl void" and "hasFlag (taskStatus c) OS_TASK_STATUS_SUSPEND"
    and "\<not> hasFlag (taskStatus c) OS_TASK_STATUS_UNUSED"
  shows "tok idle run (c\<lparr>taskStatus := clrFlag (taskStatus c) OS_TASK_STATUS_SUSPEND\<rparr>) l insl void"
proof -
  have ni: "taskID c \<noteq> idle" using assms by (auto simp: tok_def)
  have "loc_ok False (unat (priority c)) (clrFlag (taskStatus c) OS_TASK_STATUS_SUSPEND) l =
      loc_ok False (unat (priority c)) (taskStatus c) l"
    by (rule loc_ok_cong) simp_all
  with assms ni show ?thesis unfolding tok_def by simp
qed

lemma tok_priority:
  assumes "tok idle run c l insl void" and "unat prio < 32"
    and "\<not> hasFlag (taskStatus c) OS_TASK_STATUS_READY"
  shows "tok idle run (c\<lparr>priority := prio\<rparr>) l insl void"
proof -
  have "loc_ok b (unat prio) (taskStatus c) l" if "loc_ok b (unat (priority c)) (taskStatus c) l" for b
    using that assms(3) by (cases "(b, unat (priority c), taskStatus c, l)" rule: loc_ok.cases) simp_all
  with assms show ?thesis unfolding tok_def by simp
qed

lemma OsSchedSuspend_inv:
  assumes inv: "sched_inv s" and idle: "\<not> is_idle s t"
    and st: "\<not> hasFlag (status s t) OS_TASK_STATUS_UNUSED"
  shows "sched_inv (OsSchedSuspend False t s)"
proof (cases "hasFlag (status s t) OS_TASK_STATUS_READY")
  case True
  note dq = DeQueue_ready [OF inv True]
  note d = tok_readyD [OF sched_inv_task [OF inv] True]
  have "inv_but (OsSchedSuspend False t s) t"
    using dq(1) True by (simp add: OsSchedSuspend_def inv_but_mod)
  moreover have "task_ok (OsSchedSuspend False t s) t"
    using d(1-12) dq(2) True idle by (simp add: OsSchedSuspend_def tok_def)
  ultimately show ?thesis by (rule sched_invI)
next
  case False
  have "task_ok (OsSchedSuspend False t s) t"
    using tok_suspend [OF sched_inv_task [OF inv, of t] idle False] False by (simp add: OsSchedSuspend_def)
  moreover have "inv_but (OsSchedSuspend False t s) t"
    using sched_inv_but [OF inv, of t] False by (simp add: OsSchedSuspend_def inv_but_mod)
  ultimately show ?thesis by (rule sched_invI [rotated])
qed

text \<open>
  \<open>OsSchedResume\<close> of a suspended task.  The two extra hypotheses are not checked by the code: the
  task is not the running one (it could be, between \<open>LOS_TaskSuspend\<close> of itself and the switch), and
  it has not exited.
\<close>

lemma OsSchedResume_inv:
  assumes inv: "sched_inv s" and run: "t \<noteq> runTask s"
    and sus: "hasFlag (status s t) OS_TASK_STATUS_SUSPEND"
    and st: "\<not> hasFlag (status s t) OS_TASK_STATUS_UNUSED" "\<not> hasFlag (status s t) OS_TASK_STATUS_EXIT"
  shows "sched_inv (snd (OsSchedResume t s))"
proof -
  have ok: "task_ok s t" by (rule sched_inv_task [OF inv])
  note u = tok_usedD [OF ok st(1)]
  let ?s2 = "clr_status t OS_TASK_STATUS_SUSPEND s"
  have i2: "inv_but ?s2 t" by (rule inv_but_mod [OF sched_inv_but [OF inv]]) simp
  show ?thesis
  proof (cases "hasFlag (status s t) (OS_TASK_STATUS_DELAY OR OS_TASK_STATUS_PEND)")
    case True
    then have "snd (OsSchedResume t s) = ?s2" using u(3) by (auto simp: OsSchedResume_def Let_def)
    moreover have "task_ok ?s2 t" using tok_unsuspend [OF ok sus st(1)] by simp
    ultimately show ?thesis using i2 by (simp add: sched_invI)
  next
    case False
    then have eq: "snd (OsSchedResume t s) = OsSchedTaskEnQueue t ?s2"
      using u(3) by (simp add: OsSchedResume_def Let_def)
    have nr: "\<not> hasFlag (status s t) OS_TASK_STATUS_READY" using tok_readyD(3) [OF ok] sus by blast
    have loc: "ls_loc (lst s) t = None"
      by (rule tok_no_list [OF ok nr _ st(1)]) (use False in simp)
    have pt: "\<not> hasFlag (status s t) OS_TASK_STATUS_PEND_TIME" using ok False by (auto simp: tok_def)
    have "sched_inv (OsSchedTaskEnQueue t ?s2)"
      by (rule EnQueue_inv [OF i2]) (use loc False u st run nr pt in simp_all)
    then show ?thesis by (simp add: eq)
  qed
qed

lemma OsSchedModifyTaskSchedParam_inv:
  assumes inv: "sched_inv s" and prio: "unat prio < 32"
    and st: "\<not> hasFlag (status s t) OS_TASK_STATUS_UNUSED"
  shows "sched_inv (snd (OsSchedModifyTaskSchedParam t prio s))"
proof (cases "hasFlag (status s t) OS_TASK_STATUS_READY")
  case True
  note dq = DeQueue_ready [OF inv True]
  note d = tok_readyD [OF sched_inv_task [OF inv] True]
  let ?s2 = "mod_task t (\<lambda>c. c\<lparr>priority := prio\<rparr>) (OsSchedTaskDeQueue t s)"
  have "sched_inv (OsSchedTaskEnQueue t ?s2)"
    by (rule EnQueue_inv) (use dq d(1-12) True prio in \<open>simp_all add: inv_but_mod\<close>)
  then show ?thesis using True by (simp add: OsSchedModifyTaskSchedParam_def Let_def)
next
  case False
  let ?s1 = "mod_task t (\<lambda>c. c\<lparr>priority := prio\<rparr>) s"
  have "inv_but ?s1 t" by (rule inv_but_mod [OF sched_inv_but [OF inv]]) simp
  moreover have "task_ok ?s1 t"
    using tok_priority [OF sched_inv_task [OF inv, of t] prio False] by simp
  ultimately have "sched_inv ?s1" by (rule sched_invI)
  then show ?thesis using False by (simp add: OsSchedModifyTaskSchedParam_def Let_def)
qed

text \<open>\<open>OsSchedTaskExit\<close> takes the task off every list.\<close>

lemma OsSchedTaskExit_inv:
  assumes inv: "sched_inv s" and idle: "\<not> is_idle s t"
    and st: "\<not> hasFlag (status s t) OS_TASK_STATUS_UNUSED"
  shows "sched_inv (OsSchedTaskExit t s)" and "ls_loc (lst (OsSchedTaskExit t s)) = (ls_loc (lst s))(t := None)"
    and "t \<notin> set (sl_nodes (tskSort (OsSchedTaskExit t s)))"
    and "status (OsSchedTaskExit t s) t = setFlag (clrFlag (status s t) (OS_TASK_STATUS_READY OR
        OS_TASK_STATUS_PEND OR OS_TASK_STATUS_DELAY OR OS_TASK_STATUS_PEND_TIME)) OS_TASK_STATUS_EXIT"
proof -
  have ok: "task_ok s t" by (rule sched_inv_task [OF inv])
  note u = tok_usedD [OF ok st]
  define s1 where "s1 = (if hasFlag (status s t) OS_TASK_STATUS_READY then OsSchedTaskDeQueue t s
                else if hasFlag (status s t) OS_TASK_STATUS_PEND
                     then clr_status t OS_TASK_STATUS_PEND (mod_lst (ls_del t) s) else s)"
  have fr: "tskSort s1 = tskSort s" "runTask s1 = runTask s" "g_idleTaskID s1 = g_idleTaskID s"
    "taskID (tcb s1 t) = taskID (tcb s t)" "priority (tcb s1 t) = priority (tcb s t)"
    by (simp_all add: s1_def)
  have s1: "status s1 t = clrFlag (status s t) (OS_TASK_STATUS_READY OR OS_TASK_STATUS_PEND)"
    using tok_readyD(2) [OF ok] by (auto simp: s1_def word_eq_hasFlag)
  have i1: "inv_but s1 t \<and> ls_loc (lst s1) = (ls_loc (lst s))(t := None)"
  proof (cases "hasFlag (status s t) OS_TASK_STATUS_READY")
    case True
    then show ?thesis using DeQueue_ready [OF inv True] by (simp add: s1_def)
  next
    case nr: False
    show ?thesis
    proof (cases "hasFlag (status s t) OS_TASK_STATUS_PEND")
      case True
      then obtain h where h: "ls_loc (lst s) t = Some h" "is_wait h" using tok_pendD(11) [OF ok True] by blast
      then have "inv_but (mod_lst (ls_del t) s) t"
        by (intro inv_but_del [OF sched_inv_but [OF inv]]) auto
      then show ?thesis using nr True h by (simp add: s1_def inv_but_mod)
    next
      case False
      then show ?thesis
        using nr tok_no_list [OF ok nr False st] sched_inv_but [OF inv] by (simp add: s1_def fun_upd_idem)
    qed
  qed
  have void: "t \<notin> set (sl_nodes (tskSort s1)) \<Longrightarrow> sl_time (tskSort s1) t = OS_SORT_LINK_INVALID_TIME"
    using u(4) fr by simp
  note ds = OsDeleteSortLink_inv_but [OF conjunct1 [OF i1] void]
  define s2 where "s2 = (if hasFlag (status s t) (OS_TASK_STATUS_DELAY OR OS_TASK_STATUS_PEND_TIME)
       then clr_status t (OS_TASK_STATUS_DELAY OR OS_TASK_STATUS_PEND_TIME) (OsDeleteSortLink t s1) else s1)"
  have ex: "OsSchedTaskExit t s = set_status t OS_TASK_STATUS_EXIT s2"
    by (simp add: OsSchedTaskExit_def Let_def s2_def s1_def [symmetric] s1)
  have s2: "status s2 t = clrFlag (status s t) (OS_TASK_STATUS_READY OR OS_TASK_STATUS_PEND OR
      OS_TASK_STATUS_DELAY OR OS_TASK_STATUS_PEND_TIME)"
    by (auto simp: s2_def s1 word_eq_hasFlag)
  have fr2: "runTask s2 = runTask s" "g_idleTaskID s2 = g_idleTaskID s"
    "taskID (tcb s2 t) = taskID (tcb s t)" "priority (tcb s2 t) = priority (tcb s t)"
    "ls_loc (lst s2) = (ls_loc (lst s))(t := None)"
    using i1 by (simp_all add: s2_def fr)
  have sl: "t \<notin> set (sl_nodes (tskSort s2))" "sl_time (tskSort s2) t = OS_SORT_LINK_INVALID_TIME"
    using ds u(4,5) by (auto simp: s2_def fr)
  have "inv_but s2 t" using i1 ds by (simp add: s2_def inv_but_mod)
  then have "inv_but (OsSchedTaskExit t s) t" unfolding ex by (rule inv_but_mod) simp
  moreover have "task_ok (OsSchedTaskExit t s) t"
    unfolding ex using u(1-3) sl st idle by (simp add: tok_def fr2 s2)
  ultimately show "sched_inv (OsSchedTaskExit t s)" by (rule sched_invI)
  show "ls_loc (lst (OsSchedTaskExit t s)) = (ls_loc (lst s))(t := None)"
    "t \<notin> set (sl_nodes (tskSort (OsSchedTaskExit t s)))"
    "status (OsSchedTaskExit t s) t = setFlag (clrFlag (status s t) (OS_TASK_STATUS_READY OR
        OS_TASK_STATUS_PEND OR OS_TASK_STATUS_DELAY OR OS_TASK_STATUS_PEND_TIME)) OS_TASK_STATUS_EXIT"
    unfolding ex using fr2 sl s2 by simp_all
qed

section \<open>Expiry of sleeping tasks\<close>

lemma inv_but_sldel:
  assumes "inv_but s t" and "t \<in> set (sl_nodes (tskSort s))"
  shows "inv_but (mod_tskSort (OsDeleteNodeSortLink t) s) t"
  using assms sl_wf_delete [of "tskSort s" t] by (simp add: inv_but_def)

lemma sl_delete_self:
  "sl_wf sl \<Longrightarrow> t \<notin> set (remove1 t (sl_nodes sl))"
  by (simp add: sl_wf_def)

definition wake_status :: "u16 \<Rightarrow> u16" where
  "wake_status st =
     (let st1 = clrFlag st (OS_TASK_STATUS_PEND OR OS_TASK_STATUS_PEND_TIME OR OS_TASK_STATUS_DELAY);
          st2 = (if hasFlag st OS_TASK_STATUS_PEND then setFlag st1 OS_TASK_STATUS_TIMEOUT else st1)
      in if hasFlag st OS_TASK_STATUS_SUSPEND then st2 else enq_status st2)"

text \<open>One round of the scan: the first sleeper leaves the sort link and its wait list.\<close>

lemma OsSchedWakePendTimeTask_inv:
  fixes b :: bool
  assumes inv: "sched_inv s" and t: "t \<in> set (sl_nodes (tskSort s))"
  defines "s' \<equiv> fst (OsSchedWakePendTimeTask t (mod_tskSort (OsDeleteNodeSortLink t) s, b))"
  shows "sched_inv s'" and "status s' t = wake_status (status s t)"
    and "\<And>u. u \<noteq> t \<Longrightarrow> tcb s' u = tcb s u" and "runTask s' = runTask s"
    and "g_idleTaskID s' = g_idleTaskID s" and "sysCycle s' = sysCycle s" and "conf s' = conf s"
    and "\<And>u. u \<noteq> t \<Longrightarrow> ls_loc (lst s') u = ls_loc (lst s) u"
proof -
  have ok: "task_ok s t" by (rule sched_inv_task [OF inv])
  have wf: "sl_wf (tskSort s)" using inv by (simp add: sched_inv_def)
  have d: "t \<noteq> runTask s" "hasFlag (status s t) OS_TASK_STATUS_DELAY \<or> hasFlag (status s t) OS_TASK_STATUS_PEND_TIME"
    "hasFlag (status s t) OS_TASK_STATUS_PEND_TIME \<Longrightarrow> hasFlag (status s t) OS_TASK_STATUS_PEND"
    using ok t by (simp_all add: tok_def)
  have pd: "hasFlag (status s t) OS_TASK_STATUS_PEND \<or> hasFlag (status s t) OS_TASK_STATUS_DELAY"
    using d by blast
  then have un: "\<not> hasFlag (status s t) OS_TASK_STATUS_UNUSED" "\<not> hasFlag (status s t) OS_TASK_STATUS_EXIT"
    "\<not> hasFlag (status s t) OS_TASK_STATUS_READY" "taskID (tcb s t) \<noteq> g_idleTaskID s"
    using ok by (auto simp: tok_def)
  note u = tok_usedD [OF ok un(1)]
  let ?s0 = "mod_tskSort (OsDeleteNodeSortLink t) s"
  let ?s1 = "clr_status t (OS_TASK_STATUS_PEND OR OS_TASK_STATUS_PEND_TIME OR OS_TASK_STATUS_DELAY) ?s0"
  define s2 where "s2 = (if hasFlag (status s t) OS_TASK_STATUS_PEND
      then mod_task t (\<lambda>c. c\<lparr>taskMux := None, taskSem := None\<rparr>)
             (mod_lst (ls_del t) (set_status t OS_TASK_STATUS_TIMEOUT ?s1)) else ?s1)"
  have s': "s' = (if hasFlag (status s t) OS_TASK_STATUS_SUSPEND then s2 else OsSchedTaskEnQueue t s2)"
    using pd by (simp add: s'_def OsSchedWakePendTimeTask_def Let_def s2_def)
  have i1: "inv_but ?s1 t"
    by (intro inv_but_mod inv_but_sldel [OF sched_inv_but [OF inv] t]) simp
  have i2: "inv_but s2 t \<and> ls_loc (lst s2) = (ls_loc (lst s))(t := None)"
  proof (cases "hasFlag (status s t) OS_TASK_STATUS_PEND")
    case True
    then obtain h where h: "ls_loc (lst s) t = Some h" "is_wait h" using tok_pendD(11) [OF ok True] by blast
    have "inv_but (mod_lst (ls_del t) (set_status t OS_TASK_STATUS_TIMEOUT ?s1)) t"
      by (intro inv_but_del inv_but_mod i1) (use h in auto)
    then show ?thesis using True h by (simp add: s2_def inv_but_mod)
  next
    case False
    then show ?thesis
      using i1 tok_no_list [OF ok un(3) False un(1)] by (simp add: s2_def fun_upd_idem)
  qed
  have fr: "tskSort s2 = OsDeleteNodeSortLink t (tskSort s)" "runTask s2 = runTask s"
    "g_idleTaskID s2 = g_idleTaskID s" "priority (tcb s2 t) = priority (tcb s t)"
    "taskID (tcb s2 t) = taskID (tcb s t)" "sysCycle s2 = sysCycle s" "conf s2 = conf s"
    by (simp_all add: s2_def)
  have st: "hasFlag (status s2 t) (flagBit n) \<longleftrightarrow>
      n = 6 \<and> hasFlag (status s t) OS_TASK_STATUS_PEND \<or> hasFlag (status s t) (flagBit n) \<and> n \<notin> {3, 5, 7}" for n
    by (auto simp: s2_def)
  have loc: "ls_loc (lst s2) t = None" using i2 by simp
  show "sched_inv s'"
  proof (cases "hasFlag (status s t) OS_TASK_STATUS_SUSPEND")
    case True
    have "task_ok s2 t" using d(1) u un by (simp add: tok_def fr st loc sl_delete_self [OF wf])
    then have "sched_inv s2" by (rule sched_invI [OF conjunct1 [OF i2]])
    with True show ?thesis by (simp add: s')
  next
    case False
    have "sched_inv (OsSchedTaskEnQueue t s2)"
      by (rule EnQueue_inv [OF conjunct1 [OF i2] loc])
        (use d(1) u un False in \<open>simp_all add: fr st sl_delete_self [OF wf]\<close>)
    with False show ?thesis by (simp add: s')
  qed
  have tc: "status s2 t = (if hasFlag (status s t) OS_TASK_STATUS_PEND then setFlag (clrFlag (status s t)
      (OS_TASK_STATUS_PEND OR OS_TASK_STATUS_PEND_TIME OR OS_TASK_STATUS_DELAY)) OS_TASK_STATUS_TIMEOUT
      else clrFlag (status s t) (OS_TASK_STATUS_PEND OR OS_TASK_STATUS_PEND_TIME OR OS_TASK_STATUS_DELAY))"
    by (simp add: s2_def)
  show "status s' t = wake_status (status s t)"
    by (simp add: s' tc wake_status_def Let_def)
  show "tcb s' u = tcb s u" if "u \<noteq> t" for u using that by (simp add: s' s2_def)
  show "runTask s' = runTask s" "g_idleTaskID s' = g_idleTaskID s" "sysCycle s' = sysCycle s" "conf s' = conf s"
    by (simp_all add: s' fr)
  show "ls_loc (lst s') u = ls_loc (lst s) u" if "u \<noteq> t" for u
    using that i2 EnQueue_loc [OF loc] by (simp add: s')
qed

text \<open>The whole scan, by induction on its rounds.\<close>

lemma scan_timer_loop_spec:
  assumes "sched_inv s"
  shows "let s' = fst (scan_timer_loop now (s, b)) in
     sched_inv s' \<and> runTask s' = runTask s \<and> g_idleTaskID s' = g_idleTaskID s \<and> sysCycle s' = sysCycle s \<and>
     conf s' = conf s \<and>
     (\<forall>t. if t \<in> set (sl_nodes (tskSort s)) \<and> sl_time (tskSort s) t \<le> now
          then t \<notin> set (sl_nodes (tskSort s')) \<and> status s' t = wake_status (status s t)
          else tcb s' t = tcb s t \<and> (t \<in> set (sl_nodes (tskSort s')) \<longleftrightarrow> t \<in> set (sl_nodes (tskSort s))) \<and>
               ls_loc (lst s') t = ls_loc (lst s) t)"
  using assms
proof (induction "length (sl_nodes (tskSort s))" arbitrary: s b)
  case 0
  then have "sl_nodes (tskSort s) = []" by simp
  with 0 show ?case by simp
next
  case (Suc k)
  obtain t ts where sl: "sl_nodes (tskSort s) = t # ts" using Suc.hyps(2) by (cases "sl_nodes (tskSort s)") auto
  have wf: "sl_wf (tskSort s)" using Suc.prems by (simp add: sched_inv_def)
  show ?case
  proof (cases "sl_time (tskSort s) t \<le> now")
    case False
    then have "\<forall>u \<in> set (sl_nodes (tskSort s)). \<not> sl_time (tskSort s) u \<le> now"
      using wf sl by (auto simp: sl_wf_def sl_sorted_def)
    with False Suc.prems sl show ?thesis by auto
  next
    case True
    have t: "t \<in> set (sl_nodes (tskSort s))" using sl by simp
    obtain s1 b1 where r: "OsSchedWakePendTimeTask t (mod_tskSort (OsDeleteNodeSortLink t) s, b) = (s1, b1)"
      by fastforce
    note w = OsSchedWakePendTimeTask_inv [OF Suc.prems t, where b = b, unfolded r fst_conv]
    have sl1: "tskSort s1 = OsDeleteNodeSortLink t (tskSort s)"
      using OsSchedWakePendTimeTask_tskSort [of t "mod_tskSort (OsDeleteNodeSortLink t) s" b]
      by (simp add: r)
    have dt: "t \<notin> set ts" using wf sl by (simp add: sl_wf_def)
    have len: "k = length (sl_nodes (tskSort s1))" using Suc.hyps(2) sl by (simp add: sl1)
    define s' where "s' = fst (scan_timer_loop now (s1, b1))"
    have loop: "fst (scan_timer_loop now (s, b)) = s'"
      using True sl by (simp add: s'_def r)
    note IH = Suc.hyps(1) [OF len w(1), where b = b1, unfolded Let_def, folded s'_def]
    have mem: "u \<in> set (sl_nodes (tskSort s1)) \<longleftrightarrow> u \<in> set ts" for u
      by (simp add: sl1 sl)
    have tm: "sl_time (tskSort s1) u = sl_time (tskSort s) u" if "u \<noteq> t" for u
      using that by (simp add: sl1)
    have "if u \<in> set (sl_nodes (tskSort s)) \<and> sl_time (tskSort s) u \<le> now
          then u \<notin> set (sl_nodes (tskSort s')) \<and> status s' u = wake_status (status s u)
          else tcb s' u = tcb s u \<and> (u \<in> set (sl_nodes (tskSort s')) \<longleftrightarrow> u \<in> set (sl_nodes (tskSort s))) \<and>
               ls_loc (lst s') u = ls_loc (lst s) u" for u
    proof (cases "u = t")
      case True
      then show ?thesis
        using spec [OF conjunct2 [OF conjunct2 [OF conjunct2 [OF conjunct2 [OF conjunct2 [OF IH]]]]], of t]
          w(2) dt \<open>sl_time (tskSort s) t \<le> now\<close> t by (simp add: mem)
    next
      case False
      then show ?thesis
        using spec [OF conjunct2 [OF conjunct2 [OF conjunct2 [OF conjunct2 [OF conjunct2 [OF IH]]]]], of u]
          w(3,8) [OF False] by (simp add: mem tm sl split: if_splits)
    qed
    then show ?thesis
      unfolding loop Let_def using IH w(4-7) by simp
  qed
qed

section \<open>The choice of the next task and the switch\<close>

lemma OsTimeSliceUpdate_inv:
  assumes "sched_inv s" and "startTime (tcb s t) \<le> now" and "now \<le> sysCycle s"
  shows "sched_inv (OsTimeSliceUpdate t now s)"
  using assms
  by (simp add: OsTimeSliceUpdate_def Let_def LOS_ASSERT_def sched_inv_mod_task sched_inv_start)

lemma OsTimeSliceUpdate_frame [simp]:
  "lst (OsTimeSliceUpdate t now s) = lst s" "tskSort (OsTimeSliceUpdate t now s) = tskSort s"
  "runTask (OsTimeSliceUpdate t now s) = runTask s" "sysCycle (OsTimeSliceUpdate t now s) = sysCycle s"
  "g_idleTaskID (OsTimeSliceUpdate t now s) = g_idleTaskID s" "conf (OsTimeSliceUpdate t now s) = conf s"
  "taskStatus (tcb (OsTimeSliceUpdate t now s) u) = taskStatus (tcb s u)"
  "taskID (tcb (OsTimeSliceUpdate t now s) u) = taskID (tcb s u)"
  "priority (tcb (OsTimeSliceUpdate t now s) u) = priority (tcb s u)"
  "waitTimes (tcb (OsTimeSliceUpdate t now s) u) = waitTimes (tcb s u)"
  "startTime (tcb (OsTimeSliceUpdate t now s) t) = now" "swtSort (OsTimeSliceUpdate t now s) = swtSort s"
  "g_taskScheduled (OsTimeSliceUpdate t now s) = g_taskScheduled s"
  "g_losTaskLock (OsTimeSliceUpdate t now s) = g_losTaskLock s"
  "g_sysClock (OsTimeSliceUpdate t now s) = g_sysClock s"
  by (simp_all add: OsTimeSliceUpdate_def Let_def LOS_ASSERT_def)

text \<open>The bitmap leads to the first non-empty queue.\<close>

lemma bitmap_top:
  assumes "bitmap_ok bm L" and "bm \<noteq> 0"
  shows "CLZ bm < 32" and "L (PriQueue (CLZ bm)) \<noteq> []" and "p < CLZ bm \<Longrightarrow> L (PriQueue p) = []"
proof -
  note clz = CLZ_least [OF assms(2)]
  have eq: "q < 32 \<Longrightarrow> bit bm (31 - q) \<longleftrightarrow> L (PriQueue q) \<noteq> []" for q
    using assms(1) by (simp add: bitmap_ok_def)
  show "CLZ bm < 32" "L (PriQueue (CLZ bm)) \<noteq> []" using clz eq by blast+
  show "L (PriQueue p) = []" if "p < CLZ bm"
    using clz eq [of p] that by (meson less_trans)
qed

lemma bitmap_zero: "bitmap_ok 0 L \<Longrightarrow> p < 32 \<Longrightarrow> L (PriQueue p) = []"
  by (simp add: bitmap_ok_def)

text \<open>The idle task exists: its identifier leads to a control block in use that bears it.\<close>

definition idle_ok :: "ksched \<Rightarrow> bool" where
  "idle_ok s \<longleftrightarrow> (let i = OS_TCB_FROM_TID (g_idleTaskID s)
     in taskID (tcb s i) = g_idleTaskID s \<and> \<not> hasFlag (status s i) OS_TASK_STATUS_UNUSED)"

text \<open>The state between two tasks: no task is the running one.\<close>

definition norun_inv :: "ksched \<Rightarrow> bool" where
  "norun_inv s \<longleftrightarrow> ls_wf (lst s) \<and> sl_wf (tskSort s) \<and> bitmap_ok (g_queueBitmap s) (ls_nodes (lst s)) \<and>
     \<not> assertFailed s \<and> (\<forall>u. startTime (tcb s u) \<le> sysCycle s) \<and>
     (\<forall>u. tok (g_idleTaskID s) False (tcb s u) (ls_loc (lst s) u) (u \<in> set (sl_nodes (tskSort s)))
        (sl_time (tskSort s) u = OS_SORT_LINK_INVALID_TIME))"

lemma norun_invI:
  assumes "inv_but s r" and "runTask s = r"
    and "tok (g_idleTaskID s) False (f (tcb s r)) (ls_loc (lst s) r) (r \<in> set (sl_nodes (tskSort s)))
        (sl_time (tskSort s) r = OS_SORT_LINK_INVALID_TIME)"
    and "startTime (f (tcb s r)) \<le> sysCycle s"
  shows "norun_inv (mod_task r f s)"
  using assms by (auto simp: norun_inv_def inv_but_def)

text \<open>
  The top task of such a state is ready; no ready task has a more urgent priority; and only when no
  task other than idle is ready is it the idle task.
\<close>

lemma OsGetTopTask_ready:
  assumes inv: "norun_inv s" and idle: "idle_ok s"
  obtains n where "OsGetTopTask s = Some n" "hasFlag (status s n) OS_TASK_STATUS_READY"
    "\<forall>u. hasFlag (status s u) OS_TASK_STATUS_READY \<and> \<not> is_idle s u \<longrightarrow>
       \<not> is_idle s n \<and> unat (priority (tcb s n)) \<le> unat (priority (tcb s u))"
    "\<not> is_idle s n \<Longrightarrow> \<exists>ts. ls_nodes (lst s) (PriQueue (unat (priority (tcb s n)))) = n # ts"
proof -
  have wf: "ls_wf (lst s)" and bm: "bitmap_ok (g_queueBitmap s) (ls_nodes (lst s))"
    and tk: "\<And>u. tok (g_idleTaskID s) False (tcb s u) (ls_loc (lst s) u) (u \<in> set (sl_nodes (tskSort s)))
        (sl_time (tskSort s) u = OS_SORT_LINK_INVALID_TIME)"
    using inv by (auto simp: norun_inv_def)
  have queued: "u \<in> set (ls_nodes (lst s) (PriQueue (unat (priority (tcb s u))))) \<and> unat (priority (tcb s u)) < 32"
    if "hasFlag (status s u) OS_TASK_STATUS_READY" "\<not> is_idle s u" for u
    using tok_readyD(12,13) [OF tk that(1)] that(2) ls_wf_loc [OF wf, of u] by auto
  show ?thesis
  proof (cases "g_queueBitmap s = 0")
    case True
    let ?i = "OS_TCB_FROM_TID (g_idleTaskID s)"
    have "\<not> (hasFlag (status s u) OS_TASK_STATUS_READY \<and> \<not> is_idle s u)" for u
    proof
      assume "hasFlag (status s u) OS_TASK_STATUS_READY \<and> \<not> is_idle s u"
      then have "u \<in> set (ls_nodes (lst s) (PriQueue (unat (priority (tcb s u)))))" "unat (priority (tcb s u)) < 32"
        using queued by blast+
      then show False using bitmap_zero [of "ls_nodes (lst s)" "unat (priority (tcb s u))"] bm True by simp
    qed
    moreover have "hasFlag (status s ?i) OS_TASK_STATUS_READY"
      using tk [of ?i] idle by (simp add: idle_ok_def Let_def tok_def)
    moreover have "is_idle s ?i" using idle by (simp add: idle_ok_def Let_def)
    ultimately show ?thesis using that [of ?i] True by (simp add: OsGetTopTask_def)
  next
    case False
    note top = bitmap_top [OF bm False]
    obtain n ts where q: "ls_nodes (lst s) (PriQueue (CLZ (g_queueBitmap s))) = n # ts"
      using top(2) by (cases "ls_nodes (lst s) (PriQueue (CLZ (g_queueBitmap s)))") auto
    then have loc: "ls_loc (lst s) n = Some (PriQueue (CLZ (g_queueBitmap s)))"
      using ls_wf_loc [OF wf] by simp
    have n: "hasFlag (status s n) OS_TASK_STATUS_READY" "\<not> is_idle s n"
        "unat (priority (tcb s n)) = CLZ (g_queueBitmap s)"
      using tk [of n] loc by (simp_all add: tok_def)
    moreover have "unat (priority (tcb s n)) \<le> unat (priority (tcb s u))"
      if "hasFlag (status s u) OS_TASK_STATUS_READY" "\<not> is_idle s u" for u
      using queued [OF that] top(3) [of "unat (priority (tcb s u))"] n(3) by (cases "ls_nodes (lst s) (PriQueue (unat (priority (tcb s u))))") (auto simp: not_less [symmetric])
    ultimately show ?thesis using that [of n] False q by (simp add: OsGetTopTask_def)
  qed
qed

text \<open>Making a ready task the running one.\<close>

lemma dispatch_inv:
  assumes inv: "norun_inv s" and rd: "hasFlag (status s n) OS_TASK_STATUS_READY"
    and x: "x \<le> sysCycle s" and r: "runTask s' = n" and nt: "s' = s\<lparr>runTask := n\<rparr>"
  shows "sched_inv (OsSchedTaskDeQueue n
    (mod_task n (\<lambda>c. c\<lparr>taskStatus := setFlag (taskStatus c) OS_TASK_STATUS_RUNNING, startTime := x\<rparr>) s'))"
proof -
  have tk: "tok (g_idleTaskID s) False (tcb s n) (ls_loc (lst s) n) (n \<in> set (sl_nodes (tskSort s)))
        (sl_time (tskSort s) n = OS_SORT_LINK_INVALID_TIME)"
    using inv by (simp add: norun_inv_def)
  note d = tok_readyD [OF tk rd]
  let ?s1 = "mod_task n (\<lambda>c. c\<lparr>taskStatus := setFlag (taskStatus c) OS_TASK_STATUS_RUNNING, startTime := x\<rparr>) s'"
  have i1: "inv_but ?s1 n" using inv x by (simp add: norun_inv_def inv_but_def nt)
  have rd1: "hasFlag (status ?s1 n) OS_TASK_STATUS_READY" using rd by (simp add: nt)
  have loc1: "\<not> is_idle ?s1 n \<Longrightarrow> ls_loc (lst ?s1) n = Some (PriQueue (unat (priority (tcb ?s1 n))))"
    using d(13) by (simp add: nt)
  have "inv_but (OsSchedTaskDeQueue n ?s1) n"
    by (rule DeQueue_inv_but [OF i1 rd1 loc1]) (use d(12) in \<open>simp_all add: nt\<close>)
  moreover have "ls_loc (lst (OsSchedTaskDeQueue n ?s1)) n = None"
    using DeQueue_loc [OF rd1 loc1] d(13) by (auto simp: nt)
  then have "task_ok (OsSchedTaskDeQueue n ?s1) n"
    using d(1-12) rd by (simp add: tok_def nt)
  ultimately show ?thesis by (rule sched_invI)
qed

text \<open>The clock the switch relies on when it computes the wake-up time of a sleeper.\<close>

definition clock_ok :: "ksched \<Rightarrow> bool" where
  "clock_ok s \<longleftrightarrow> 2 \<le> TICK_PER_SECOND (conf s) \<and> unat (sysCycle s) < 2 ^ 63"

definition switch_out :: "ksched \<Rightarrow> ksched" where
  "switch_out s =
     (let r = runTask s; s1 = OsTimeSliceUpdate r (sysCycle s) s
      in if hasFlag (status s1 r) (OS_TASK_STATUS_PEND_TIME OR OS_TASK_STATUS_DELAY)
         then mod_tskSort (OsAdd2SortLink (TICK_PER_SECOND (conf s1)) (g_sysClock s1) r
                             (startTime (tcb s1 r)) (waitTimes (tcb s1 r))) s1
         else if \<not> hasFlag (status s1 r) OS_TASK_BLOCKED_STATUS then OsSchedTaskEnQueue r s1 else s1)"

lemma switch_out_norun:
  assumes inv: "sched_inv s" and clk: "clock_ok s"
  shows "norun_inv (clr_status (runTask s) OS_TASK_STATUS_RUNNING (switch_out s))"
    and "inv_but (switch_out s) (runTask s)"
proof -
  define r where "r = runTask s"
  define s1 where "s1 = OsTimeSliceUpdate r (sysCycle s) s"
  have inv1: "sched_inv s1"
    unfolding s1_def by (rule OsTimeSliceUpdate_inv [OF inv sched_inv_start [OF inv]]) simp
  have ok: "task_ok s1 r" by (rule sched_inv_task [OF inv1])
  have fr: "runTask s1 = r" "g_idleTaskID s1 = g_idleTaskID s" "startTime (tcb s1 r) = sysCycle s"
    "sysCycle s1 = sysCycle s" "conf s1 = conf s"
    by (simp_all add: s1_def r_def)
  have wf: "sl_wf (tskSort s1)" and lwf: "ls_wf (lst s1)" using inv1 by (simp_all add: sched_inv_def)
  have out: "switch_out s =
      (if hasFlag (status s1 r) (OS_TASK_STATUS_PEND_TIME OR OS_TASK_STATUS_DELAY)
       then mod_tskSort (OsAdd2SortLink (TICK_PER_SECOND (conf s1)) (g_sysClock s1) r
                           (startTime (tcb s1 r)) (waitTimes (tcb s1 r))) s1
       else if \<not> hasFlag (status s1 r) OS_TASK_BLOCKED_STATUS then OsSchedTaskEnQueue r s1 else s1)"
    by (simp add: switch_out_def Let_def s1_def r_def)
  let ?f = "\<lambda>c. c\<lparr>taskStatus := clrFlag (taskStatus c) OS_TASK_STATUS_RUNNING\<rparr>"
  let ?goal = "inv_but (switch_out s) r \<and> runTask (switch_out s) = r \<and>
      tok (g_idleTaskID (switch_out s)) False (?f (tcb (switch_out s) r)) (ls_loc (lst (switch_out s)) r)
        (r \<in> set (sl_nodes (tskSort (switch_out s))))
        (sl_time (tskSort (switch_out s)) r = OS_SORT_LINK_INVALID_TIME)"
  have run: "hasFlag (status s1 r) OS_TASK_STATUS_RUNNING" and nsl: "r \<notin> set (sl_nodes (tskSort s1))"
    and nr: "\<not> hasFlag (status s1 r) OS_TASK_STATUS_READY"
    using ok fr(1) by (auto simp: tok_def)
  have lc: "loc_ok b p (clrFlag st OS_TASK_STATUS_RUNNING) l = loc_ok b p st l" for b p st l
    by (rule loc_ok_cong) simp_all
  have ?goal
  proof (cases "hasFlag (status s1 r) (OS_TASK_STATUS_PEND_TIME OR OS_TASK_STATUS_DELAY)")
    case True
    let ?sl = "OsAdd2SortLink (TICK_PER_SECOND (conf s1)) (g_sysClock s1) r
                           (startTime (tcb s1 r)) (waitTimes (tcb s1 r)) (tskSort s1)"
    have "startTime (tcb s1 r) + OS_SYS_TICK_TO_CYCLE (TICK_PER_SECOND (conf s1)) (g_sysClock s1) (waitTimes (tcb s1 r))
        \<noteq> OS_SORT_LINK_INVALID_TIME"
      by (rule add_delay_no_wrap(2)) (use clk fr in \<open>simp_all add: clock_ok_def\<close>)
    then have wf2: "sl_wf ?sl" by (rule sl_wf_add2 [OF wf nsl])
    have eq: "switch_out s = s1\<lparr>tskSort := ?sl\<rparr>" using True by (simp add: out)
    have mem: "u \<in> set (sl_nodes ?sl) \<longleftrightarrow> u = r \<or> u \<in> set (sl_nodes (tskSort s1))"
      and tm: "u \<noteq> r \<Longrightarrow> sl_time ?sl u = sl_time (tskSort s1) u" for u
      by (simp_all add: OsAdd2SortLink_eq [OF wf nsl])
    have "inv_but (switch_out s) r"
      using sched_inv_but [OF inv1, of r] wf2 by (simp add: inv_but_def eq mem tm)
    moreover have "tok idle True c l insl void \<Longrightarrow>
        hasFlag (taskStatus c) (OS_TASK_STATUS_PEND_TIME OR OS_TASK_STATUS_DELAY) \<Longrightarrow>
        \<not> hasFlag (taskStatus c) OS_TASK_STATUS_READY \<Longrightarrow> tok idle False (?f c) l True v" for idle c l insl void v
      by (auto simp: tok_def lc)
    ultimately show ?thesis using ok True nr fr(1) by (simp add: eq mem)
  next
    case nd: False
    show ?thesis
    proof (cases "hasFlag (status s1 r) OS_TASK_BLOCKED_STATUS")
      case True
      then have eq: "switch_out s = s1" using nd by (simp add: out)
      have "tok idle True c l insl void \<Longrightarrow> hasFlag (taskStatus c) OS_TASK_BLOCKED_STATUS \<Longrightarrow>
        \<not> hasFlag (taskStatus c) (OS_TASK_STATUS_PEND_TIME OR OS_TASK_STATUS_DELAY) \<Longrightarrow>
        tok idle False (?f c) l insl void" for idle c l insl void
        by (auto simp: tok_def lc OS_TASK_BLOCKED_STATUS_def)
      then show ?thesis using ok True nd fr(1) sched_inv_but [OF inv1, of r] by (simp add: eq)
    next
      case False
      then have eq: "switch_out s = OsSchedTaskEnQueue r s1" using nd by (simp add: out)
      have st: "\<not> hasFlag (status s1 r) OS_TASK_STATUS_PEND" "\<not> hasFlag (status s1 r) OS_TASK_STATUS_UNUSED"
        "\<not> hasFlag (status s1 r) OS_TASK_STATUS_EXIT"
        using False by (simp_all add: OS_TASK_BLOCKED_STATUS_def)
      have loc: "ls_loc (lst s1) r = None" by (rule tok_no_list [OF ok nr st(1,2)])
      note u = tok_usedD [OF ok st(2)]
      have "inv_but (OsSchedTaskEnQueue r s1) r"
        by (rule EnQueue_inv_but [OF sched_inv_but [OF inv1] loc nr u(2)])
      then show ?thesis
        using u(2-4) st nsl fr(1) loc by (simp add: eq EnQueue_loc tok_def)
    qed
  qed
  then show "inv_but (switch_out s) (runTask s)"
    "norun_inv (clr_status (runTask s) OS_TASK_STATUS_RUNNING (switch_out s))"
    using norun_invI [of "switch_out s" r ?f] inv_but_start [of "switch_out s" r r] by (auto simp: r_def)
qed

text \<open>The switch picks a task, and afterwards exactly that task runs.\<close>

lemma OsSchedTaskSwitch_eq:
  "OsSchedTaskSwitch s =
     (let r = runTask s; s2 = switch_out s
      in case OsGetTopTask s2 of
           None \<Rightarrow> None
         | Some n \<Rightarrow>
             (let s3 = s2\<lparr>newTask := n\<rparr>;
                  isTaskSwitch = (r \<noteq> n);
                  s4 = (if isTaskSwitch
                        then mod_task n (\<lambda>c. c\<lparr>startTime := startTime (tcb s3 r)\<rparr>)
                               (set_status n OS_TASK_STATUS_RUNNING (clr_status r OS_TASK_STATUS_RUNNING s3))
                        else s3);
                  s5 = OsSchedTaskDeQueue n s4;
                  endTime = (if \<not> is_idle s5 n
                             then startTime (tcb s5 n) + word_of_int (timeSlice (tcb s5 n))
                             else OS_SCHED_MAX_RESPONSE_TIME - ucast (g_tickResponsePrecision s5));
                  s6 = (if g_schedResponseID s5 = taskID (tcb s5 r)
                        then s5\<lparr>g_schedResponseTime := OS_SCHED_MAX_RESPONSE_TIME\<rparr> else s5)
              in Some (isTaskSwitch, OsSchedSetNextExpireTime (taskID (tcb s6 n)) endTime s6)))"
  unfolding OsSchedTaskSwitch_def switch_out_def Let_def ..

lemma DeQueue_runTask: "OsSchedTaskDeQueue n (s\<lparr>runTask := m\<rparr>) = (OsSchedTaskDeQueue n s)\<lparr>runTask := m\<rparr>"
  by (simp add: OsSchedTaskDeQueue_def OsSchedPriQueueDelete_def Let_def mod_task_def)

lemma DeQueue_newTask: "OsSchedTaskDeQueue n (s\<lparr>newTask := m\<rparr>) = (OsSchedTaskDeQueue n s)\<lparr>newTask := m\<rparr>"
  by (simp add: OsSchedTaskDeQueue_def OsSchedPriQueueDelete_def Let_def mod_task_def)

lemma mod_task_runTask: "mod_task n f (s\<lparr>runTask := m\<rparr>) = (mod_task n f s)\<lparr>runTask := m\<rparr>"
  by (simp add: mod_task_def)

lemma mod_task_newTask: "mod_task n f (s\<lparr>newTask := m\<rparr>) = (mod_task n f s)\<lparr>newTask := m\<rparr>"
  by (simp add: mod_task_def)

lemma switch_out_frame [simp]:
  "runTask (switch_out s) = runTask s" "g_idleTaskID (switch_out s) = g_idleTaskID s"
  "sysCycle (switch_out s) = sysCycle s" "conf (switch_out s) = conf s"
  "g_taskScheduled (switch_out s) = g_taskScheduled s" "g_losTaskLock (switch_out s) = g_losTaskLock s"
  "taskID (tcb (switch_out s) u) = taskID (tcb s u)"
  "priority (tcb (switch_out s) u) = priority (tcb s u)"
  "swtSort (switch_out s) = swtSort s"
  by (simp_all add: switch_out_def Let_def)

lemma switch_out_flags:
  "n \<notin> {1, 2, 3, 5, 7} \<Longrightarrow> hasFlag (status (switch_out s) u) (flagBit n) = hasFlag (status s u) (flagBit n)"
  by (simp add: switch_out_def Let_def)

lemma switch_out_start: "startTime (tcb (switch_out s) (runTask s)) = sysCycle s"
  by (simp add: switch_out_def Let_def)

lemma OsGetTopTask_clr:
  "OsGetTopTask (mod_task t f s) = OsGetTopTask s"
  by (simp add: OsGetTopTask_def)

lemma setFlag_clrFlag: "hasFlag st (flagBit n) \<Longrightarrow> setFlag (clrFlag st (flagBit n)) (flagBit n) = st"
  by (auto simp: word_eq_hasFlag)

text \<open>
  The switch succeeds from every state that satisfies the invariant: it finds a task, the invariant
  holds again with the new task running, and among the ready tasks (the old one included, if it was
  neither blocked nor asleep) none has a more urgent priority than the one that now runs.
\<close>

lemma sched_inv_cong:
  "tcb s' = tcb s \<Longrightarrow> lst s' = lst s \<Longrightarrow> tskSort s' = tskSort s \<Longrightarrow> g_queueBitmap s' = g_queueBitmap s \<Longrightarrow>
   assertFailed s' = assertFailed s \<Longrightarrow> sysCycle s' = sysCycle s \<Longrightarrow> runTask s' = runTask s \<Longrightarrow>
   g_idleTaskID s' = g_idleTaskID s \<Longrightarrow> sched_inv s' = sched_inv s"
  by (simp add: sched_inv_def)

lemma HalPendSV_correct:
  assumes inv: "sched_inv s" and idle: "idle_ok s" and clk: "clock_ok s"
  obtains s' where "HalPendSV s = Some s'" "sched_inv s'" "runTask s' = newTask s'"
    "\<And>u. hasFlag (status s' u) OS_TASK_STATUS_READY \<and> \<not> is_idle s' u \<Longrightarrow>
       \<not> is_idle s' (runTask s') \<and>
       unat (priority (tcb s' (runTask s'))) \<le> unat (priority (tcb s' u))"
    "\<And>u. taskID (tcb s' u) = taskID (tcb s u)" "g_idleTaskID s' = g_idleTaskID s"
    "\<And>u. hasFlag (status s' u) OS_TASK_STATUS_UNUSED = hasFlag (status s u) OS_TASK_STATUS_UNUSED"
    "sysCycle s' = sysCycle s" "conf s' = conf s" "g_taskScheduled s' = g_taskScheduled s"
    "g_losTaskLock s' = g_losTaskLock s"
proof -
  define r where "r = runTask s"
  define s0 where "s0 = s\<lparr>pendSV := False\<rparr>"
  define s2 where "s2 = switch_out s0"
  define sn where "sn = clr_status r OS_TASK_STATUS_RUNNING s2"
  have inv0: "sched_inv s0" and clk0: "clock_ok s0" and r0: "runTask s0 = r"
    using inv clk by (simp_all add: s0_def clock_ok_def r_def)
  have nr: "norun_inv sn" and ib: "inv_but s2 r"
    using switch_out_norun [OF inv0 clk0] by (simp_all add: sn_def s2_def r0)
  have id: "idle_ok sn"
    using idle by (auto simp: idle_ok_def sn_def s2_def Let_def switch_out_flags s0_def)
  obtain n where n: "OsGetTopTask sn = Some n" "hasFlag (status sn n) OS_TASK_STATUS_READY"
    "\<forall>u. hasFlag (status sn u) OS_TASK_STATUS_READY \<and> \<not> is_idle sn u \<longrightarrow>
       \<not> is_idle sn n \<and> unat (priority (tcb sn n)) \<le> unat (priority (tcb sn u))"
    by (rule OsGetTopTask_ready [OF nr id]) blast
  have top: "OsGetTopTask s2 = Some n" using n(1) by (simp add: sn_def OsGetTopTask_clr)
  define x where "x = startTime (tcb (s2\<lparr>newTask := n\<rparr>) r)"
  have x: "x \<le> sysCycle sn" using inv_but_start [OF ib, of r] by (simp add: x_def sn_def)
  define sd where "sd = OsSchedTaskDeQueue n
    (mod_task n (\<lambda>c. c\<lparr>taskStatus := setFlag (taskStatus c) OS_TASK_STATUS_RUNNING, startTime := x\<rparr>) (sn\<lparr>runTask := n\<rparr>))"
  have dis: "sched_inv sd"
    unfolding sd_def by (rule dispatch_inv [OF nr n(2) x]) simp_all
  define s4 where "s4 = (if r \<noteq> n
      then mod_task n (\<lambda>c. c\<lparr>startTime := x\<rparr>)
             (set_status n OS_TASK_STATUS_RUNNING (clr_status r OS_TASK_STATUS_RUNNING (s2\<lparr>newTask := n\<rparr>)))
      else s2\<lparr>newTask := n\<rparr>)"
  have rr: "hasFlag (status s2 r) OS_TASK_STATUS_RUNNING"
    using sched_inv_task [OF inv, of r] by (simp add: s2_def switch_out_flags s0_def r_def tok_def)
  have sd: "sd\<lparr>newTask := n\<rparr> = (OsSchedTaskDeQueue n s4)\<lparr>runTask := n\<rparr>"
  proof (cases "r = n")
    case True
    have "mod_task n (\<lambda>c. c\<lparr>taskStatus := setFlag (taskStatus c) OS_TASK_STATUS_RUNNING, startTime := x\<rparr>) sn = s2"
      using True rr by (simp add: sn_def mod_task_def x_def setFlag_clrFlag)
    then show ?thesis using True by (simp add: sd_def s4_def mod_task_runTask DeQueue_runTask DeQueue_newTask)
  next
    case False
    then have "s4 = (mod_task n (\<lambda>c. c\<lparr>taskStatus := setFlag (taskStatus c) OS_TASK_STATUS_RUNNING, startTime := x\<rparr>) sn)
        \<lparr>newTask := n\<rparr>"
      by (simp add: sn_def mod_task_def s4_def)
    then show ?thesis by (simp add: sd_def mod_task_runTask DeQueue_runTask DeQueue_newTask)
  qed
  define s5 where "s5 = OsSchedTaskDeQueue n s4"
  define s6 where "s6 = (if g_schedResponseID s5 = taskID (tcb s5 r)
      then s5\<lparr>g_schedResponseTime := OS_SCHED_MAX_RESPONSE_TIME\<rparr> else s5)"
  define e where "e = (if \<not> is_idle s5 n then startTime (tcb s5 n) + word_of_int (timeSlice (tcb s5 n))
      else OS_SCHED_MAX_RESPONSE_TIME - ucast (g_tickResponsePrecision s5))"
  define sf where "sf = OsSchedSetNextExpireTime (taskID (tcb s6 n)) e s6"
  define s' where "s' = (if r \<noteq> n then sf\<lparr>runTask := newTask sf\<rparr> else sf)"
  have sw: "OsSchedTaskSwitch s0 = Some (r \<noteq> n, sf)"
    unfolding OsSchedTaskSwitch_eq r0 s2_def [symmetric]
    by (simp only: Let_def top option.case sf_def e_def s6_def s5_def s4_def x_def)
  then have eq: "HalPendSV s = Some s'"
    by (simp add: HalPendSV_def s0_def [symmetric] s'_def)
  have nt: "newTask sf = n" by (simp add: sf_def s6_def s5_def s4_def)
  have rt: "runTask s' = n"
    using nt by (simp add: s'_def) (simp add: sf_def s6_def s5_def s4_def s2_def r0)
  have s5: "sd\<lparr>newTask := n\<rparr> = s5\<lparr>runTask := n\<rparr>" using sd by (simp only: s5_def)
  have f5: "tcb sd = tcb s5" "lst sd = lst s5" "tskSort sd = tskSort s5" "g_queueBitmap sd = g_queueBitmap s5"
      "assertFailed sd = assertFailed s5" "sysCycle sd = sysCycle s5" "g_idleTaskID sd = g_idleTaskID s5"
      "conf sd = conf s5" "g_taskScheduled sd = g_taskScheduled s5" "g_losTaskLock sd = g_losTaskLock s5"
    subgoal using arg_cong [OF s5, of tcb] by simp
    subgoal using arg_cong [OF s5, of lst] by simp
    subgoal using arg_cong [OF s5, of tskSort] by simp
    subgoal using arg_cong [OF s5, of g_queueBitmap] by simp
    subgoal using arg_cong [OF s5, of assertFailed] by simp
    subgoal using arg_cong [OF s5, of sysCycle] by simp
    subgoal using arg_cong [OF s5, of g_idleTaskID] by simp
    subgoal using arg_cong [OF s5, of conf] by simp
    subgoal using arg_cong [OF s5, of g_taskScheduled] by simp
    subgoal using arg_cong [OF s5, of g_losTaskLock] by simp
    done
  have core: "tcb s' = tcb sd" "lst s' = lst sd" "tskSort s' = tskSort sd"
      "g_queueBitmap s' = g_queueBitmap sd" "assertFailed s' = assertFailed sd" "sysCycle s' = sysCycle sd"
      "g_idleTaskID s' = g_idleTaskID sd" "conf s' = conf sd"
      "g_taskScheduled s' = g_taskScheduled sd" "g_losTaskLock s' = g_losTaskLock sd"
    unfolding f5 by (simp_all add: s'_def sf_def s6_def)
  have rtd: "runTask sd = n" by (simp add: sd_def)
  have inv': "sched_inv s'"
    using dis sched_inv_cong [of s' sd] core rt rtd by simp
  have tid: "taskID (tcb s' u) = taskID (tcb s u)" "priority (tcb s' u) = priority (tcb sn u)" for u
    by (simp_all add: core sd_def sn_def s2_def s0_def)
  have idl: "g_idleTaskID s' = g_idleTaskID s" by (simp add: core sd_def sn_def s2_def s0_def)
  have idn: "is_idle sn u = is_idle s' u" for u
    by (simp add: tid idl) (simp add: sn_def s2_def s0_def)
  have un: "hasFlag (status s' u) OS_TASK_STATUS_UNUSED = hasFlag (status s u) OS_TASK_STATUS_UNUSED" for u
    by (auto simp: core sd_def sn_def s2_def switch_out_flags s0_def)
  have rd: "hasFlag (status s' u) OS_TASK_STATUS_READY \<Longrightarrow> hasFlag (status sn u) OS_TASK_STATUS_READY" for u
    using n(2) by (cases "u = n") (simp_all add: core sd_def)
  show ?thesis
  proof (rule that [OF eq inv'])
    show "runTask s' = newTask s'" using rt nt by (simp add: s'_def)
    show "\<not> is_idle s' (runTask s') \<and> unat (priority (tcb s' (runTask s'))) \<le> unat (priority (tcb s' u))"
      if "hasFlag (status s' u) OS_TASK_STATUS_READY \<and> \<not> is_idle s' u" for u
      using n(3) that rd [of u] unfolding rt tid(2) idn [symmetric] by blast
    show "taskID (tcb s' u) = taskID (tcb s u)" for u by (rule tid)
  qed (use idl un in \<open>simp_all add: core sd_def sn_def s2_def s0_def\<close>)
qed

end
