(* ===== verification/Sched_Props.thy ===== *)
theory Sched_Props
  imports Sched_Inv
begin

text \<open>
  The scheduler as a whole: start, switch, tick, timer programming; the properties of the
  scheduler; and a small concrete kernel state on which the witnesses evaluate.
\<close>

section \<open>A concrete state\<close>

text \<open>
  Task 0 is idle, task 1 runs, task 2 is ready at priority 20, task 3 waits on semaphore 0 with a
  timeout, task 4 sleeps; the remaining control blocks are free or unused.
\<close>

definition demo_cb :: "u16 \<Rightarrow> u16 \<Rightarrow> u32 \<Rightarrow> LosTaskCB" where
  "demo_cb st prio tid = \<lparr>stackPointer = 0, taskStatus = st, priority = prio, timeSlice = 0, waitTimes = 3,
     startTime = 400, stackSize = 0x400, topOfStack = 0x1000, taskID = tid, taskEntry = 0x80, taskSem = None,
     taskMux = None, arg = 0, taskName = 0x90, joinRetval = 0, eventMask = 0, eventMode = 0, msg = 0, errorNo = 0\<rparr>"

definition demo_tcb :: "tptr \<Rightarrow> LosTaskCB" where
  "demo_tcb t =
     (if t = 0 then demo_cb OS_TASK_STATUS_READY 31 0
      else if t = 1 then demo_cb OS_TASK_STATUS_RUNNING 10 1
      else if t = 2 then demo_cb OS_TASK_STATUS_READY 20 2
      else if t = 3 then demo_cb (OS_TASK_STATUS_PEND OR OS_TASK_STATUS_PEND_TIME) 5 3
      else if t = 4 then demo_cb OS_TASK_STATUS_DELAY 7 4
      else demo_cb OS_TASK_STATUS_UNUSED 0 (of_nat t))"

definition demo_lst :: "(lhead, tptr) lstore" where
  "demo_lst = \<lparr>ls_nodes = (\<lambda>_. [])(PriQueue 20 := [2], SemList 0 := [3], FreeTask := [5, 6]),
     ls_loc = [2 \<mapsto> PriQueue 20, 3 \<mapsto> SemList 0, 5 \<mapsto> FreeTask, 6 \<mapsto> FreeTask], ls_fault = False\<rparr>"

definition demo_conf :: kconfig where
  "demo_conf = \<lparr>TICK_PER_SECOND = 100, TICK_PER_SECOND_MINI = 1000, TIMESLICE_TIMEOUT = 20000,
     TICK_PERIOD_MAX = 0xFFFFFF, TSK_LIMIT = 6, SYS_HEAP_SIZE = 0x10000, TSK_MIN_STACK_SIZE = 0x100,
     TSK_DEFAULT_STACK_SIZE = 0x400, TSK_IDLE_STACK_SIZE = 0x200, STACK_POINT_ALIGN_SIZE = 8\<rparr>"

definition demo_sched :: ksched where
  "demo_sched = \<lparr>conf = demo_conf, tcb = demo_tcb, lst = demo_lst,
     tskSort = \<lparr>sl_nodes = [4, 3], sl_time = (\<lambda>_. OS_SORT_LINK_INVALID_TIME)(4 := 450, 3 := 2000),
                sl_fault = False\<rparr>,
     swtSort = \<lparr>sl_nodes = [], sl_time = (\<lambda>_. OS_SORT_LINK_INVALID_TIME), sl_fault = False\<rparr>,
     g_queueBitmap = flagBit 11, runTask = 1, newTask = 1, g_taskScheduled = True, g_losTaskLock = 0,
     g_taskMaxNum = 7, g_idleTaskID = 0, g_swtmrTaskID = OS_INVALID, g_schedResponseID = OS_INVALID,
     g_tickIntLock = 0, g_schedResponseTime = OS_SCHED_MAX_RESPONSE_TIME, g_schedTimeSlice = 20000,
     g_schedTimeSliceMin = 50, g_schedTickMinPeriod = 1000, g_tickResponsePrecision = 750,
     g_sysClock = 1000000, g_tickTimerStartTime = 0, sysCycle = 500, intActive = False, pendSV = True,
     assertFailed = False\<rparr>"

lemma demo_sched_simps [simp]:
  "conf demo_sched = demo_conf" "tcb demo_sched = demo_tcb" "lst demo_sched = demo_lst"
  "runTask demo_sched = 1" "g_idleTaskID demo_sched = 0" "sysCycle demo_sched = 500"
  "g_taskScheduled demo_sched" "g_losTaskLock demo_sched = 0" "\<not> intActive demo_sched"
  "g_taskMaxNum demo_sched = 7" "g_swtmrTaskID demo_sched = OS_INVALID"
  "sl_nodes (tskSort demo_sched) = [4, 3]"
  "sl_time (tskSort demo_sched) = (\<lambda>_. OS_SORT_LINK_INVALID_TIME)(4 := 450, 3 := 2000)"
  by (simp_all add: demo_sched_def)

lemma demo_lst_wf: "ls_wf demo_lst"
  by (auto simp: ls_wf_def demo_lst_def)

lemma demo_sched_inv: "sched_inv demo_sched"
proof -
  have "sl_wf (tskSort demo_sched)"
    by (simp add: sl_wf_def demo_sched_def sl_sorted_def OS_SORT_LINK_INVALID_TIME_def)
  moreover have "bitmap_ok (flagBit 11) (ls_nodes demo_lst)"
    by (auto simp: bitmap_ok_def bit_flagBit demo_lst_def)
  moreover have "task_ok demo_sched t" for t
    by (cases "t \<in> {0, 1, 2, 3, 4, 5, 6}")
      (auto simp: tok_def demo_tcb_def demo_cb_def demo_lst_def)
  moreover have "startTime (demo_tcb u) \<le> 500" for u
    by (simp add: demo_tcb_def demo_cb_def)
  ultimately show ?thesis
    using demo_lst_wf by (simp add: sched_inv_def) (simp add: demo_sched_def)
qed

lemma demo_idle_ok: "idle_ok demo_sched"
  by (simp add: idle_ok_def OS_TCB_FROM_TID_def demo_tcb_def demo_cb_def)

lemma demo_clock_ok: "clock_ok demo_sched"
  by (simp add: clock_ok_def demo_conf_def)

section \<open>The switch\<close>

text \<open>C4: the task switch.  From every state that satisfies the scheduler invariant, the switch
  exception finds a task to run (it never takes a list head for a task), the invariant holds again
  afterwards, and no ready task is more urgent than the one that now runs; the idle task runs only
  when no other task is ready.\<close>

theorem HalPendSV_runs_most_urgent:
  assumes "sched_inv s" and "idle_ok s" and "clock_ok s"
  shows "\<exists>s'. HalPendSV s = Some s' \<and> sched_inv s' \<and> idle_ok s' \<and> runTask s' = newTask s' \<and>
     (\<forall>u. hasFlag (status s' u) OS_TASK_STATUS_READY \<and> \<not> is_idle s' u \<longrightarrow>
        \<not> is_idle s' (runTask s') \<and> unat (priority (tcb s' (runTask s'))) \<le> unat (priority (tcb s' u)))"
proof -
  obtain s' where s': "HalPendSV s = Some s'" "sched_inv s'" "runTask s' = newTask s'"
    "\<And>u. hasFlag (status s' u) OS_TASK_STATUS_READY \<and> \<not> is_idle s' u \<Longrightarrow>
       \<not> is_idle s' (runTask s') \<and> unat (priority (tcb s' (runTask s'))) \<le> unat (priority (tcb s' u))"
    "\<And>u. taskID (tcb s' u) = taskID (tcb s u)" "g_idleTaskID s' = g_idleTaskID s"
    "\<And>u. hasFlag (status s' u) OS_TASK_STATUS_UNUSED = hasFlag (status s u) OS_TASK_STATUS_UNUSED"
    by (rule HalPendSV_correct [OF assms]) blast
  have "idle_ok s'" using assms(2) s'(5-7) by (simp add: idle_ok_def)
  then show ?thesis using s'(1-4) by blast
qed

theorem HalPendSV_runs_most_urgent_witness:
  "\<exists>s'. HalPendSV demo_sched = Some s' \<and> sched_inv s' \<and> idle_ok s'"
  using HalPendSV_runs_most_urgent [OF demo_sched_inv demo_idle_ok demo_clock_ok] by blast

text \<open>The reference: look at the queues one after the other, from the most urgent one.\<close>

fun first_task :: "(nat \<Rightarrow> tptr list) \<Rightarrow> nat list \<Rightarrow> tptr option" where
  "first_task Q [] = None"
| "first_task Q (p # ps) = (case Q p of [] \<Rightarrow> first_task Q ps | t # _ \<Rightarrow> Some t)"

lemma first_task_least:
  assumes "n \<le> p" and "Q p = t # ts" and "\<And>i. n \<le> i \<Longrightarrow> i < p \<Longrightarrow> Q i = []" and "p < m"
  shows "first_task Q [n..<m] = Some t"
  using assms
proof (induction "p - n" arbitrary: n)
  case 0
  then show ?case by (simp add: upt_conv_Cons)
next
  case (Suc d)
  then show ?case using Suc(1) [of "Suc n"] by (simp add: upt_conv_Cons)
qed

lemma first_task_none: "(\<And>i. i \<in> set ps \<Longrightarrow> Q i = []) \<Longrightarrow> first_task Q ps = None"
  by (induction ps) simp_all

text \<open>C38: the selection of the next task by the bitmap and \<open>CLZ\<close> is the search through all 32 ready queues from
  priority 0 on, and the idle task when they are all empty.\<close>

theorem OsGetTopTask_linear:
  assumes "sched_inv s"
  shows "OsGetTopTask s = Some (case first_task (\<lambda>p. ls_nodes (lst s) (PriQueue p)) [0..<32] of
      Some t \<Rightarrow> t | None \<Rightarrow> OS_TCB_FROM_TID (g_idleTaskID s))"
proof -
  have bm: "bitmap_ok (g_queueBitmap s) (ls_nodes (lst s))" using assms by (simp add: sched_inv_def)
  show ?thesis
  proof (cases "g_queueBitmap s = 0")
    case True
    have "ls_nodes (lst s) (PriQueue p) = []" if "p \<in> set [0..<32]" for p
      using bitmap_zero [of "ls_nodes (lst s)" p] bm True that by simp
    then have "first_task (\<lambda>p. ls_nodes (lst s) (PriQueue p)) [0..<32] = None" by (rule first_task_none)
    then show ?thesis using True by (simp add: OsGetTopTask_def)
  next
    case False
    note top = bitmap_top [OF bm False]
    then obtain t ts where q: "ls_nodes (lst s) (PriQueue (CLZ (g_queueBitmap s))) = t # ts"
      by (meson neq_Nil_conv)
    then show ?thesis
      using first_task_least [of 0 "CLZ (g_queueBitmap s)" "\<lambda>p. ls_nodes (lst s) (PriQueue p)" t ts 32] top False
      by (simp add: OsGetTopTask_def)
  qed
qed

theorem OsGetTopTask_linear_witness: "OsGetTopTask demo_sched = first_task (\<lambda>p. ls_nodes (lst demo_sched) (PriQueue p)) [0..<32]"
proof -
  have "first_task (\<lambda>p. ls_nodes (lst demo_sched) (PriQueue p)) [0..<32] \<noteq> None"
    by (simp add: demo_lst_def upt_rec)
  then show ?thesis using OsGetTopTask_linear [OF demo_sched_inv] by auto
qed

section \<open>Expiry of sleepers\<close>

text \<open>C5: the scan of the tick handler wakes exactly the tasks that are due.  Every task on the sort
  link whose response time has come leaves the link with its waiting and sleeping flags cleared,
  becomes ready unless it is suspended, and has the timeout flag set if it was waiting; every other
  task keeps its control block and its place on the link.  The invariant is kept.\<close>

theorem OsSchedScanTimerList_wakes_due:
  assumes "sched_inv s"
  shows "let s' = fst (OsSchedScanTimerList s) in
     sched_inv s' \<and>
     (\<forall>t. if t \<in> set (sl_nodes (tskSort s)) \<and> sl_time (tskSort s) t \<le> sysCycle s
          then t \<notin> set (sl_nodes (tskSort s')) \<and>
               \<not> hasFlag (status s' t) (OS_TASK_STATUS_PEND OR OS_TASK_STATUS_PEND_TIME OR OS_TASK_STATUS_DELAY) \<and>
               hasFlag (status s' t) OS_TASK_STATUS_READY = (\<not> hasFlag (status s t) OS_TASK_STATUS_SUSPEND) \<and>
               (hasFlag (status s t) OS_TASK_STATUS_PEND \<longrightarrow> hasFlag (status s' t) OS_TASK_STATUS_TIMEOUT)
          else tcb s' t = tcb s t \<and> (t \<in> set (sl_nodes (tskSort s')) \<longleftrightarrow> t \<in> set (sl_nodes (tskSort s))))"
proof -
  define s' where "s' = fst (OsSchedScanTimerList s)"
  note spec = scan_timer_loop_spec [OF assms, of "sysCycle s" False, folded OsSchedScanTimerList_def,
      folded s'_def, unfolded Let_def]
  have flags: "\<not> hasFlag (wake_status st) (OS_TASK_STATUS_PEND OR OS_TASK_STATUS_PEND_TIME OR OS_TASK_STATUS_DELAY)"
    "\<not> hasFlag st OS_TASK_STATUS_READY \<Longrightarrow>
       hasFlag (wake_status st) OS_TASK_STATUS_READY = (\<not> hasFlag st OS_TASK_STATUS_SUSPEND)"
    "hasFlag st OS_TASK_STATUS_PEND \<Longrightarrow> hasFlag (wake_status st) OS_TASK_STATUS_TIMEOUT" for st
    by (auto simp: wake_status_def Let_def)
  have nr: "\<not> hasFlag (status s t) OS_TASK_STATUS_READY" if "t \<in> set (sl_nodes (tskSort s))" for t
    using tok_readyD(10) [OF sched_inv_task [OF assms, of t]] that by blast
  show ?thesis
    unfolding Let_def s'_def [symmetric]
  proof (intro conjI allI)
    show "sched_inv s'" using spec by blast
    fix t
    show "if t \<in> set (sl_nodes (tskSort s)) \<and> sl_time (tskSort s) t \<le> sysCycle s
          then t \<notin> set (sl_nodes (tskSort s')) \<and>
               \<not> hasFlag (status s' t) (OS_TASK_STATUS_PEND OR OS_TASK_STATUS_PEND_TIME OR OS_TASK_STATUS_DELAY) \<and>
               hasFlag (status s' t) OS_TASK_STATUS_READY = (\<not> hasFlag (status s t) OS_TASK_STATUS_SUSPEND) \<and>
               (hasFlag (status s t) OS_TASK_STATUS_PEND \<longrightarrow> hasFlag (status s' t) OS_TASK_STATUS_TIMEOUT)
          else tcb s' t = tcb s t \<and> (t \<in> set (sl_nodes (tskSort s')) \<longleftrightarrow> t \<in> set (sl_nodes (tskSort s)))"
      using spec flags(1,2,3) [of "status s t"] nr [of t] by (simp split: if_splits)
  qed
qed

theorem OsSchedScanTimerList_wakes_due_witness:
  "hasFlag (status (fst (OsSchedScanTimerList demo_sched)) 4) OS_TASK_STATUS_READY \<and>
   3 \<in> set (sl_nodes (tskSort (fst (OsSchedScanTimerList demo_sched))))"
proof -
  note r = OsSchedScanTimerList_wakes_due [OF demo_sched_inv, unfolded Let_def]
  show ?thesis
    using spec [OF conjunct2 [OF r], of 4] spec [OF conjunct2 [OF r], of 3]
    by (simp add: demo_tcb_def demo_cb_def)
qed

section \<open>Programming the timer\<close>

lemma OsGetNextExpireTime_le:
  assumes "sl_wf (tskSort s)" and "t \<in> set (sl_nodes (tskSort s))"
    and "unat start + unat prec < 2 ^ 64"
  shows "unat (OsGetNextExpireTime start prec s) \<le> max (unat (sl_time (tskSort s) t)) (unat start + unat prec)"
proof -
  obtain x xs where sl: "sl_nodes (tskSort s) = x # xs" using assms(2) by (cases "sl_nodes (tskSort s)") auto
  have x: "sl_time (tskSort s) x \<le> sl_time (tskSort s) t"
    using assms(1,2) sl by (auto simp: sl_wf_def sl_sorted_def)
  have sum: "unat (start + ucast prec) = unat start + unat prec"
    using assms(3) by (simp add: unat_word_ariths unat_ucast_up)
  have "OsGetNextExpireTime start prec s \<le> GetSortLinkNextExpireTime (tskSort s) start prec"
    by (auto simp: OsGetNextExpireTime_def Let_def not_less)
  moreover have "unat (GetSortLinkNextExpireTime (tskSort s) start prec) \<le>
      max (unat (sl_time (tskSort s) t)) (unat start + unat prec)"
    using x sum by (auto simp: GetSortLinkNextExpireTime_def sl word_le_nat_alt)
  ultimately show ?thesis by (simp add: word_le_nat_alt)
qed

lemma GetSortLinkNextExpireTime_ge:
  assumes "unat now < 2 ^ 63"
  shows "now \<le> GetSortLinkNextExpireTime sl now prec"
proof -
  have p: "unat (ucast prec :: u64) = unat prec" "unat prec < 2 ^ 32"
    using unsigned_less [of prec] by (simp_all add: unat_ucast_up)
  have sum: "unat (now + ucast prec) = unat now + unat prec"
    using assms p by (simp add: unat_word_ariths)
  have mx: "unat (OS_SORT_LINK_UINT64_MAX - ucast prec) = 2 ^ 64 - 1 - unat prec"
    using p by (simp add: OS_SORT_LINK_UINT64_MAX_def unat_sub word_le_nat_alt
        unsigned_minus_1_eq_mask mask_eq_exp_minus_1)
  show ?thesis
    using assms p sum mx
    by (auto simp: GetSortLinkNextExpireTime_def word_le_nat_alt split: list.splits)
qed




definition demo_past :: ksched where
  "demo_past = demo_sched\<lparr>tskSort := \<lparr>sl_nodes = [3], sl_time = (\<lambda>_. OS_SORT_LINK_INVALID_TIME)(3 := 2000),
     sl_fault = False\<rparr>\<rparr>"


section \<open>Start and tick\<close>

lemma norun_of_unused:
  assumes "sched_inv s" and "hasFlag (status s (runTask s)) OS_TASK_STATUS_UNUSED"
  shows "norun_inv s"
proof -
  have "tok idle False c l insl void"
    if "tok idle True c l insl void" "hasFlag (taskStatus c) OS_TASK_STATUS_UNUSED" for idle c l insl void
    using that unfolding tok_def by auto
  then have "tok (g_idleTaskID s) False (tcb s u) (ls_loc (lst s) u) (u \<in> set (sl_nodes (tskSort s)))
        (sl_time (tskSort s) u = OS_SORT_LINK_INVALID_TIME)" for u
    using sched_inv_task [OF assms(1), of u] assms(2) by (cases "u = runTask s") auto
  then show ?thesis using assms(1) by (simp add: norun_inv_def sched_inv_def)
qed

text \<open>
  What the tick handler relies on about the software timers, whose scan it calls: in a good state
  the scan returns, in a good state and without moving the clock; and what the handler itself does
  (the scan of the sleeping tasks, the accounting of the time slice, its own variables) keeps the
  state good.
\<close>

locale timer_client =
  fixes scan :: "'m \<times> ksched \<Rightarrow> ('m \<times> ksched) option" and good :: "'m \<times> ksched \<Rightarrow> bool"
  assumes good_sched: "good (m, s) \<Longrightarrow> sched_inv s"
    and scan_returns: "good (m, s) \<Longrightarrow> g_tickIntLock s \<noteq> 0 \<Longrightarrow>
      \<exists>m' s'. scan (m, s) = Some (m', s') \<and> good (m', s') \<and> sysCycle s' = sysCycle s"
    and good_tasks: "good (m, s) \<Longrightarrow> good (m, fst (OsSchedScanTimerList s))"
    and good_slice: "good (m, s) \<Longrightarrow> good (m, OsTimeSliceUpdate (runTask s) (sysCycle s) s)"
    and good_start: "good (m, s) \<Longrightarrow> good (m, mod_task (runTask s) (\<lambda>c. c\<lparr>startTime := sysCycle s\<rparr>) s)"
    and good_vars: "good (m, s\<lparr>g_tickIntLock := l\<rparr>) = good (m, s)"
      "good (m, s\<lparr>g_schedResponseTime := x\<rparr>) = good (m, s)"
      "good (m, ArchTaskSchedule s) = good (m, s)"
      "good (m, OsSchedUpdateExpireTime s) = good (m, s)"
begin

lemma tick_keeps_invariant:
  assumes g: "good (m, s)" and l: "g_tickIntLock s = 0"
  shows "\<exists>m' s'. LOS_SchedTickHandler (Some scan) (m, s) = Some (m', s') \<and> good (m', s')"
proof (cases "g_taskScheduled s")
  case True
  let ?a = "s\<lparr>g_tickIntLock := g_tickIntLock s + 1\<rparr>"
  have "good (m, ?a)" "g_tickIntLock ?a \<noteq> 0" using g l by (simp_all add: good_vars)
  then obtain m1 b where b: "scan (m, ?a) = Some (m1, b)" "good (m1, b)" "sysCycle b = sysCycle s"
    using scan_returns [of m ?a] by auto
  let ?c = "fst (OsSchedScanTimerList b)"
  have c: "good (m1, ?c)" by (rule good_tasks [OF b(2)])
  have cyc: "sysCycle ?c = sysCycle s"
    using scan_timer_loop_spec [OF good_sched [OF b(2)], of "sysCycle b" False] b(3)
    by (simp add: OsSchedScanTimerList_def Let_def)
  obtain m2 s1 where s1: "(if g_schedResponseID s = OS_INVALID then Some (m1, ?c\<lparr>g_tickIntLock := g_tickIntLock ?c - 1\<rparr>)
      else Some (m, s)) = Some (m2, s1)" "good (m2, s1)" "sysCycle s1 = sysCycle s"
    using g c cyc by (cases "g_schedResponseID s = OS_INVALID") (simp_all add: good_vars)
  let ?s2 = "OsTimeSliceUpdate (runTask s1) (sysCycle s1) s1"
  let ?s3 = "mod_task (runTask ?s2) (\<lambda>c. c\<lparr>startTime := sysCycle ?s2\<rparr>) ?s2"
  have "good (m2, ?s3)" by (rule good_start [OF good_slice [OF s1(2)]])
  moreover have "LOS_SchedTickHandler (Some scan) (m, s) =
      (let s4 = ?s3\<lparr>g_schedResponseTime := OS_SCHED_MAX_RESPONSE_TIME\<rparr>
       in Some (m2, if g_losTaskLock s4 = 0 then ArchTaskSchedule s4 else OsSchedUpdateExpireTime s4))"
    using True b(1) s1(1,3) by (cases "g_schedResponseID s = OS_INVALID") (auto simp: LOS_SchedTickHandler_def Let_def)
  ultimately show ?thesis by (simp add: Let_def good_vars)
qed (simp add: LOS_SchedTickHandler_def g)

end

text \<open>A kernel that is configured without software timers.\<close>

interpretation no_timers: timer_client Some "\<lambda>(m, s). sched_inv s"
proof unfold_locales
  show "case (m, s) of (m, s) \<Rightarrow> sched_inv s \<Longrightarrow>
      case (m, fst (OsSchedScanTimerList s)) of (m, s) \<Rightarrow> sched_inv s" for m :: 'a and s
    using scan_timer_loop_spec [of s "sysCycle s" False] by (simp add: OsSchedScanTimerList_def Let_def)
  show "case (m, s) of (m, s) \<Rightarrow> sched_inv s \<Longrightarrow>
      case (m, OsTimeSliceUpdate (runTask s) (sysCycle s) s) of (m, s) \<Rightarrow> sched_inv s" for m :: 'a and s
    by (simp add: OsTimeSliceUpdate_inv sched_inv_start)
qed (simp_all add: sched_inv_mod_task ArchTaskSchedule_def)

end
