(* ===== verification/Wait_Queue.thy ===== *)
theory Wait_Queue
  imports Sched_Props
begin

text \<open>
  The interface between the scheduler and the objects a task can wait on (semaphores, mutexes,
  events, message queues, the join list of a task): \<open>OsSchedTaskWait\<close> puts the running task at the
  end of the wait list of the object, \<open>OsSchedTaskWake\<close> takes a task off its wait list.  The locale
  states the contract, its lemmas derive what the clients use, and the interpretation discharges
  it for the scheduler model.
\<close>

section \<open>The contract\<close>

locale wait_queue =
  fixes ok :: "'s \<Rightarrow> bool" and can_wait :: "'s \<Rightarrow> bool" and cur :: "'s \<Rightarrow> 't"
    and waiters :: "'s \<Rightarrow> 'h \<Rightarrow> 't list" and waitable :: "'h \<Rightarrow> bool"
    and wait :: "'h \<Rightarrow> u32 \<Rightarrow> 's \<Rightarrow> 's" and wake :: "'t \<Rightarrow> 's \<Rightarrow> 's"
  assumes wait_ok: "ok s \<Longrightarrow> can_wait s \<Longrightarrow> waitable h \<Longrightarrow> ok (wait h n s)"
    and wait_waiters: "ok s \<Longrightarrow> can_wait s \<Longrightarrow> waitable h \<Longrightarrow> waitable k \<Longrightarrow>
      waiters (wait h n s) k = (if k = h then waiters s h @ [cur s] else waiters s k)"
    and wake_ok: "ok s \<Longrightarrow> waitable h \<Longrightarrow> t \<in> set (waiters s h) \<Longrightarrow> ok (wake t s)"
    and wake_waiters: "ok s \<Longrightarrow> waitable h \<Longrightarrow> t \<in> set (waiters s h) \<Longrightarrow> waitable k \<Longrightarrow>
      waiters (wake t s) k = (if k = h then remove1 t (waiters s h) else waiters s k)"
    and distinct_waiters: "ok s \<Longrightarrow> waitable h \<Longrightarrow> distinct (waiters s h)"
begin

lemma wake_first:
  assumes "ok s" and "waitable h" and "waiters s h = t # ts"
  shows "ok (wake t s)" and "waiters (wake t s) h = ts"
    and "\<And>k. waitable k \<Longrightarrow> k \<noteq> h \<Longrightarrow> waiters (wake t s) k = waiters s k"
  using assms wake_ok [of s h t] wake_waiters [of s h t] by simp_all

text \<open>The task at the front stays there while others join the queue.\<close>

lemma wait_keeps_first:
  assumes "ok s" and "can_wait s" and "waitable h" and "waitable k" and "waiters s k = t # ts"
  shows "\<exists>us. waiters (wait h n s) k = t # us"
  using wait_waiters [OF assms(1-4)] assms(5) by (cases "k = h") auto

text \<open>Waking a selection of the waiters leaves the others, in their order.\<close>

lemma wake_selected:
  assumes "ok s" and "waitable h" and "set ws \<subseteq> set (waiters s h)" and "distinct ws"
  shows "ok (fold wake ws s) \<and> (\<forall>k. waitable k \<longrightarrow>
    waiters (fold wake ws s) k = (if k = h then filter (\<lambda>t. t \<notin> set ws) (waiters s h) else waiters s k))"
  using assms
proof (induction ws arbitrary: s)
  case Nil
  then show ?case by simp
next
  case (Cons t ws)
  have t: "t \<in> set (waiters s h)" using Cons.prems by simp
  have d: "distinct (waiters s h)" using distinct_waiters [OF Cons.prems(1,2)] .
  have w: "waiters (wake t s) h = remove1 t (waiters s h)"
    using wake_waiters [OF Cons.prems(1,2) t Cons.prems(2)] by simp
  have sub: "set ws \<subseteq> set (waiters (wake t s) h)"
    using Cons.prems d w by auto
  have dw: "distinct ws" using Cons.prems by simp
  have f: "filter (\<lambda>u. u \<notin> set ws) (remove1 t (waiters s h)) = filter (\<lambda>u. u \<notin> set (t # ws)) (waiters s h)"
    using d by (simp add: distinct_remove1_removeAll removeAll_filter_not_eq) (rule filter_cong, auto)
  show ?case
    using Cons.IH [OF wake_ok [OF Cons.prems(1,2) t] Cons.prems(2) sub dw]
      wake_waiters [OF Cons.prems(1,2) t] w f by simp
qed

end

section \<open>The scheduler provides it\<close>

definition can_block :: "ksched \<Rightarrow> bool" where
  "can_block s \<longleftrightarrow> \<not> is_idle s (runTask s) \<and>
     \<not> hasFlag (status s (runTask s)) (OS_TASK_STATUS_UNUSED OR OS_TASK_STATUS_EXIT OR
        OS_TASK_STATUS_PEND OR OS_TASK_STATUS_DELAY)"

lemma TaskWait_tcb:
  "tcb (OsSchedTaskWait h n s) =
     (tcb s)(runTask s := (tcb s (runTask s))\<lparr>
        taskStatus := (if n = LOS_WAIT_FOREVER then setFlag (status s (runTask s)) OS_TASK_STATUS_PEND
                       else setFlag (setFlag (status s (runTask s)) OS_TASK_STATUS_PEND) OS_TASK_STATUS_PEND_TIME),
        waitTimes := (if n = LOS_WAIT_FOREVER then waitTimes (tcb s (runTask s)) else n)\<rparr>)"
  by (simp add: OsSchedTaskWait_def Let_def)

lemma TaskWait_frame [simp]:
  "lst (OsSchedTaskWait h n s) = ls_tail h (runTask s) (lst s)"
  "conf (OsSchedTaskWait h n s) = conf s" "tskSort (OsSchedTaskWait h n s) = tskSort s"
  "swtSort (OsSchedTaskWait h n s) = swtSort s" "runTask (OsSchedTaskWait h n s) = runTask s"
  "g_idleTaskID (OsSchedTaskWait h n s) = g_idleTaskID s" "g_losTaskLock (OsSchedTaskWait h n s) = g_losTaskLock s"
  "g_taskScheduled (OsSchedTaskWait h n s) = g_taskScheduled s" "intActive (OsSchedTaskWait h n s) = intActive s"
  "g_taskMaxNum (OsSchedTaskWait h n s) = g_taskMaxNum s" "g_swtmrTaskID (OsSchedTaskWait h n s) = g_swtmrTaskID s"
  "sysCycle (OsSchedTaskWait h n s) = sysCycle s" "pendSV (OsSchedTaskWait h n s) = pendSV s"
  "g_sysClock (OsSchedTaskWait h n s) = g_sysClock s"
  by (simp_all add: OsSchedTaskWait_def Let_def)

lemma TaskWait_fields [simp]:
  "taskID (tcb (OsSchedTaskWait h n s) u) = taskID (tcb s u)"
  "priority (tcb (OsSchedTaskWait h n s) u) = priority (tcb s u)"
  "taskSem (tcb (OsSchedTaskWait h n s) u) = taskSem (tcb s u)"
  "taskMux (tcb (OsSchedTaskWait h n s) u) = taskMux (tcb s u)"
  "eventMask (tcb (OsSchedTaskWait h n s) u) = eventMask (tcb s u)"
  "eventMode (tcb (OsSchedTaskWait h n s) u) = eventMode (tcb s u)"
  by (simp_all add: TaskWait_tcb)

text \<open>\<open>LOS_Schedule\<close> only pends the switch exception.\<close>

lemma LOS_Schedule_frame [simp]:
  "lst (LOS_Schedule s) = lst s" "tcb (LOS_Schedule s) = tcb s" "runTask (LOS_Schedule s) = runTask s"
  "tskSort (LOS_Schedule s) = tskSort s" "swtSort (LOS_Schedule s) = swtSort s" "conf (LOS_Schedule s) = conf s"
  "g_idleTaskID (LOS_Schedule s) = g_idleTaskID s" "g_taskMaxNum (LOS_Schedule s) = g_taskMaxNum s"
  "g_taskScheduled (LOS_Schedule s) = g_taskScheduled s" "g_losTaskLock (LOS_Schedule s) = g_losTaskLock s"
  "sysCycle (LOS_Schedule s) = sysCycle s" "intActive (LOS_Schedule s) = intActive s"
  "g_swtmrTaskID (LOS_Schedule s) = g_swtmrTaskID s"
  by (simp_all add: LOS_Schedule_def ArchTaskSchedule_def)

text \<open>The status word \<open>OsSchedTaskWake\<close> leaves.\<close>

definition woken_status :: "u16 \<Rightarrow> u16" where
  "woken_status st =
     (let st' = clrFlag st (OS_TASK_STATUS_PEND OR OS_TASK_STATUS_PEND_TIME)
      in if hasFlag st OS_TASK_STATUS_SUSPEND \<or> hasFlag st OS_TASK_STATUS_RUNNING then st' else enq_status st')"

lemma clrFlag_OR: "clrFlag (clrFlag st a) b = clrFlag st (a OR b)"
  by (rule bit_word_eqI) (auto simp: clrFlag_def bit_and_iff bit_or_iff bit_not_iff)

lemma clrFlag_absent: "\<not> hasFlag st (flagBit n) \<Longrightarrow> clrFlag st (flagBit n) = st"
  by (rule bit_word_eqI) (auto simp: clrFlag_def hasFlag_flagBit bit_and_iff bit_not_iff bit_flagBit)

lemma woken_base:
  "(if hasFlag (clrFlag st OS_TASK_STATUS_PEND) OS_TASK_STATUS_PEND_TIME
    then clrFlag (clrFlag st OS_TASK_STATUS_PEND) OS_TASK_STATUS_PEND_TIME
    else clrFlag st OS_TASK_STATUS_PEND) = clrFlag st (OS_TASK_STATUS_PEND OR OS_TASK_STATUS_PEND_TIME)"
  using clrFlag_absent [of "clrFlag st OS_TASK_STATUS_PEND" 7] by (auto simp: clrFlag_OR [symmetric])

text \<open>The state \<open>OsSchedTaskWake\<close> reaches before it makes the task ready.\<close>

definition wake_base :: "tptr \<Rightarrow> ksched \<Rightarrow> ksched" where
  "wake_base t s =
     (let s1 = clr_status t OS_TASK_STATUS_PEND (mod_lst (ls_del t) s)
      in if hasFlag (status s1 t) OS_TASK_STATUS_PEND_TIME
         then clr_status t OS_TASK_STATUS_PEND_TIME (OsDeleteSortLink t s1) else s1)"

lemma OsSchedTaskWake_base:
  "OsSchedTaskWake t s =
     (if \<not> hasFlag (status s t) OS_TASK_STATUS_SUSPEND \<and> \<not> hasFlag (status s t) OS_TASK_STATUS_RUNNING
      then OsSchedTaskEnQueue t (wake_base t s) else wake_base t s)"
  by (simp add: OsSchedTaskWake_def wake_base_def Let_def)

lemma wake_base_tcb:
  "tcb (wake_base t s) = (tcb s)(t := (tcb s t)\<lparr>taskStatus :=
     clrFlag (status s t) (OS_TASK_STATUS_PEND OR OS_TASK_STATUS_PEND_TIME)\<rparr>)"
  using woken_base [of "status s t"] by (auto simp: wake_base_def Let_def)

lemma wake_base_frame [simp]:
  "lst (wake_base t s) = ls_del t (lst s)"
  "conf (wake_base t s) = conf s" "swtSort (wake_base t s) = swtSort s" "runTask (wake_base t s) = runTask s"
  "g_idleTaskID (wake_base t s) = g_idleTaskID s" "g_losTaskLock (wake_base t s) = g_losTaskLock s"
  "g_taskScheduled (wake_base t s) = g_taskScheduled s" "intActive (wake_base t s) = intActive s"
  "g_taskMaxNum (wake_base t s) = g_taskMaxNum s" "g_swtmrTaskID (wake_base t s) = g_swtmrTaskID s"
  "sysCycle (wake_base t s) = sysCycle s" "pendSV (wake_base t s) = pendSV s"
  "g_sysClock (wake_base t s) = g_sysClock s"
  by (simp_all add: wake_base_def Let_def)

lemma TaskWake_status:
  "status (OsSchedTaskWake t s) = (status s)(t := woken_status (status s t))"
  by (auto simp: OsSchedTaskWake_base wake_base_tcb woken_status_def Let_def)

lemma TaskWake_status_at:
  "status (OsSchedTaskWake t s) u = (if u = t then woken_status (status s t) else status s u)"
  using fun_cong [OF TaskWake_status, of t s u] by simp

lemma TaskWake_frame [simp]:
  "conf (OsSchedTaskWake t s) = conf s" "swtSort (OsSchedTaskWake t s) = swtSort s"
  "runTask (OsSchedTaskWake t s) = runTask s" "g_idleTaskID (OsSchedTaskWake t s) = g_idleTaskID s"
  "g_losTaskLock (OsSchedTaskWake t s) = g_losTaskLock s" "g_taskScheduled (OsSchedTaskWake t s) = g_taskScheduled s"
  "intActive (OsSchedTaskWake t s) = intActive s" "g_taskMaxNum (OsSchedTaskWake t s) = g_taskMaxNum s"
  "g_swtmrTaskID (OsSchedTaskWake t s) = g_swtmrTaskID s" "sysCycle (OsSchedTaskWake t s) = sysCycle s"
  "pendSV (OsSchedTaskWake t s) = pendSV s" "g_sysClock (OsSchedTaskWake t s) = g_sysClock s"
  by (simp_all add: OsSchedTaskWake_base)

lemma TaskWake_fields [simp]:
  "taskID (tcb (OsSchedTaskWake t s) u) = taskID (tcb s u)"
  "priority (tcb (OsSchedTaskWake t s) u) = priority (tcb s u)"
  "taskSem (tcb (OsSchedTaskWake t s) u) = taskSem (tcb s u)"
  "taskMux (tcb (OsSchedTaskWake t s) u) = taskMux (tcb s u)"
  "eventMask (tcb (OsSchedTaskWake t s) u) = eventMask (tcb s u)"
  "eventMode (tcb (OsSchedTaskWake t s) u) = eventMode (tcb s u)"
  by (simp_all add: OsSchedTaskWake_base wake_base_tcb)

lemma TaskWake_nodes:
  assumes "ls_loc (lst s) t = Some h" and "is_wait h" and "is_wait k"
  shows "ls_nodes (lst (OsSchedTaskWake t s)) k =
     (if k = h then remove1 t (ls_nodes (lst s) h) else ls_nodes (lst s) k)"
proof -
  have d: "ls_loc (ls_del t (lst s)) t = None" "ls_nodes (ls_del t (lst s)) k =
     (if k = h then remove1 t (ls_nodes (lst s) h) else ls_nodes (lst s) k)"
    using assms(1) by (simp_all add: ls_del_def)
  then show ?thesis
    using assms(3) EnQueue_nodes [of "wake_base t s" t]
    by (auto simp: OsSchedTaskWake_base Let_def)
qed

lemma mod_task_inv [simp]:
  "sched_inv s \<Longrightarrow> sched_inv (mod_task t (\<lambda>c. c\<lparr>taskSem := x\<rparr>) s)"
  "sched_inv s \<Longrightarrow> sched_inv (mod_task t (\<lambda>c. c\<lparr>taskMux := x\<rparr>) s)"
  "sched_inv s \<Longrightarrow> sched_inv (mod_task t (\<lambda>c. c\<lparr>eventMask := y\<rparr>) s)"
  "sched_inv s \<Longrightarrow> sched_inv (mod_task t (\<lambda>c. c\<lparr>eventMode := y\<rparr>) s)"
  by (simp_all add: sched_inv_mod_task sched_inv_start)

lemma waiter_pend:
  assumes "sched_inv s" and "is_wait h" and "t \<in> set (ls_nodes (lst s) h)"
  shows "hasFlag (status s t) OS_TASK_STATUS_PEND"
proof -
  have "ls_loc (lst s) t = Some h" using assms by (simp add: sched_inv_def ls_wf_loc)
  then show ?thesis using tok_waitD [OF _ assms(2)] sched_inv_task [OF assms(1), of t] by metis
qed

text \<open>Flags the scheduler does not look at can be changed freely.\<close>

lemma tok_flags:
  assumes "\<And>n. n \<in> {0, 1, 2, 3, 4, 5, 7, 8, 14} \<Longrightarrow>
    hasFlag st' (flagBit n :: u16) = hasFlag (taskStatus c) (flagBit n)"
  shows "tok idle run (c\<lparr>taskStatus := st'\<rparr>) l insl void = tok idle run c l insl void"
proof -
  have f: "hasFlag st' (flagBit n :: u16) = hasFlag (taskStatus c) (flagBit n)"
    if "n = 0 \<or> n = 1 \<or> n = 2 \<or> n = 3 \<or> n = 4 \<or> n = 5 \<or> n = 7 \<or> n = 8 \<or> n = 14" for n
    using assms that by auto
  have "loc_ok i p st' l = loc_ok i p (taskStatus c) l" for i p
    by (rule loc_ok_cong) (simp_all add: f)
  then show ?thesis by (simp add: tok_def f)
qed

lemma sched_inv_flags:
  assumes "sched_inv s" and "\<And>n. n \<in> {0, 1, 2, 3, 4, 5, 7, 8, 14} \<Longrightarrow>
    hasFlag (f (status s t)) (flagBit n) = hasFlag (status s t) (flagBit n)"
  shows "sched_inv (mod_task t (\<lambda>c. c\<lparr>taskStatus := f (taskStatus c)\<rparr>) s)"
proof (rule sched_invI [where t = t])
  show "inv_but (mod_task t (\<lambda>c. c\<lparr>taskStatus := f (taskStatus c)\<rparr>) s) t"
    by (rule inv_but_mod [OF sched_inv_but [OF assms(1)]]) simp
  show "task_ok (mod_task t (\<lambda>c. c\<lparr>taskStatus := f (taskStatus c)\<rparr>) s) t"
    using sched_inv_task [OF assms(1), of t] tok_flags [OF assms(2)] by simp
qed

interpretation wq: wait_queue sched_inv can_block runTask "\<lambda>s. ls_nodes (lst s)" is_wait
  OsSchedTaskWait OsSchedTaskWake
proof unfold_locales
  fix s :: ksched and h k n t
  assume inv: "sched_inv s"
  have wf: "ls_wf (lst s)" using inv by (simp add: sched_inv_def)
  show "distinct (ls_nodes (lst s) h)" using wf by (rule ls_wf_distinct)
  have r: "ls_loc (lst s) (runTask s) = None" if "can_block s"
    using tok_no_list [OF sched_inv_task [OF inv, of "runTask s"]] tok_readyD(9) [OF sched_inv_task [OF inv, of "runTask s"]]
      that by (auto simp: can_block_def)
  show "sched_inv (OsSchedTaskWait h n s)" if "can_block s" "is_wait h"
    by (rule OsSchedTaskWait_inv [OF inv that(2)]) (use that(1) in \<open>simp_all add: can_block_def\<close>)
  show "ls_nodes (lst (OsSchedTaskWait h n s)) k =
      (if k = h then ls_nodes (lst s) h @ [runTask s] else ls_nodes (lst s) k)" if "can_block s"
    using r [OF that] by (simp add: ls_tail_def)
  assume h: "is_wait h" and t: "t \<in> set (ls_nodes (lst s) h)"
  then have l: "ls_loc (lst s) t = Some h" using wf by (simp add: ls_wf_loc)
  show "sched_inv (OsSchedTaskWake t s)" by (rule OsSchedTaskWake_inv [OF inv l h])
  show "ls_nodes (lst (OsSchedTaskWake t s)) k =
      (if k = h then remove1 t (ls_nodes (lst s) h) else ls_nodes (lst s) k)" if "is_wait k"
    by (rule TaskWake_nodes [OF l h that])
qed

end
