(* ===== verification/Sem.thy ===== *)
theory Sem
  imports Wait_Queue
begin

text \<open>
  Semaphores, \<open>src/kernel/src/los_sem.c\<close>.  A handle is an index of \<open>g_allSem\<close>.  The field \<open>semList\<close>
  of a control block is the node on \<open>g_unusedSemList\<close> while the semaphore is unused and the head
  \<open>SemList\<close> of the list of waiting tasks while it is used.

  \<open>LOS_SemPend\<close> is in two parts: the part up to \<open>LOS_Schedule\<close>, whose result is \<open>None\<close> when the task
  waits, and the part the task executes when it runs again.  The configuration limit fits \<open>UINT16\<close>,
  the type of \<open>semID\<close>.
\<close>

section \<open>Control blocks\<close>

record LosSemCB =
  semStat :: u16
  semCount :: u16
  maxSemCount :: u16
  semID :: u16

record sems =
  SEM_LIMIT :: u16
  g_allSem :: "nat \<Rightarrow> LosSemCB"
  g_unusedSemList :: "nat list"

type_synonym semst = "sems \<times> ksched"

abbreviation (input) OS_SEM_UNUSED :: u16 where "OS_SEM_UNUSED \<equiv> 0"
abbreviation (input) OS_SEM_USED :: u16 where "OS_SEM_USED \<equiv> 1"
abbreviation (input) OS_SEM_BINARY_MAX_COUNT :: u16 where "OS_SEM_BINARY_MAX_COUNT \<equiv> 1"
abbreviation (input) OS_SEM_COUNTING_MAX_COUNT :: u16 where "OS_SEM_COUNTING_MAX_COUNT \<equiv> 0xFFFF"

abbreviation (input) "LOS_ERRNO_SEM_NO_MEMORY \<equiv> LOS_ERRNO_OS_ERROR LOS_MOD_SEM 0x00"
abbreviation (input) "LOS_ERRNO_SEM_INVALID \<equiv> LOS_ERRNO_OS_ERROR LOS_MOD_SEM 0x01"
abbreviation (input) "LOS_ERRNO_SEM_PTR_NULL \<equiv> LOS_ERRNO_OS_ERROR LOS_MOD_SEM 0x02"
abbreviation (input) "LOS_ERRNO_SEM_ALL_BUSY \<equiv> LOS_ERRNO_OS_ERROR LOS_MOD_SEM 0x03"
abbreviation (input) "LOS_ERRNO_SEM_UNAVAILABLE \<equiv> LOS_ERRNO_OS_ERROR LOS_MOD_SEM 0x04"
abbreviation (input) "LOS_ERRNO_SEM_PEND_INTERR \<equiv> LOS_ERRNO_OS_ERROR LOS_MOD_SEM 0x05"
abbreviation (input) "LOS_ERRNO_SEM_PEND_IN_LOCK \<equiv> LOS_ERRNO_OS_ERROR LOS_MOD_SEM 0x06"
abbreviation (input) "LOS_ERRNO_SEM_TIMEOUT \<equiv> LOS_ERRNO_OS_ERROR LOS_MOD_SEM 0x07"
abbreviation (input) "LOS_ERRNO_SEM_OVERFLOW \<equiv> LOS_ERRNO_OS_ERROR LOS_MOD_SEM 0x08"
abbreviation (input) "LOS_ERRNO_SEM_PENDED \<equiv> LOS_ERRNO_OS_ERROR LOS_MOD_SEM 0x09"
abbreviation (input) "LOS_ERRNO_SEM_MAXNUM_ZERO \<equiv> LOS_ERRNO_OS_ERROR LOS_MOD_SEM 0x0A"
abbreviation (input) "LOS_ERRNO_SEM_PEND_IN_SYSTEM_TASK \<equiv> LOS_ERRNO_OS_ERROR LOS_MOD_SEM 0x0B"

abbreviation mod_sem :: "nat \<Rightarrow> (LosSemCB \<Rightarrow> LosSemCB) \<Rightarrow> sems \<Rightarrow> sems" where
  "mod_sem i f m \<equiv> m\<lparr>g_allSem := (g_allSem m)(i := f (g_allSem m i))\<rparr>"

section \<open>Operations\<close>

text \<open>\<open>memOk\<close> says whether \<open>LOS_MemAlloc\<close> delivers the array.\<close>

definition OsSemInit :: "bool \<Rightarrow> sems \<Rightarrow> u32 \<times> sems" where
  "OsSemInit memOk m =
     (let m1 = m\<lparr>g_unusedSemList := []\<rparr>
      in if SEM_LIMIT m1 = 0 then (LOS_ERRNO_SEM_MAXNUM_ZERO, m1)
         else if \<not> memOk then (LOS_ERRNO_SEM_NO_MEMORY, m1)
         else (LOS_OK,
               foldl (\<lambda>a index.
                        let b = mod_sem index (\<lambda>c. c\<lparr>semID := of_nat index, semStat := OS_SEM_UNUSED\<rparr>) a
                        in b\<lparr>g_unusedSemList := g_unusedSemList b @ [index]\<rparr>)
                     m1 [0..<unat (SEM_LIMIT m1)]))"

text \<open>\<open>notNull\<close> says whether the pointer for the handle is not \<open>NULL\<close>; the handle is the second result.\<close>

definition OsSemCreate :: "u16 \<Rightarrow> u16 \<Rightarrow> bool \<Rightarrow> semst \<Rightarrow> u32 \<times> u32 option \<times> semst" where
  "OsSemCreate cnt maxCount notNull = (\<lambda>(m, s).
     if \<not> notNull then (LOS_ERRNO_SEM_PTR_NULL, None, (m, s))
     else if cnt > maxCount then (LOS_ERRNO_SEM_OVERFLOW, None, (m, s))
     else case g_unusedSemList m of
            [] \<Rightarrow> (LOS_ERRNO_SEM_ALL_BUSY, None, (m, s))
          | i # _ \<Rightarrow>
              (let m1 = m\<lparr>g_unusedSemList := remove1 i (g_unusedSemList m)\<rparr>;
                   m2 = mod_sem i (\<lambda>c. c\<lparr>semCount := cnt, semStat := OS_SEM_USED, maxSemCount := maxCount\<rparr>) m1;
                   s1 = mod_lst (ls_init (SemList i)) s
               in (LOS_OK, Some (ucast (semID (g_allSem m2 i))), (m2, s1))))"

definition LOS_SemCreate :: "u16 \<Rightarrow> bool \<Rightarrow> semst \<Rightarrow> u32 \<times> u32 option \<times> semst" where
  "LOS_SemCreate cnt notNull = OsSemCreate cnt OS_SEM_COUNTING_MAX_COUNT notNull"

definition LOS_BinarySemCreate :: "u16 \<Rightarrow> bool \<Rightarrow> semst \<Rightarrow> u32 \<times> u32 option \<times> semst" where
  "LOS_BinarySemCreate cnt notNull = OsSemCreate cnt OS_SEM_BINARY_MAX_COUNT notNull"

definition LOS_SemDelete :: "u32 \<Rightarrow> semst \<Rightarrow> u32 \<times> semst" where
  "LOS_SemDelete semHandle = (\<lambda>(m, s).
     if semHandle \<ge> ucast (SEM_LIMIT m) then (LOS_ERRNO_SEM_INVALID, (m, s))
     else let i = unat semHandle
          in if semStat (g_allSem m i) = OS_SEM_UNUSED then (LOS_ERRNO_SEM_INVALID, (m, s))
             else if ls_nodes (lst s) (SemList i) \<noteq> [] then (LOS_ERRNO_SEM_PENDED, (m, s))
             else let m1 = m\<lparr>g_unusedSemList := i # g_unusedSemList m\<rparr>
                  in (LOS_OK, (mod_sem i (\<lambda>c. c\<lparr>semStat := OS_SEM_UNUSED\<rparr>) m1, s)))"

definition OsSemValidCheck :: "LosSemCB \<Rightarrow> ksched \<Rightarrow> u32" where
  "OsSemValidCheck semPended s =
     (if semStat semPended = OS_SEM_UNUSED then LOS_ERRNO_SEM_INVALID
      else if intActive s then LOS_ERRNO_SEM_PEND_INTERR
      else if g_losTaskLock s \<noteq> 0 then LOS_ERRNO_SEM_PEND_IN_LOCK
      else if hasFlag (status s (runTask s)) OS_TASK_FLAG_SYSTEM_TASK then LOS_ERRNO_SEM_PEND_IN_SYSTEM_TASK
      else LOS_OK)"

definition LOS_SemPend :: "u32 \<Rightarrow> u32 \<Rightarrow> semst \<Rightarrow> u32 option \<times> semst" where
  "LOS_SemPend semHandle timeout = (\<lambda>(m, s).
     if semHandle \<ge> ucast (SEM_LIMIT m) then (Some LOS_ERRNO_SEM_INVALID, (m, s))
     else let i = unat semHandle; retErr = OsSemValidCheck (g_allSem m i) s
          in if retErr \<noteq> LOS_OK then (Some retErr, (m, s))
             else if semCount (g_allSem m i) > 0
                  then (Some LOS_OK, (mod_sem i (\<lambda>c. c\<lparr>semCount := semCount c - 1\<rparr>) m, s))
             else if timeout = 0 then (Some LOS_ERRNO_SEM_UNAVAILABLE, (m, s))
             else let s1 = mod_task (runTask s) (\<lambda>c. c\<lparr>taskSem := Some i\<rparr>) s;
                      s2 = OsSchedTaskWait (SemList i) timeout s1
                  in (None, (m, LOS_Schedule s2)))"

definition LOS_SemPend_resume :: "tptr \<Rightarrow> ksched \<Rightarrow> u32 \<times> ksched" where
  "LOS_SemPend_resume runningTask s =
     (if hasFlag (status s runningTask) OS_TASK_STATUS_TIMEOUT
      then (LOS_ERRNO_SEM_TIMEOUT, clr_status runningTask OS_TASK_STATUS_TIMEOUT s)
      else (LOS_OK, s))"

definition LOS_SemPost :: "u32 \<Rightarrow> semst \<Rightarrow> u32 \<times> semst" where
  "LOS_SemPost semHandle = (\<lambda>(m, s).
     if semHandle \<ge> ucast (SEM_LIMIT m) then (LOS_ERRNO_SEM_INVALID, (m, s))
     else let i = unat semHandle
          in if semStat (g_allSem m i) = OS_SEM_UNUSED then (LOS_ERRNO_SEM_INVALID, (m, s))
             else if maxSemCount (g_allSem m i) = semCount (g_allSem m i) then (LOS_ERRNO_SEM_OVERFLOW, (m, s))
             else case ls_nodes (lst s) (SemList i) of
                    t # _ \<Rightarrow>
                      (let s1 = mod_task t (\<lambda>c. c\<lparr>taskSem := None\<rparr>) s
                       in (LOS_OK, (m, LOS_Schedule (OsSchedTaskWake t s1))))
                  | [] \<Rightarrow> (LOS_OK, (mod_sem i (\<lambda>c. c\<lparr>semCount := semCount c + 1\<rparr>) m, s)))"

definition LOS_SemGetValue :: "u32 \<Rightarrow> sems \<Rightarrow> u32 \<times> int option" where
  "LOS_SemGetValue semHandle m =
     (if semHandle \<ge> ucast (SEM_LIMIT m) then (LOS_ERRNO_SEM_INVALID, None)
      else (0, Some (uint (semCount (g_allSem m (unat semHandle))))))"

section \<open>Invariant\<close>

text \<open>
  The unused list holds exactly the unused semaphores below the limit; a used semaphore never
  counts more than its maximum, and it has no waiting task while its count is positive: no task
  waits for a semaphore that is available.
\<close>

definition sem_ok :: "sems \<Rightarrow> (nat \<Rightarrow> tptr list) \<Rightarrow> bool" where
  "sem_ok m W \<longleftrightarrow> distinct (g_unusedSemList m) \<and>
     (\<forall>i. i \<in> set (g_unusedSemList m) \<longleftrightarrow> i < unat (SEM_LIMIT m) \<and> semStat (g_allSem m i) = OS_SEM_UNUSED) \<and>
     (\<forall>i < unat (SEM_LIMIT m). semID (g_allSem m i) = of_nat i \<and>
        (if semStat (g_allSem m i) = OS_SEM_UNUSED then W i = []
         else semCount (g_allSem m i) \<le> maxSemCount (g_allSem m i) \<and>
              (semCount (g_allSem m i) > 0 \<longrightarrow> W i = [])))"

abbreviation sem_waiters :: "ksched \<Rightarrow> nat \<Rightarrow> tptr list" where
  "sem_waiters s i \<equiv> ls_nodes (lst s) (SemList i)"

definition sem_inv :: "semst \<Rightarrow> bool" where
  "sem_inv = (\<lambda>(m, s). sched_inv s \<and> sem_ok m (sem_waiters s))"

lemma sem_ok_used:
  assumes "sem_ok m W" and "i < unat (SEM_LIMIT m)" and "semStat (g_allSem m i) \<noteq> OS_SEM_UNUSED"
  shows "semCount (g_allSem m i) \<le> maxSemCount (g_allSem m i)" "semCount (g_allSem m i) > 0 \<Longrightarrow> W i = []"
    "i \<notin> set (g_unusedSemList m)"
  using assms by (auto simp: sem_ok_def)

lemma sem_ok_mod:
  assumes "sem_ok m W" and "i < unat (SEM_LIMIT m)" and "semStat (g_allSem m i) \<noteq> OS_SEM_UNUSED"
    and "semStat (f (g_allSem m i)) \<noteq> OS_SEM_UNUSED" and "semID (f (g_allSem m i)) = semID (g_allSem m i)"
    and "semCount (f (g_allSem m i)) \<le> maxSemCount (f (g_allSem m i))"
    and "semCount (f (g_allSem m i)) > 0 \<Longrightarrow> W i = []"
  shows "sem_ok (mod_sem i f m) W"
  using assms unfolding sem_ok_def by (auto simp: fun_upd_def split: if_splits)

lemma sem_ok_waiters:
  assumes "sem_ok m W" and "\<And>j. W j = [] \<Longrightarrow> W' j = []"
  shows "sem_ok m W'"
  using assms unfolding sem_ok_def by (metis (full_types))

lemma handle_lt: "h < (ucast (l :: u16) :: u32) \<longleftrightarrow> unat h < unat l"
  by (simp add: word_less_nat_alt unat_ucast_up)

section \<open>Operations keep the invariant\<close>

lemma can_block_mod [simp]: "can_block (mod_task t (\<lambda>c. c\<lparr>taskSem := x\<rparr>) s) = can_block s"
  by (simp add: can_block_def)

lemma OsSemCreate_inv:
  assumes "sem_inv (m, s)"
  shows "sem_inv (snd (snd (OsSemCreate cnt mx nn (m, s))))"
proof -
  have ok: "sched_inv s" "sem_ok m (sem_waiters s)" using assms by (simp_all add: sem_inv_def)
  show ?thesis
  proof (cases "nn \<and> cnt \<le> mx \<and> g_unusedSemList m \<noteq> []")
    case True
    then obtain i js where u: "g_unusedSemList m = i # js" by (cases "g_unusedSemList m") auto
    have "i < unat (SEM_LIMIT m) \<and> semStat (g_allSem m i) = OS_SEM_UNUSED"
      using ok(2) u unfolding sem_ok_def by (metis list.set_intros(1))
    then have i: "i < unat (SEM_LIMIT m)" "semStat (g_allSem m i) = OS_SEM_UNUSED" "i \<notin> set js" "distinct js"
      "semID (g_allSem m i) = of_nat i" "sem_waiters s i = []"
      "\<And>j. j = i \<or> j \<in> set js \<longleftrightarrow> j < unat (SEM_LIMIT m) \<and> semStat (g_allSem m j) = OS_SEM_UNUSED"
      using ok(2) u unfolding sem_ok_def by auto
    have l: "mod_lst (ls_init (SemList i)) s = s"
      using i(6) by (simp add: ls_init_def fun_upd_idem)
    have "sem_ok (mod_sem i (\<lambda>c. c\<lparr>semCount := cnt, semStat := OS_SEM_USED, maxSemCount := mx\<rparr>)
        (m\<lparr>g_unusedSemList := js\<rparr>)) (sem_waiters s)"
      using ok(2) i True unfolding sem_ok_def by (auto simp: u)
    then show ?thesis
      using True ok u by (simp add: sem_inv_def OsSemCreate_def l Let_def)
  next
    case False
    then show ?thesis using assms
      by (auto simp: sem_inv_def OsSemCreate_def not_le split: list.splits)
  qed
qed

lemma LOS_SemDelete_inv:
  assumes "sem_inv (m, s)"
  shows "sem_inv (snd (LOS_SemDelete h (m, s)))"
proof -
  have ok: "sched_inv s" "sem_ok m (sem_waiters s)" using assms by (simp_all add: sem_inv_def)
  let ?i = "unat h"
  show ?thesis
  proof (cases "h < ucast (SEM_LIMIT m) \<and> semStat (g_allSem m ?i) \<noteq> OS_SEM_UNUSED \<and> sem_waiters s ?i = []")
    case True
    then have i: "?i < unat (SEM_LIMIT m)" by (simp add: handle_lt)
    have "sem_ok (mod_sem ?i (\<lambda>c. c\<lparr>semStat := OS_SEM_UNUSED\<rparr>) (m\<lparr>g_unusedSemList := ?i # g_unusedSemList m\<rparr>))
        (sem_waiters s)"
      using ok(2) i True unfolding sem_ok_def by auto
    then show ?thesis using True ok by (simp add: sem_inv_def LOS_SemDelete_def Let_def)
  next
    case False
    then show ?thesis using assms by (auto simp: LOS_SemDelete_def Let_def not_le)
  qed
qed

lemma LOS_SemPend_inv:
  assumes "sem_inv (m, s)" and "can_block s"
  shows "sem_inv (snd (LOS_SemPend h n (m, s)))"
proof -
  have ok: "sched_inv s" "sem_ok m (sem_waiters s)" using assms by (simp_all add: sem_inv_def)
  let ?i = "unat h"
  let ?s1 = "mod_task (runTask s) (\<lambda>c. c\<lparr>taskSem := Some ?i\<rparr>) s"
  show ?thesis
  proof (cases "h < ucast (SEM_LIMIT m) \<and> OsSemValidCheck (g_allSem m ?i) s = LOS_OK")
    case True
    then have i: "?i < unat (SEM_LIMIT m)" "semStat (g_allSem m ?i) \<noteq> OS_SEM_UNUSED"
      by (auto simp: handle_lt OsSemValidCheck_def split: if_splits)
    note u = sem_ok_used [OF ok(2) i]
    have dec: "sem_ok (mod_sem ?i (\<lambda>c. c\<lparr>semCount := semCount c - 1\<rparr>) m) (sem_waiters s)"
      if "semCount (g_allSem m ?i) > 0"
      using ok(2) i u that
      by (intro sem_ok_mod) (auto simp: word_le_nat_alt unat_dec)
    have w: "sched_inv (OsSchedTaskWait (SemList ?i) n ?s1)"
      using ok(1) assms(2) by (intro wq.wait_ok) simp_all
    have eq: "sem_waiters (OsSchedTaskWait (SemList ?i) n ?s1) =
        (sem_waiters s)(?i := sem_waiters s ?i @ [runTask s])"
      using wq.wait_waiters [of ?s1 "SemList ?i" "SemList _" n] ok(1) assms(2) by (auto simp del: TaskWait_frame)
    have "sem_ok m (sem_waiters (OsSchedTaskWait (SemList ?i) n ?s1))" if "semCount (g_allSem m ?i) = 0"
      using ok(2) i that unfolding sem_ok_def eq by (auto simp: fun_upd_def)
    then show ?thesis
      using True dec w ok by (simp add: LOS_SemPend_def sem_inv_def Let_def word_gt_0 del: TaskWait_frame)
  qed (use assms in \<open>auto simp: LOS_SemPend_def Let_def not_le\<close>)
qed

lemma LOS_SemPost_wake:
  assumes "sched_inv s" and "sem_waiters s i = t # ts"
  defines "s' \<equiv> OsSchedTaskWake t (mod_task t (\<lambda>c. c\<lparr>taskSem := None\<rparr>) s)"
  shows "sched_inv s'" and "sem_waiters s' = (sem_waiters s)(i := ts)"
    and "\<And>k. is_wait k \<Longrightarrow> k \<noteq> SemList i \<Longrightarrow> ls_nodes (lst s') k = ls_nodes (lst s) k"
  using wq.wake_first [of "mod_task t (\<lambda>c. c\<lparr>taskSem := None\<rparr>) s" "SemList i" t ts] assms
  by (auto simp: fun_upd_def)

lemma LOS_SemPost_inv:
  assumes "sem_inv (m, s)"
  shows "sem_inv (snd (LOS_SemPost h (m, s)))"
proof -
  have ok: "sched_inv s" "sem_ok m (sem_waiters s)" using assms by (simp_all add: sem_inv_def)
  let ?i = "unat h"
  show ?thesis
  proof (cases "h < ucast (SEM_LIMIT m) \<and> semStat (g_allSem m ?i) \<noteq> OS_SEM_UNUSED \<and>
      maxSemCount (g_allSem m ?i) \<noteq> semCount (g_allSem m ?i)")
    case True
    then have i: "?i < unat (SEM_LIMIT m)" "semStat (g_allSem m ?i) \<noteq> OS_SEM_UNUSED"
      by (auto simp: handle_lt)
    note u = sem_ok_used [OF ok(2) i]
    have lt: "semCount (g_allSem m ?i) < maxSemCount (g_allSem m ?i)" using u(1) True by (metis order_le_neq_trans)
    have inc: "sem_ok (mod_sem ?i (\<lambda>c. c\<lparr>semCount := semCount c + 1\<rparr>) m) (sem_waiters s)" if "sem_waiters s ?i = []"
      using ok(2) i that lt by (intro sem_ok_mod) (auto simp: inc_le)
    show ?thesis
    proof (cases "sem_waiters s ?i")
      case Nil
      then show ?thesis using True inc ok by (simp add: LOS_SemPost_def sem_inv_def Let_def)
    next
      case (Cons t ts)
      have "sem_ok m (sem_waiters (OsSchedTaskWake t (mod_task t (\<lambda>c. c\<lparr>taskSem := None\<rparr>) s)))"
        unfolding LOS_SemPost_wake(2) [OF ok(1) Cons]
        by (rule sem_ok_waiters [OF ok(2)]) (use Cons in \<open>auto split: if_splits\<close>)
      then show ?thesis
        using True ok Cons LOS_SemPost_wake(1) [OF ok(1) Cons] by (simp add: LOS_SemPost_def sem_inv_def Let_def not_le)
    qed
  qed (use assms in \<open>auto simp: LOS_SemPost_def Let_def not_le\<close>)
qed

lemma LOS_SemPend_resume_inv: "sched_inv s \<Longrightarrow> sched_inv (snd (LOS_SemPend_resume t s))"
  by (auto simp: LOS_SemPend_resume_def intro!: sched_inv_flags)

lemma sem_init_fold:
  "n \<le> 65536 \<Longrightarrow> g_unusedSemList m = [] \<Longrightarrow>
   (let m' = foldl (\<lambda>a index.
        let b = mod_sem index (\<lambda>c. c\<lparr>semID := of_nat index, semStat := OS_SEM_UNUSED\<rparr>) a
        in b\<lparr>g_unusedSemList := g_unusedSemList b @ [index]\<rparr>) m [0..<n]
    in g_unusedSemList m' = [0..<n] \<and> SEM_LIMIT m' = SEM_LIMIT m \<and>
       (\<forall>i < n. semID (g_allSem m' i) = of_nat i \<and> semStat (g_allSem m' i) = OS_SEM_UNUSED))"
  by (induction n) (auto simp: Let_def less_Suc_eq)

lemma OsSemInit_ok:
  assumes "OsSemInit memOk m0 = (LOS_OK, m)" and "\<And>i. W i = []"
  shows "sem_ok m W"
proof -
  have "SEM_LIMIT m0 \<noteq> 0" "memOk" using assms(1) by (auto simp: OsSemInit_def Let_def split: if_splits)
  then have m: "m = foldl (\<lambda>a index.
        let b = mod_sem index (\<lambda>c. c\<lparr>semID := of_nat index, semStat := OS_SEM_UNUSED\<rparr>) a
        in b\<lparr>g_unusedSemList := g_unusedSemList b @ [index]\<rparr>) (m0\<lparr>g_unusedSemList := []\<rparr>) [0..<unat (SEM_LIMIT m0)]"
    using assms(1) by (simp add: OsSemInit_def Let_def)
  have "unat (SEM_LIMIT m0) < 2 ^ LENGTH(16)" by (rule unsigned_less)
  then have "g_unusedSemList m = [0..<unat (SEM_LIMIT m0)] \<and> SEM_LIMIT m = SEM_LIMIT m0 \<and>
      (\<forall>i < unat (SEM_LIMIT m0). semID (g_allSem m i) = of_nat i \<and> semStat (g_allSem m i) = OS_SEM_UNUSED)"
    using sem_init_fold [of "unat (SEM_LIMIT m0)" "m0\<lparr>g_unusedSemList := []\<rparr>"] by (simp add: m Let_def)
  then show ?thesis using assms(2) by (auto simp: sem_ok_def)
qed

section \<open>Histories\<close>

text \<open>
  The steps that affect the semaphores: the calls, and anything else the kernel does in between
  (switches, expiring timeouts, other objects), which keeps the scheduler invariant and adds no
  waiting task to a semaphore.
\<close>

inductive sem_step :: "semst \<Rightarrow> semst \<Rightarrow> bool" where
  create: "sem_step st (snd (snd (OsSemCreate cnt mx nn st)))"
| delete: "sem_step st (snd (LOS_SemDelete h st))"
| pend: "can_block (snd st) \<Longrightarrow> sem_step st (snd (LOS_SemPend h n st))"
| resume: "sem_step (m, s) (m, snd (LOS_SemPend_resume (runTask s) s))"
| post: "sem_step st (snd (LOS_SemPost h st))"
| other: "sched_inv s' \<Longrightarrow> (\<And>i. set (sem_waiters s' i) \<subseteq> set (sem_waiters s i)) \<Longrightarrow> sem_step (m, s) (m, s')"

lemma LOS_SemPend_resume_lst [simp]: "lst (snd (LOS_SemPend_resume t s)) = lst s"
  by (simp add: LOS_SemPend_resume_def)

lemma sem_step_inv:
  assumes "sem_step st st'" and "sem_inv st"
  shows "sem_inv st'"
  using assms
proof (induction rule: sem_step.induct)
  case (create st cnt mx nn)
  then show ?case using OsSemCreate_inv [of "fst st" "snd st"] by simp
next
  case (delete st h)
  then show ?case using LOS_SemDelete_inv [of "fst st" "snd st"] by simp
next
  case (pend st h n)
  then show ?case using LOS_SemPend_inv [of "fst st" "snd st"] by simp
next
  case (resume m s)
  then show ?case by (simp add: sem_inv_def LOS_SemPend_resume_inv)
next
  case (post st h)
  then show ?case using LOS_SemPost_inv [of "fst st" "snd st"] by simp
next
  case (other s' s m)
  have "sem_waiters s' j = []" if "sem_waiters s j = []" for j using other(2) [of j] that by simp
  then have "sem_ok m (sem_waiters s')"
    using other(3) sem_ok_waiters [of m "sem_waiters s"] by (simp add: sem_inv_def)
  then show ?case using other by (simp add: sem_inv_def)
qed

lemma sem_steps_inv: "sem_step\<^sup>*\<^sup>* st st' \<Longrightarrow> sem_inv st \<Longrightarrow> sem_inv st'"
  by (induction rule: rtranclp_induct) (auto intro: sem_step_inv)

section \<open>Properties\<close>

text \<open>C8: in every history that starts from the initialised module, a used semaphore never counts more
  than its maximum and never has a waiting task while it is available; the unused list is exactly
  the list of the unused semaphores, without repetition; and the scheduler invariant holds.\<close>

theorem sem_history_safe:
  assumes "OsSemInit memOk m0 = (LOS_OK, m)" and "sched_inv s" and "\<forall>i. sem_waiters s i = []"
    and "sem_step\<^sup>*\<^sup>* (m, s) (m', s')"
  shows "sched_inv s' \<and> distinct (g_unusedSemList m') \<and>
    (\<forall>i < unat (SEM_LIMIT m'). if semStat (g_allSem m' i) = OS_SEM_UNUSED then i \<in> set (g_unusedSemList m')
       else i \<notin> set (g_unusedSemList m') \<and> semCount (g_allSem m' i) \<le> maxSemCount (g_allSem m' i) \<and>
            (semCount (g_allSem m' i) > 0 \<longrightarrow> sem_waiters s' i = []))"
proof -
  have "sem_inv (m, s)" using OsSemInit_ok [OF assms(1)] assms(2,3) by (simp add: sem_inv_def)
  then have "sem_inv (m', s')" using sem_steps_inv [OF assms(4)] by blast
  then show ?thesis by (auto simp: sem_inv_def sem_ok_def)
qed

definition demo_sems0 :: sems where
  "demo_sems0 = \<lparr>SEM_LIMIT = 2, g_allSem = (\<lambda>_. \<lparr>semStat = 0, semCount = 0, maxSemCount = 0, semID = 0\<rparr>),
     g_unusedSemList = []\<rparr>"

definition demo_nosem :: ksched where
  "demo_nosem = OsSchedTaskWake 3 demo_sched"

lemma demo_nosem_inv: "sched_inv demo_nosem" "sem_waiters demo_nosem i = []"
proof -
  have t: "3 \<in> set (ls_nodes (lst demo_sched) (SemList 0))" by (simp add: demo_lst_def)
  show "sched_inv demo_nosem"
    unfolding demo_nosem_def by (rule wq.wake_ok [OF demo_sched_inv _ t]) simp
  show "sem_waiters demo_nosem i = []"
    using wq.wake_waiters [OF demo_sched_inv _ t, of "SemList i"]
    by (simp add: demo_nosem_def) (simp add: demo_lst_def)
qed

theorem sem_history_safe_witness:
  "\<exists>m. OsSemInit True demo_sems0 = (LOS_OK, m) \<and>
    sched_inv (snd (snd (snd (LOS_SemCreate 1 True (m, demo_nosem)))))"
proof -
  obtain m where m: "OsSemInit True demo_sems0 = (LOS_OK, m)"
    by (simp add: OsSemInit_def demo_sems0_def Let_def)
  obtain m' s' where st: "snd (snd (LOS_SemCreate 1 True (m, demo_nosem))) = (m', s')"
    by (metis surj_pair)
  have "sem_step\<^sup>*\<^sup>* (m, demo_nosem) (m', s')"
    using create [of "(m, demo_nosem)" 1 OS_SEM_COUNTING_MAX_COUNT True] st
    by (auto simp: LOS_SemCreate_def)
  then show ?thesis
    using sem_history_safe [OF m demo_nosem_inv(1) _ ] demo_nosem_inv(2) m st by auto
qed

text \<open>The abstract semaphore: a counter with a bound and a first-in first-out queue of tasks.\<close>

record asem =
  acount :: nat
  amax :: nat
  aqueue :: "tptr list"

definition apost :: "asem \<Rightarrow> asem option" where
  "apost a = (if acount a = amax a then None
              else case aqueue a of [] \<Rightarrow> Some (a\<lparr>acount := acount a + 1\<rparr>) | t # ts \<Rightarrow> Some (a\<lparr>aqueue := ts\<rparr>))"

definition apend :: "tptr \<Rightarrow> asem \<Rightarrow> asem" where
  "apend t a = (if acount a > 0 then a\<lparr>acount := acount a - 1\<rparr> else a\<lparr>aqueue := aqueue a @ [t]\<rparr>)"

definition sem_abs :: "semst \<Rightarrow> nat \<Rightarrow> asem" where
  "sem_abs = (\<lambda>(m, s) i. \<lparr>acount = unat (semCount (g_allSem m i)), amax = unat (maxSemCount (g_allSem m i)),
     aqueue = sem_waiters s i\<rparr>)"

text \<open>C9: \<open>LOS_SemPost\<close> and \<open>LOS_SemPend\<close> refine the abstract semaphore.  Posting fails with the overflow
  error exactly when the abstract counter is full; otherwise it and pending with a timeout perform
  the abstract operation on the semaphore of the handle, without wrap-around, and leave every other
  semaphore alone.\<close>

theorem sem_refines:
  assumes inv: "sem_inv (m, s)" and h: "h < ucast (SEM_LIMIT m)"
    and used: "semStat (g_allSem m (unat h)) \<noteq> OS_SEM_UNUSED"
  shows "(case apost (sem_abs (m, s) (unat h)) of
            None \<Rightarrow> LOS_SemPost h (m, s) = (LOS_ERRNO_SEM_OVERFLOW, (m, s))
          | Some a \<Rightarrow> fst (LOS_SemPost h (m, s)) = LOS_OK \<and>
              sem_abs (snd (LOS_SemPost h (m, s))) = (sem_abs (m, s))(unat h := a)) \<and>
    (can_block s \<and> OsSemValidCheck (g_allSem m (unat h)) s = LOS_OK \<and> n \<noteq> 0 \<longrightarrow>
       sem_abs (snd (LOS_SemPend h n (m, s))) =
         (sem_abs (m, s))(unat h := apend (runTask s) (sem_abs (m, s) (unat h))))"
proof (intro conjI impI)
  let ?i = "unat h"
  have ok: "sched_inv s" "sem_ok m (sem_waiters s)" using inv by (simp_all add: sem_inv_def)
  have i: "?i < unat (SEM_LIMIT m)" using h by (simp add: handle_lt)
  note u = sem_ok_used [OF ok(2) i used]
  have nh: "\<not> ucast (SEM_LIMIT m) \<le> h" using h by (simp add: not_le)
  have inc: "unat (semCount (g_allSem m ?i) + 1) = unat (semCount (g_allSem m ?i)) + 1"
    if "maxSemCount (g_allSem m ?i) \<noteq> semCount (g_allSem m ?i)"
  proof -
    have "semCount (g_allSem m ?i) < maxSemCount (g_allSem m ?i)" using u(1) that by (metis order_le_neq_trans)
    then show ?thesis by (rule unat_inc)
  qed
  show "case apost (sem_abs (m, s) ?i) of
            None \<Rightarrow> LOS_SemPost h (m, s) = (LOS_ERRNO_SEM_OVERFLOW, (m, s))
          | Some a \<Rightarrow> fst (LOS_SemPost h (m, s)) = LOS_OK \<and>
              sem_abs (snd (LOS_SemPost h (m, s))) = (sem_abs (m, s))(?i := a)"
  proof (cases "maxSemCount (g_allSem m ?i) = semCount (g_allSem m ?i)")
    case True
    then show ?thesis using nh used by (simp add: apost_def sem_abs_def LOS_SemPost_def Let_def)
  next
    case False
    then have "unat (semCount (g_allSem m ?i)) \<noteq> unat (maxSemCount (g_allSem m ?i))"
      by (metis unsigned_word_eqI)
    then show ?thesis
      using False nh used inc LOS_SemPost_wake(2) [OF ok(1), of ?i]
      by (cases "sem_waiters s ?i") (auto simp: apost_def sem_abs_def LOS_SemPost_def Let_def fun_eq_iff)
  qed
  assume c: "can_block s \<and> OsSemValidCheck (g_allSem m ?i) s = LOS_OK \<and> n \<noteq> 0"
  let ?s1 = "mod_task (runTask s) (\<lambda>c. c\<lparr>taskSem := Some ?i\<rparr>) s"
  have "sem_waiters (OsSchedTaskWait (SemList ?i) n ?s1) = (sem_waiters s)(?i := sem_waiters s ?i @ [runTask s])"
    using wq.wait_waiters [of ?s1 "SemList ?i" "SemList _" n] ok(1) c by (auto simp del: TaskWait_frame)
  then show "sem_abs (snd (LOS_SemPend h n (m, s))) =
      (sem_abs (m, s))(?i := apend (runTask s) (sem_abs (m, s) ?i))"
    using c nh unat_dec [of "semCount (g_allSem m ?i)"]
    by (auto simp: LOS_SemPend_def Let_def sem_abs_def apend_def fun_eq_iff unat_gt_0 word_gt_0 simp del: TaskWait_frame)
qed

definition demo_sems :: sems where
  "demo_sems = \<lparr>SEM_LIMIT = 2, g_allSem = (\<lambda>i. \<lparr>semStat = (if i = 0 then OS_SEM_USED else OS_SEM_UNUSED),
     semCount = 0, maxSemCount = OS_SEM_COUNTING_MAX_COUNT, semID = of_nat i\<rparr>), g_unusedSemList = [1]\<rparr>"

lemma demo_sem_inv: "sem_inv (demo_sems, demo_sched)"
  using demo_sched_inv
  by (auto simp: sem_inv_def sem_ok_def demo_sems_def demo_lst_def less_2_cases_iff)

theorem sem_refines_witness:
  "fst (LOS_SemPost 0 (demo_sems, demo_sched)) = LOS_OK \<and>
   aqueue (sem_abs (snd (LOS_SemPost 0 (demo_sems, demo_sched))) 0) = []"
  using sem_refines [OF demo_sem_inv, of 0 0]
  by (simp add: demo_sems_def sem_abs_def apost_def demo_lst_def split: option.splits)

text \<open>One post with a task waiting.\<close>

lemma sem_post_one:
  assumes inv: "sem_inv (m, s)" and h: "h < ucast (SEM_LIMIT m)"
    and used: "semStat (g_allSem m (unat h)) \<noteq> OS_SEM_UNUSED" and mx: "maxSemCount (g_allSem m (unat h)) > 0"
    and w: "sem_waiters s (unat h) = t # ts"
  defines "s' \<equiv> LOS_Schedule (OsSchedTaskWake t (mod_task t (\<lambda>c. c\<lparr>taskSem := None\<rparr>) s))"
  shows "LOS_SemPost h (m, s) = (LOS_OK, (m, s'))" and "sem_inv (m, s')" and "sem_waiters s' (unat h) = ts"
    and "\<And>u. status s' u = (if u = t then woken_status (status s t) else status s u)"
proof -
  have ok: "sched_inv s" "sem_ok m (sem_waiters s)" using inv by (simp_all add: sem_inv_def)
  have "semCount (g_allSem m (unat h)) = 0"
    using sem_ok_used(2) [OF ok(2) _ used] h w by (auto simp: handle_lt word_gt_0)
  then show post: "LOS_SemPost h (m, s) = (LOS_OK, (m, s'))"
    using h used mx w by (auto simp: LOS_SemPost_def Let_def not_le s'_def)
  show "sem_inv (m, s')" using LOS_SemPost_inv [OF inv, of h] post by simp
  show "sem_waiters s' (unat h) = ts" using fun_cong [OF LOS_SemPost_wake(2) [OF ok(1) w], of "unat h"] by (simp add: s'_def)
  show "status s' u = (if u = t then woken_status (status s t) else status s u)" for u
    using fun_cong [OF TaskWake_status, of t "mod_task t (\<lambda>c. c\<lparr>taskSem := None\<rparr>) s" u] by (simp add: s'_def)
qed

lemma sem_posts:
  assumes "sem_inv (m, s)" and "h < ucast (SEM_LIMIT m)"
    and "semStat (g_allSem m (unat h)) \<noteq> OS_SEM_UNUSED"
    and "maxSemCount (g_allSem m (unat h)) > 0" and "n \<le> length (sem_waiters s (unat h))"
  shows "\<exists>s'. ((\<lambda>st. snd (LOS_SemPost h st)) ^^ n) (m, s) = (m, s') \<and> sem_inv (m, s') \<and>
     sem_waiters s' (unat h) = drop n (sem_waiters s (unat h)) \<and>
     (\<forall>t. status s' t = (if t \<in> set (take n (sem_waiters s (unat h))) then woken_status (status s t) else status s t))"
  using assms(5)
proof (induction n)
  case 0
  then show ?case using assms(1) by simp
next
  case (Suc n)
  let ?W = "sem_waiters s (unat h)"
  obtain s1 where s1: "((\<lambda>st. snd (LOS_SemPost h st)) ^^ n) (m, s) = (m, s1)" "sem_inv (m, s1)"
    "sem_waiters s1 (unat h) = drop n ?W"
    "\<forall>t. status s1 t = (if t \<in> set (take n ?W) then woken_status (status s t) else status s t)"
    using Suc by auto
  have lt: "n < length ?W" using Suc.prems by simp
  have w: "sem_waiters s1 (unat h) = ?W ! n # drop (Suc n) ?W"
    using s1(3) by (simp add: Cons_nth_drop_Suc [OF lt])
  have "distinct ?W" using assms(1) by (simp add: sem_inv_def wq.distinct_waiters)
  then have "distinct (take n ?W @ ?W ! n # drop (Suc n) ?W)" by (simp flip: id_take_nth_drop [OF lt])
  then have nw: "?W ! n \<notin> set (take n ?W)" by simp
  have tk: "set (take (Suc n) ?W) = insert (?W ! n) (set (take n ?W))"
    using lt by (simp add: take_Suc_conv_app_nth)
  note one = sem_post_one [OF s1(2) assms(2-4) w]
  show ?case
    unfolding funpow.simps o_def s1(1) one(1) snd_conv
    using one(2,3,4) s1(4) nw by (auto simp: tk)
qed

text \<open>C10: posting serves the waiting tasks in the order in which they came.  After \<open>n\<close> posts, with at least
  \<open>n\<close> tasks waiting, exactly the first \<open>n\<close> have left the queue: none of them waits any more and each
  is ready, unless it is suspended or has not been switched out yet; the others keep their order
  and their status.\<close>

theorem sem_posts_fifo:
  assumes "sem_inv (m, s)" and "h < ucast (SEM_LIMIT m)"
    and "semStat (g_allSem m (unat h)) \<noteq> OS_SEM_UNUSED"
    and "maxSemCount (g_allSem m (unat h)) > 0" and "n \<le> length (sem_waiters s (unat h))"
  shows "\<exists>s'. ((\<lambda>st. snd (LOS_SemPost h st)) ^^ n) (m, s) = (m, s') \<and> sem_inv (m, s') \<and>
     sem_waiters s' (unat h) = drop n (sem_waiters s (unat h)) \<and>
     (\<forall>t. if t \<in> set (take n (sem_waiters s (unat h)))
          then \<not> hasFlag (status s' t) OS_TASK_STATUS_PEND \<and>
               (hasFlag (status s' t) OS_TASK_STATUS_READY \<or> hasFlag (status s' t) OS_TASK_STATUS_SUSPEND \<or>
                hasFlag (status s' t) OS_TASK_STATUS_RUNNING)
          else status s' t = status s t)"
proof -
  have "\<not> hasFlag (woken_status st) OS_TASK_STATUS_PEND \<and>
      (hasFlag (woken_status st) OS_TASK_STATUS_READY \<or> hasFlag (woken_status st) OS_TASK_STATUS_SUSPEND \<or>
       hasFlag (woken_status st) OS_TASK_STATUS_RUNNING)" for st
    by (auto simp: woken_status_def Let_def)
  then show ?thesis using sem_posts [OF assms] by fastforce
qed

theorem sem_posts_fifo_witness:
  "sem_waiters (snd (snd (LOS_SemPost 0 (demo_sems, demo_sched)))) 0 = []"
  using sem_posts_fifo [OF demo_sem_inv, of 0 "Suc 0"]
  by (auto simp: demo_sems_def demo_lst_def)

end
