(* ===== verification/Mux.thy ===== *)
theory Mux
  imports Sem
begin

text \<open>
  Mutexes, \<open>src/kernel/src/los_mux.c\<close>: recursive locks with an owner, a first-in first-out queue of
  waiting tasks and priority inheritance.  As for the semaphores, \<open>muxList\<close> is the node on
  \<open>g_unusedMuxList\<close> while the mutex is unused and the head \<open>MuxList\<close> while it is used, and the
  blocking call is in two parts.
\<close>

section \<open>Control blocks\<close>

record LosMuxCB =
  muxStat :: u8
  muxCount :: u16
  muxID :: u32
  owner :: "tptr option"
  muxPriority :: u16

record muxes =
  MUX_LIMIT :: u32
  g_allMux :: "nat \<Rightarrow> LosMuxCB"
  g_unusedMuxList :: "nat list"

type_synonym muxst = "muxes \<times> ksched"

abbreviation (input) OS_MUX_UNUSED :: u8 where "OS_MUX_UNUSED \<equiv> 0"
abbreviation (input) OS_MUX_USED :: u8 where "OS_MUX_USED \<equiv> 1"

abbreviation (input) "LOS_ERRNO_MUX_NO_MEMORY \<equiv> LOS_ERRNO_OS_ERROR LOS_MOD_MUX 0x00"
abbreviation (input) "LOS_ERRNO_MUX_INVALID \<equiv> LOS_ERRNO_OS_ERROR LOS_MOD_MUX 0x01"
abbreviation (input) "LOS_ERRNO_MUX_PTR_NULL \<equiv> LOS_ERRNO_OS_ERROR LOS_MOD_MUX 0x02"
abbreviation (input) "LOS_ERRNO_MUX_ALL_BUSY \<equiv> LOS_ERRNO_OS_ERROR LOS_MOD_MUX 0x03"
abbreviation (input) "LOS_ERRNO_MUX_UNAVAILABLE \<equiv> LOS_ERRNO_OS_ERROR LOS_MOD_MUX 0x04"
abbreviation (input) "LOS_ERRNO_MUX_IN_INTERR \<equiv> LOS_ERRNO_OS_ERROR LOS_MOD_MUX 0x05"
abbreviation (input) "LOS_ERRNO_MUX_PEND_IN_LOCK \<equiv> LOS_ERRNO_OS_ERROR LOS_MOD_MUX 0x06"
abbreviation (input) "LOS_ERRNO_MUX_TIMEOUT \<equiv> LOS_ERRNO_OS_ERROR LOS_MOD_MUX 0x07"
abbreviation (input) "LOS_ERRNO_MUX_PENDED \<equiv> LOS_ERRNO_OS_ERROR LOS_MOD_MUX 0x09"
abbreviation (input) "LOS_ERRNO_MUX_MAXNUM_ZERO \<equiv> LOS_ERRNO_OS_ERROR LOS_MOD_MUX 0x0C"
abbreviation (input) "LOS_ERRNO_MUX_PEND_IN_SYSTEM_TASK \<equiv> LOS_ERRNO_OS_ERROR LOS_MOD_MUX 0x0D"

abbreviation mod_mux :: "nat \<Rightarrow> (LosMuxCB \<Rightarrow> LosMuxCB) \<Rightarrow> muxes \<Rightarrow> muxes" where
  "mod_mux i f m \<equiv> m\<lparr>g_allMux := (g_allMux m)(i := f (g_allMux m i))\<rparr>"

abbreviation mux_waiters :: "ksched \<Rightarrow> nat \<Rightarrow> tptr list" where
  "mux_waiters s i \<equiv> ls_nodes (lst s) (MuxList i)"

section \<open>Operations\<close>

definition OsMuxInit :: "bool \<Rightarrow> muxes \<Rightarrow> u32 \<times> muxes" where
  "OsMuxInit memOk m =
     (let m1 = m\<lparr>g_unusedMuxList := []\<rparr>
      in if MUX_LIMIT m1 = 0 then (LOS_ERRNO_MUX_MAXNUM_ZERO, m1)
         else if \<not> memOk then (LOS_ERRNO_MUX_NO_MEMORY, m1)
         else (LOS_OK,
               foldl (\<lambda>a index.
                        let b = mod_mux index (\<lambda>c. c\<lparr>muxID := of_nat index, owner := None, muxStat := OS_MUX_UNUSED\<rparr>) a
                        in b\<lparr>g_unusedMuxList := g_unusedMuxList b @ [index]\<rparr>)
                     m1 [0..<unat (MUX_LIMIT m1)]))"

definition LOS_MuxCreate :: "bool \<Rightarrow> muxst \<Rightarrow> u32 \<times> u32 option \<times> muxst" where
  "LOS_MuxCreate notNull = (\<lambda>(m, s).
     if \<not> notNull then (LOS_ERRNO_MUX_PTR_NULL, None, (m, s))
     else case g_unusedMuxList m of
            [] \<Rightarrow> (LOS_ERRNO_MUX_ALL_BUSY, None, (m, s))
          | i # _ \<Rightarrow>
              (let m1 = m\<lparr>g_unusedMuxList := remove1 i (g_unusedMuxList m)\<rparr>;
                   m2 = mod_mux i (\<lambda>c. c\<lparr>muxCount := 0, muxStat := OS_MUX_USED, muxPriority := 0, owner := None\<rparr>) m1;
                   s1 = mod_lst (ls_init (MuxList i)) s
               in (LOS_OK, Some (muxID (g_allMux m2 i)), (m2, s1))))"

definition LOS_MuxDelete :: "u32 \<Rightarrow> muxst \<Rightarrow> u32 \<times> muxst" where
  "LOS_MuxDelete muxHandle = (\<lambda>(m, s).
     if muxHandle \<ge> MUX_LIMIT m then (LOS_ERRNO_MUX_INVALID, (m, s))
     else let i = unat muxHandle
          in if muxStat (g_allMux m i) = OS_MUX_UNUSED then (LOS_ERRNO_MUX_INVALID, (m, s))
             else if mux_waiters s i \<noteq> [] \<or> muxCount (g_allMux m i) \<noteq> 0 then (LOS_ERRNO_MUX_PENDED, (m, s))
             else let m1 = m\<lparr>g_unusedMuxList := i # g_unusedMuxList m\<rparr>
                  in (LOS_OK, (mod_mux i (\<lambda>c. c\<lparr>muxStat := OS_MUX_UNUSED\<rparr>) m1, s)))"

definition OsMuxValidCheck :: "LosMuxCB \<Rightarrow> ksched \<Rightarrow> u32" where
  "OsMuxValidCheck muxPended s =
     (if muxStat muxPended = OS_MUX_UNUSED then LOS_ERRNO_MUX_INVALID
      else if intActive s then LOS_ERRNO_MUX_IN_INTERR
      else if g_losTaskLock s \<noteq> 0 then LOS_ERRNO_MUX_PEND_IN_LOCK
      else if hasFlag (status s (runTask s)) OS_TASK_FLAG_SYSTEM_TASK then LOS_ERRNO_MUX_PEND_IN_SYSTEM_TASK
      else LOS_OK)"

text \<open>
  The last branch follows \<open>muxPended->owner\<close>; a mutex whose count is not zero has an owner (the
  invariant below), so the case of a \<open>NULL\<close> owner, in which the model only queues the task, does
  not arise.
\<close>

definition LOS_MuxPend :: "u32 \<Rightarrow> u32 \<Rightarrow> muxst \<Rightarrow> u32 option \<times> muxst" where
  "LOS_MuxPend muxHandle timeout = (\<lambda>(m, s).
     if muxHandle \<ge> MUX_LIMIT m then (Some LOS_ERRNO_MUX_INVALID, (m, s))
     else let i = unat muxHandle; retErr = OsMuxValidCheck (g_allMux m i) s; r = runTask s
          in if retErr \<noteq> LOS_OK then (Some retErr, (m, s))
             else if muxCount (g_allMux m i) = 0
                  then (Some LOS_OK, (mod_mux i (\<lambda>c. c\<lparr>muxCount := muxCount c + 1, owner := Some r,
                                                      muxPriority := priority (tcb s r)\<rparr>) m, s))
             else if owner (g_allMux m i) = Some r
                  then (Some LOS_OK, (mod_mux i (\<lambda>c. c\<lparr>muxCount := muxCount c + 1\<rparr>) m, s))
             else if timeout = 0 then (Some LOS_ERRNO_MUX_UNAVAILABLE, (m, s))
             else let s1 = mod_task r (\<lambda>c. c\<lparr>taskMux := Some i\<rparr>) s;
                      s2 = (case owner (g_allMux m i) of
                              None \<Rightarrow> s1
                            | Some t \<Rightarrow> if priority (tcb s1 t) > priority (tcb s1 r)
                                        then snd (OsSchedModifyTaskSchedParam t (priority (tcb s1 r)) s1) else s1);
                      s3 = OsSchedTaskWait (MuxList i) timeout s2
                  in (None, (m, LOS_Schedule s3)))"

definition LOS_MuxPend_resume :: "tptr \<Rightarrow> ksched \<Rightarrow> u32 \<times> ksched" where
  "LOS_MuxPend_resume runningTask s =
     (if hasFlag (status s runningTask) OS_TASK_STATUS_TIMEOUT
      then (LOS_ERRNO_MUX_TIMEOUT, clr_status runningTask OS_TASK_STATUS_TIMEOUT s)
      else (LOS_OK, s))"

definition LOS_MuxPost :: "u32 \<Rightarrow> muxst \<Rightarrow> u32 \<times> muxst" where
  "LOS_MuxPost muxHandle = (\<lambda>(m, s).
     let i = unat muxHandle; r = runTask s
     in if muxHandle \<ge> MUX_LIMIT m \<or> muxStat (g_allMux m i) = OS_MUX_UNUSED then (LOS_ERRNO_MUX_INVALID, (m, s))
        else if intActive s then (LOS_ERRNO_MUX_IN_INTERR, (m, s))
        else if muxCount (g_allMux m i) = 0 \<or> owner (g_allMux m i) \<noteq> Some r then (LOS_ERRNO_MUX_INVALID, (m, s))
        else let m1 = mod_mux i (\<lambda>c. c\<lparr>muxCount := muxCount c - 1\<rparr>) m
             in if muxCount (g_allMux m1 i) \<noteq> 0 then (LOS_OK, (m1, s))
                else let s1 = (if priority (tcb s r) \<noteq> muxPriority (g_allMux m1 i)
                               then snd (OsSchedModifyTaskSchedParam r (muxPriority (g_allMux m1 i)) s) else s)
                     in case mux_waiters s1 i of
                          t # _ \<Rightarrow>
                            (let m2 = mod_mux i (\<lambda>c. c\<lparr>muxCount := 1, owner := Some t,
                                                       muxPriority := priority (tcb s1 t)\<rparr>) m1;
                                 s2 = mod_task t (\<lambda>c. c\<lparr>taskMux := None\<rparr>) s1
                             in (LOS_OK, (m2, LOS_Schedule (OsSchedTaskWake t s2))))
                        | [] \<Rightarrow> (LOS_OK, (mod_mux i (\<lambda>c. c\<lparr>owner := None\<rparr>) m1, s1)))"

section \<open>Invariant\<close>

text \<open>
  A used mutex is locked exactly when it has an owner, the owner does not wait for it, nobody waits
  for a free mutex, and the priority to be restored is a valid one.  \<open>live\<close> is the set of the tasks
  that exist.
\<close>

definition mux_cb_ok :: "(tptr \<Rightarrow> bool) \<Rightarrow> LosMuxCB \<Rightarrow> tptr list \<Rightarrow> bool" where
  "mux_cb_ok live c ws \<longleftrightarrow>
     (if muxStat c = OS_MUX_UNUSED then ws = []
      else (case owner c of None \<Rightarrow> muxCount c = 0 \<and> ws = []
            | Some t \<Rightarrow> muxCount c \<noteq> 0 \<and> t \<notin> set ws \<and> live t \<and> unat (muxPriority c) < 32))"

definition mux_ok :: "muxes \<Rightarrow> (tptr \<Rightarrow> bool) \<Rightarrow> (nat \<Rightarrow> tptr list) \<Rightarrow> bool" where
  "mux_ok m live W \<longleftrightarrow> distinct (g_unusedMuxList m) \<and>
     (\<forall>i. i \<in> set (g_unusedMuxList m) \<longleftrightarrow> i < unat (MUX_LIMIT m) \<and> muxStat (g_allMux m i) = OS_MUX_UNUSED) \<and>
     (\<forall>i < unat (MUX_LIMIT m). muxID (g_allMux m i) = of_nat i \<and> mux_cb_ok live (g_allMux m i) (W i))"

abbreviation live_task :: "ksched \<Rightarrow> tptr \<Rightarrow> bool" where
  "live_task s t \<equiv> \<not> hasFlag (status s t) OS_TASK_STATUS_UNUSED"

definition mux_inv :: "muxst \<Rightarrow> bool" where
  "mux_inv = (\<lambda>(m, s). sched_inv s \<and> mux_ok m (live_task s) (mux_waiters s))"

lemma mux_invI: "sched_inv s \<Longrightarrow> mux_ok m (live_task s) (mux_waiters s) \<Longrightarrow> mux_inv (m, s)"
  by (simp add: mux_inv_def)

lemma mux_invD: "mux_inv (m, s) \<Longrightarrow> sched_inv s" "mux_inv (m, s) \<Longrightarrow> mux_ok m (live_task s) (mux_waiters s)"
  by (simp_all add: mux_inv_def)

lemma mux_ok_cb: "mux_ok m live W \<Longrightarrow> i < unat (MUX_LIMIT m) \<Longrightarrow> mux_cb_ok live (g_allMux m i) (W i)"
  by (simp add: mux_ok_def)

lemma mux_ok_mod:
  assumes "mux_ok m live W" and "i < unat (MUX_LIMIT m)" and "muxStat (g_allMux m i) \<noteq> OS_MUX_UNUSED"
    and "muxStat (f (g_allMux m i)) = muxStat (g_allMux m i)" and "muxID (f (g_allMux m i)) = muxID (g_allMux m i)"
    and "mux_cb_ok live (f (g_allMux m i)) (W' i)" and "\<And>j. j \<noteq> i \<Longrightarrow> W' j = W j"
  shows "mux_ok (mod_mux i f m) live W'"
  using assms unfolding mux_ok_def by auto

lemma mux_ok_env:
  assumes "mux_ok m live W" and "\<And>j. set (W' j) \<subseteq> set (W j)"
    and "\<And>i t. i < unat (MUX_LIMIT m) \<Longrightarrow> owner (g_allMux m i) = Some t \<Longrightarrow> live t \<Longrightarrow> live' t"
  shows "mux_ok m live' W'"
proof -
  have "W' j = []" if "W j = []" for j using assms(2) [of j] that by simp
  then have "mux_cb_ok live' (g_allMux m i) (W' i)" if "i < unat (MUX_LIMIT m)" for i
    using mux_ok_cb [OF assms(1) that] assms(2) [of i] assms(3) [OF that]
    by (auto simp: mux_cb_ok_def split: if_splits option.splits)
  then show ?thesis using assms(1) by (simp add: mux_ok_def)
qed

text \<open>A change of priority moves a task between ready queues only.\<close>

lemma ModifyParam_frame:
  fixes s :: ksched and t :: tptr and p :: u16
  assumes "sched_inv s"
  defines "s' \<equiv> snd (OsSchedModifyTaskSchedParam t p s)"
  shows "runTask s' = runTask s" and "intActive s' = intActive s" and "g_losTaskLock s' = g_losTaskLock s"
    and "g_idleTaskID s' = g_idleTaskID s" and "taskID (tcb s' u) = taskID (tcb s u)"
    and "priority (tcb s' u) = (if u = t then p else priority (tcb s u))"
    and "status s' u = status s u" and "is_wait k \<Longrightarrow> ls_nodes (lst s') k = ls_nodes (lst s) k"
    and "g_taskScheduled s' = g_taskScheduled s" and "conf s' = conf s" and "sysCycle s' = sysCycle s"
    and "g_taskMaxNum s' = g_taskMaxNum s" and "g_swtmrTaskID s' = g_swtmrTaskID s"
    and "swtSort s' = swtSort s"
proof -
  note tk = sched_inv_task [OF assms(1), of t]
  have st: "enq_status (clrFlag st OS_TASK_STATUS_READY) = st"
    if "hasFlag st OS_TASK_STATUS_READY" "\<not> hasFlag st OS_TASK_STATUS_PEND" "\<not> hasFlag st OS_TASK_STATUS_SUSPEND"
      "\<not> hasFlag st OS_TASK_STATUS_DELAY" "\<not> hasFlag st OS_TASK_STATUS_PEND_TIME" for st
    using that by (auto simp: word_eq_hasFlag)
  have rd: "status s' u = status s u \<and> (is_wait k \<longrightarrow> ls_nodes (lst s') k = ls_nodes (lst s) k)"
    if r: "hasFlag (status s t) OS_TASK_STATUS_READY"
  proof -
    let ?s1 = "mod_task t (\<lambda>c. c\<lparr>priority := p\<rparr>) (OsSchedTaskDeQueue t s)"
    note d = tok_readyD [OF tk r]
    have loc: "\<not> is_idle s t \<Longrightarrow> ls_loc (lst s) t = Some (PriQueue (unat (priority (tcb s t))))" using d(13) by simp
    have "ls_loc (lst ?s1) t = None" using DeQueue_loc [OF r loc] d(13) by simp
    then show ?thesis
      using DeQueue_nodes [OF r loc] EnQueue_nodes [of ?s1 t] r st [OF r d(2,3,4,5)]
      by (auto simp: s'_def OsSchedModifyTaskSchedParam_def Let_def)
  qed
  show "status s' u = status s u"
    using rd by (cases "hasFlag (status s t) OS_TASK_STATUS_READY") (auto simp: s'_def OsSchedModifyTaskSchedParam_def Let_def)
  show "is_wait k \<Longrightarrow> ls_nodes (lst s') k = ls_nodes (lst s) k"
    using rd by (cases "hasFlag (status s t) OS_TASK_STATUS_READY") (auto simp: s'_def OsSchedModifyTaskSchedParam_def Let_def)
qed (simp_all add: s'_def OsSchedModifyTaskSchedParam_def Let_def)

lemmas ModifyParam_simps = ModifyParam_frame(1-7,9-14)

section \<open>Operations keep the invariant\<close>

lemma LOS_MuxCreate_inv:
  assumes "mux_inv (m, s)"
  shows "mux_inv (snd (snd (LOS_MuxCreate nn (m, s))))"
proof (cases "nn \<and> g_unusedMuxList m \<noteq> []")
  case True
  note ok = mux_invD [OF assms]
  obtain i js where u: "g_unusedMuxList m = i # js" using True by (cases "g_unusedMuxList m") auto
  have "i < unat (MUX_LIMIT m) \<and> muxStat (g_allMux m i) = OS_MUX_UNUSED"
    using ok(2) u unfolding mux_ok_def by (metis list.set_intros(1))
  then have i: "i < unat (MUX_LIMIT m)" "muxStat (g_allMux m i) = OS_MUX_UNUSED" "i \<notin> set js" "distinct js"
    "muxID (g_allMux m i) = of_nat i" "mux_waiters s i = []"
    "\<And>j. j = i \<or> j \<in> set js \<longleftrightarrow> j < unat (MUX_LIMIT m) \<and> muxStat (g_allMux m j) = OS_MUX_UNUSED"
    using ok(2) u unfolding mux_ok_def mux_cb_ok_def by auto
  have l: "mod_lst (ls_init (MuxList i)) s = s"
    using i(6) by (simp add: ls_init_def fun_upd_idem)
  have "mux_ok (mod_mux i (\<lambda>c. c\<lparr>muxCount := 0, muxStat := OS_MUX_USED, muxPriority := 0, owner := None\<rparr>)
      (m\<lparr>g_unusedMuxList := js\<rparr>)) (live_task s) (mux_waiters s)"
    using ok(2) i unfolding mux_ok_def by (auto simp: u mux_cb_ok_def)
  then show ?thesis
    using True ok(1) u by (simp add: mux_inv_def LOS_MuxCreate_def l Let_def)
next
  case False
  then show ?thesis using assms
    by (auto simp: LOS_MuxCreate_def split: list.splits)
qed

lemma LOS_MuxDelete_inv:
  assumes "mux_inv (m, s)"
  shows "mux_inv (snd (LOS_MuxDelete h (m, s)))"
proof (cases "h < MUX_LIMIT m \<and> muxStat (g_allMux m (unat h)) \<noteq> OS_MUX_UNUSED \<and> mux_waiters s (unat h) = []
    \<and> muxCount (g_allMux m (unat h)) = 0")
  case True
  note ok = mux_invD [OF assms]
  have i: "unat h < unat (MUX_LIMIT m)" using True by (simp add: word_less_nat_alt)
  have "mux_ok (mod_mux (unat h) (\<lambda>c. c\<lparr>muxStat := OS_MUX_UNUSED\<rparr>)
      (m\<lparr>g_unusedMuxList := unat h # g_unusedMuxList m\<rparr>)) (live_task s) (mux_waiters s)"
    using ok(2) i True unfolding mux_ok_def by (auto simp: mux_cb_ok_def)
  then show ?thesis using True ok by (simp add: mux_inv_def LOS_MuxDelete_def Let_def)
next
  case False
  then show ?thesis using assms by (auto simp: LOS_MuxDelete_def Let_def not_le)
qed

text \<open>The state in which a task that has to wait for the mutex of \<open>t\<close> is left.\<close>

definition mux_blocked :: "nat \<Rightarrow> tptr \<Rightarrow> u32 \<Rightarrow> ksched \<Rightarrow> ksched" where
  "mux_blocked i t n s =
     (let s1 = mod_task (runTask s) (\<lambda>c. c\<lparr>taskMux := Some i\<rparr>) s;
          s2 = (if priority (tcb s1 t) > priority (tcb s1 (runTask s))
                then snd (OsSchedModifyTaskSchedParam t (priority (tcb s1 (runTask s))) s1) else s1)
      in OsSchedTaskWait (MuxList i) n s2)"

lemma mux_blocked_spec:
  assumes inv: "sched_inv s" and cb: "can_block s" and t: "live_task s t" "t \<noteq> runTask s"
  shows "sched_inv (mux_blocked i t n s)"
    and "\<And>k. is_wait k \<Longrightarrow> ls_nodes (lst (mux_blocked i t n s)) k =
      (if k = MuxList i then mux_waiters s i @ [runTask s] else ls_nodes (lst s) k)"
    and "\<And>u. live_task (mux_blocked i t n s) u = live_task s u"
    and "\<And>u. priority (tcb (mux_blocked i t n s) u) =
      (if u = t then min (priority (tcb s t)) (priority (tcb s (runTask s))) else priority (tcb s u))"
    and "runTask (mux_blocked i t n s) = runTask s" and "intActive (mux_blocked i t n s) = intActive s"
proof -
  let ?r = "runTask s" and ?s1 = "mod_task (runTask s) (\<lambda>c. c\<lparr>taskMux := Some i\<rparr>) s"
  define s2 where "s2 = (if priority (tcb ?s1 t) > priority (tcb ?s1 ?r)
                then snd (OsSchedModifyTaskSchedParam t (priority (tcb ?s1 ?r)) ?s1) else ?s1)"
  have b: "mux_blocked i t n s = OsSchedTaskWait (MuxList i) n s2" by (simp add: mux_blocked_def Let_def s2_def)
  have i1: "sched_inv ?s1" using inv by simp
  have "unat (priority (tcb s ?r)) < 32"
    using tok_usedD(2) [OF sched_inv_task [OF inv, of ?r]] cb by (simp add: can_block_def)
  then have i2: "sched_inv s2"
    using OsSchedModifyTaskSchedParam_inv [OF i1, of "priority (tcb s ?r)" t] t i1 by (simp add: s2_def)
  note mf = ModifyParam_frame [OF i1, where t = t and p = "priority (tcb s ?r)"]
  have f: "runTask s2 = ?r" "\<And>u. status s2 u = status s u" "\<And>u. taskID (tcb s2 u) = taskID (tcb s u)"
    "g_idleTaskID s2 = g_idleTaskID s" "\<And>k. is_wait k \<Longrightarrow> ls_nodes (lst s2) k = ls_nodes (lst s) k"
    "intActive s2 = intActive s"
    using mf by (auto simp: s2_def)
  have pr: "priority (tcb s2 u) =
      (if u = t then min (priority (tcb s t)) (priority (tcb s (runTask s))) else priority (tcb s u))" for u
    using mf(6) t by (auto simp: s2_def min_def)
  have c2: "can_block s2" using cb f by (simp add: can_block_def)
  show "sched_inv (mux_blocked i t n s)" unfolding b by (rule wq.wait_ok [OF i2 c2]) simp
  show "ls_nodes (lst (mux_blocked i t n s)) k =
      (if k = MuxList i then mux_waiters s i @ [runTask s] else ls_nodes (lst s) k)" if "is_wait k" for k
    unfolding b using wq.wait_waiters [OF i2 c2 _ that, of "MuxList i" n] f that by (simp del: TaskWait_frame)
  show "live_task (mux_blocked i t n s) u = live_task s u" for u
    unfolding b TaskWait_tcb using f by simp
  show "priority (tcb (mux_blocked i t n s) u) =
      (if u = t then min (priority (tcb s t)) (priority (tcb s (runTask s))) else priority (tcb s u))" for u
    unfolding b using pr by simp
  show "runTask (mux_blocked i t n s) = runTask s" "intActive (mux_blocked i t n s) = intActive s"
    unfolding b using f by simp_all
qed

text \<open>What \<open>LOS_MuxPend\<close> does once the checks have passed.\<close>

lemma LOS_MuxPend_cases:
  assumes "h < MUX_LIMIT m" and "OsMuxValidCheck (g_allMux m (unat h)) s = LOS_OK"
    and "mux_ok m live W"
  obtains (lock) "muxCount (g_allMux m (unat h)) = 0" "owner (g_allMux m (unat h)) = None"
      "LOS_MuxPend h n (m, s) = (Some LOS_OK, (mod_mux (unat h) (\<lambda>c. c\<lparr>muxCount := muxCount c + 1,
         owner := Some (runTask s), muxPriority := priority (tcb s (runTask s))\<rparr>) m, s))"
  | (again) "muxCount (g_allMux m (unat h)) \<noteq> 0" "owner (g_allMux m (unat h)) = Some (runTask s)"
      "LOS_MuxPend h n (m, s) = (Some LOS_OK, (mod_mux (unat h) (\<lambda>c. c\<lparr>muxCount := muxCount c + 1\<rparr>) m, s))"
  | (busy) t where "muxCount (g_allMux m (unat h)) \<noteq> 0" "owner (g_allMux m (unat h)) = Some t" "t \<noteq> runTask s"
      "n = 0" "LOS_MuxPend h n (m, s) = (Some LOS_ERRNO_MUX_UNAVAILABLE, (m, s))"
  | (wait) t where "muxCount (g_allMux m (unat h)) \<noteq> 0" "owner (g_allMux m (unat h)) = Some t" "t \<noteq> runTask s"
      "n \<noteq> 0" "LOS_MuxPend h n (m, s) = (None, (m, LOS_Schedule (mux_blocked (unat h) t n s)))"
proof -
  let ?c = "g_allMux m (unat h)"
  have nh: "\<not> MUX_LIMIT m \<le> h" using assms(1) by (simp add: not_le)
  have "muxStat ?c \<noteq> OS_MUX_UNUSED" using assms(2) by (auto simp: OsMuxValidCheck_def split: if_splits)
  then have o: "(owner ?c = None \<longleftrightarrow> muxCount ?c = 0)"
    using mux_ok_cb [OF assms(3), of "unat h"] assms(1)
    by (auto simp: mux_cb_ok_def word_less_nat_alt split: option.splits)
  consider "owner ?c = None" "muxCount ?c = 0" | "owner ?c = Some (runTask s)" "muxCount ?c \<noteq> 0"
    | t where "owner ?c = Some t" "t \<noteq> runTask s" "muxCount ?c \<noteq> 0" "n = 0"
    | t where "owner ?c = Some t" "t \<noteq> runTask s" "muxCount ?c \<noteq> 0" "n \<noteq> 0"
    using o by (cases "owner ?c") auto
  then show thesis
  proof cases
    case 1
    then show ?thesis using lock nh assms(2) by (simp add: LOS_MuxPend_def Let_def)
  next
    case 2
    then show ?thesis using again nh assms(2) by (simp add: LOS_MuxPend_def Let_def)
  next
    case (3 t)
    then show ?thesis using busy [of t] nh assms(2) by (simp add: LOS_MuxPend_def Let_def)
  next
    case (4 t)
    then show ?thesis using wait [of t] nh assms(2) by (simp add: LOS_MuxPend_def Let_def mux_blocked_def)
  qed
qed

lemma word16_inc_nz: "(x :: u16) \<noteq> 0xFFFF \<Longrightarrow> x + 1 \<noteq> 0"
proof
  assume "x \<noteq> 0xFFFF" and "x + 1 = 0"
  then have "x = - 1" by (simp add: eq_neg_iff_add_eq_0)
  then show False using \<open>x \<noteq> 0xFFFF\<close> by (simp add: One_nat_def)
qed

lemma LOS_MuxPend_inv:
  assumes inv: "mux_inv (m, s)" and cb: "can_block s"
    and nowrap: "owner (g_allMux m (unat h)) = Some (runTask s) \<Longrightarrow> muxCount (g_allMux m (unat h)) \<noteq> 0xFFFF"
  shows "mux_inv (snd (LOS_MuxPend h n (m, s)))"
proof (cases "h < MUX_LIMIT m \<and> OsMuxValidCheck (g_allMux m (unat h)) s = LOS_OK")
  case True
  note ok = mux_invD [OF inv]
  let ?i = "unat h"
  have i: "?i < unat (MUX_LIMIT m)" "muxStat (g_allMux m ?i) \<noteq> OS_MUX_UNUSED"
    using True by (auto simp: word_less_nat_alt OsMuxValidCheck_def split: if_splits)
  note cbok = mux_ok_cb [OF ok(2) i(1)]
  have r: "live_task s (runTask s)" "unat (priority (tcb s (runTask s))) < 32"
    using tok_usedD(2) [OF sched_inv_task [OF ok(1), of "runTask s"]] cb by (simp_all add: can_block_def)
  show ?thesis
  proof (rule LOS_MuxPend_cases [OF conjunct1 [OF True] conjunct2 [OF True] ok(2), of n])
    assume c: "muxCount (g_allMux m ?i) = 0" "owner (g_allMux m ?i) = None"
      and e: "LOS_MuxPend h n (m, s) = (Some LOS_OK, (mod_mux ?i (\<lambda>c. c\<lparr>muxCount := muxCount c + 1,
         owner := Some (runTask s), muxPriority := priority (tcb s (runTask s))\<rparr>) m, s))"
    have "mux_ok (mod_mux ?i (\<lambda>c. c\<lparr>muxCount := muxCount c + 1,
         owner := Some (runTask s), muxPriority := priority (tcb s (runTask s))\<rparr>) m) (live_task s) (mux_waiters s)"
      by (rule mux_ok_mod [OF ok(2) i]) (use cbok c i r in \<open>simp_all add: mux_cb_ok_def\<close>)
    then show ?thesis using e ok(1) by (simp add: mux_invI)
  next
    assume c: "muxCount (g_allMux m ?i) \<noteq> 0" "owner (g_allMux m ?i) = Some (runTask s)"
      and e: "LOS_MuxPend h n (m, s) = (Some LOS_OK, (mod_mux ?i (\<lambda>c. c\<lparr>muxCount := muxCount c + 1\<rparr>) m, s))"
    have "mux_ok (mod_mux ?i (\<lambda>c. c\<lparr>muxCount := muxCount c + 1\<rparr>) m) (live_task s) (mux_waiters s)"
      by (rule mux_ok_mod [OF ok(2) i])
        (use cbok c i r word16_inc_nz [OF nowrap [OF c(2)]] in \<open>simp_all add: mux_cb_ok_def\<close>)
    then show ?thesis using e ok(1) by (simp add: mux_invI)
  next
    fix t
    assume c: "owner (g_allMux m ?i) = Some t" "t \<noteq> runTask s" and n: "muxCount (g_allMux m ?i) \<noteq> 0"
      and e: "LOS_MuxPend h n (m, s) = (None, (m, LOS_Schedule (mux_blocked ?i t n s)))"
    have t: "live_task s t" "t \<notin> set (mux_waiters s ?i)" using cbok c i by (simp_all add: mux_cb_ok_def)
    note b = mux_blocked_spec [OF ok(1) cb t(1) c(2), where i = ?i and n = n]
    have "mux_ok (mod_mux ?i (\<lambda>c. c) m) (live_task s) (mux_waiters (mux_blocked ?i t n s))"
      by (rule mux_ok_mod [OF ok(2) i])
        (use cbok c i n t b(2) in \<open>simp_all add: mux_cb_ok_def\<close>)
    then show ?thesis using e b(1,3) by (simp add: mux_inv_def)
  qed (use inv in simp)
next
  case False
  then show ?thesis using inv by (auto simp: LOS_MuxPend_def Let_def not_le)
qed

text \<open>The state after the owner's priority has been restored, and after the mutex was handed to \<open>t\<close>.\<close>

definition mux_restored :: "u16 \<Rightarrow> ksched \<Rightarrow> ksched" where
  "mux_restored p s = (if priority (tcb s (runTask s)) \<noteq> p
     then snd (OsSchedModifyTaskSchedParam (runTask s) p s) else s)"

definition mux_woken :: "tptr \<Rightarrow> ksched \<Rightarrow> ksched" where
  "mux_woken t s = OsSchedTaskWake t (mod_task t (\<lambda>c. c\<lparr>taskMux := None\<rparr>) s)"

lemma mux_restored_spec:
  assumes inv: "sched_inv s" and p: "unat p < 32" and r: "live_task s (runTask s)"
  shows "sched_inv (mux_restored p s)"
    and "\<And>k. is_wait k \<Longrightarrow> ls_nodes (lst (mux_restored p s)) k = ls_nodes (lst s) k"
    and "\<And>u. status (mux_restored p s) u = status s u"
    and "\<And>u. priority (tcb (mux_restored p s) u) = (if u = runTask s then p else priority (tcb s u))"
    and "runTask (mux_restored p s) = runTask s" and "intActive (mux_restored p s) = intActive s"
  using OsSchedModifyTaskSchedParam_inv [OF inv p r] inv ModifyParam_frame [OF inv, where t = "runTask s" and p = p]
  by (auto simp: mux_restored_def)

lemma mux_woken_spec:
  assumes inv: "sched_inv s" and w: "mux_waiters s i = t # ts"
  shows "sched_inv (mux_woken t s)"
    and "\<And>k. is_wait k \<Longrightarrow> ls_nodes (lst (mux_woken t s)) k = (if k = MuxList i then ts else ls_nodes (lst s) k)"
    and "\<And>u. status (mux_woken t s) u = (if u = t then woken_status (status s t) else status s u)"
    and "\<And>u. live_task (mux_woken t s) u = live_task s u"
    and "\<And>u. priority (tcb (mux_woken t s) u) = priority (tcb s u)"
    and "runTask (mux_woken t s) = runTask s"
proof -
  let ?s1 = "mod_task t (\<lambda>c. c\<lparr>taskMux := None\<rparr>) s"
  have "sched_inv ?s1" using inv by simp
  note f = wq.wake_first [OF this, of "MuxList i" t ts]
  show "sched_inv (mux_woken t s)" using f(1) w by (simp add: mux_woken_def)
  show "is_wait k \<Longrightarrow> ls_nodes (lst (mux_woken t s)) k = (if k = MuxList i then ts else ls_nodes (lst s) k)" for k
    using f(2,3) w by (simp add: mux_woken_def)
  show st: "status (mux_woken t s) u = (if u = t then woken_status (status s t) else status s u)" for u
    using TaskWake_status_at [of t ?s1 u] by (simp add: mux_woken_def)
  have "hasFlag (woken_status x) OS_TASK_STATUS_UNUSED = hasFlag x OS_TASK_STATUS_UNUSED" for x
    by (simp add: woken_status_def Let_def)
  then show "live_task (mux_woken t s) u = live_task s u" for u using st by simp
  show "priority (tcb (mux_woken t s) u) = priority (tcb s u)" "runTask (mux_woken t s) = runTask s" for u
    by (simp_all add: mux_woken_def)
qed

text \<open>What \<open>LOS_MuxPost\<close> does once the checks have passed.\<close>

abbreviation may_post :: "u32 \<Rightarrow> muxst \<Rightarrow> bool" where
  "may_post h st \<equiv> h < MUX_LIMIT (fst st) \<and> muxStat (g_allMux (fst st) (unat h)) \<noteq> OS_MUX_UNUSED \<and>
     \<not> intActive (snd st) \<and> muxCount (g_allMux (fst st) (unat h)) \<noteq> 0 \<and>
     owner (g_allMux (fst st) (unat h)) = Some (runTask (snd st))"

lemma LOS_MuxPost_cases:
  assumes "may_post h (m, s)"
  defines "s1 \<equiv> mux_restored (muxPriority (g_allMux m (unat h))) s"
  obtains (nested) "muxCount (g_allMux m (unat h)) \<noteq> 1"
      "LOS_MuxPost h (m, s) = (LOS_OK, (mod_mux (unat h) (\<lambda>c. c\<lparr>muxCount := muxCount c - 1\<rparr>) m, s))"
  | (free) "muxCount (g_allMux m (unat h)) = 1" "mux_waiters s1 (unat h) = []"
      "LOS_MuxPost h (m, s) = (LOS_OK, (mod_mux (unat h) (\<lambda>c. c\<lparr>muxCount := 0, owner := None\<rparr>) m, s1))"
  | (pass) t ts where "muxCount (g_allMux m (unat h)) = 1" "mux_waiters s1 (unat h) = t # ts"
      "LOS_MuxPost h (m, s) = (LOS_OK, (mod_mux (unat h) (\<lambda>c. c\<lparr>muxCount := 1, owner := Some t,
         muxPriority := priority (tcb s1 t)\<rparr>) m, LOS_Schedule (mux_woken t s1)))"
proof -
  have nh: "\<not> MUX_LIMIT m \<le> h" using assms(1) by (simp add: not_le)
  consider "muxCount (g_allMux m (unat h)) \<noteq> 1"
    | "muxCount (g_allMux m (unat h)) = 1" "mux_waiters s1 (unat h) = []"
    | t ts where "muxCount (g_allMux m (unat h)) = 1" "mux_waiters s1 (unat h) = t # ts"
    by (cases "mux_waiters s1 (unat h)") auto
  then show thesis
  proof cases
    case 1
    then have "muxCount (g_allMux m (unat h)) - 1 \<noteq> 0" by simp
    then show ?thesis using nested 1 nh assms(1) by (simp add: LOS_MuxPost_def Let_def)
  next
    case 2
    then show ?thesis
      using free nh assms(1) by (cases "priority (tcb s (runTask s)) = muxPriority (g_allMux m (unat h))")
        (simp_all add: LOS_MuxPost_def Let_def s1_def mux_restored_def)
  next
    case (3 t ts)
    then show ?thesis
      using pass [of t ts] nh assms(1) by (cases "priority (tcb s (runTask s)) = muxPriority (g_allMux m (unat h))")
        (simp_all add: LOS_MuxPost_def Let_def s1_def mux_restored_def mux_woken_def)
  qed
qed

lemma LOS_MuxPost_refused: "\<not> may_post h st \<Longrightarrow> snd (LOS_MuxPost h st) = st \<and> fst (LOS_MuxPost h st) \<noteq> LOS_OK"
  by (cases st) (auto simp: LOS_MuxPost_def Let_def not_le)

lemma LOS_MuxPost_inv:
  assumes inv: "mux_inv (m, s)"
  shows "mux_inv (snd (LOS_MuxPost h (m, s)))"
proof (cases "may_post h (m, s)")
  case True
  note ok = mux_invD [OF inv]
  let ?i = "unat h" and ?s1 = "mux_restored (muxPriority (g_allMux m (unat h))) s"
  have i: "?i < unat (MUX_LIMIT m)" "muxStat (g_allMux m ?i) \<noteq> OS_MUX_UNUSED"
    using True by (simp_all add: word_less_nat_alt)
  note cbok = mux_ok_cb [OF ok(2) i(1)]
  have r: "live_task s (runTask s)" "unat (muxPriority (g_allMux m ?i)) < 32"
    using cbok True by (simp_all add: mux_cb_ok_def)
  note rs = mux_restored_spec [OF ok(1) r(2,1)]
  have ok1: "mux_ok m (live_task ?s1) (mux_waiters ?s1)" using ok(2) rs(2,3) by simp
  note cbok1 = mux_ok_cb [OF ok1 i(1)]
  show ?thesis
  proof (rule LOS_MuxPost_cases [OF True])
    assume e: "LOS_MuxPost h (m, s) = (LOS_OK, (mod_mux ?i (\<lambda>c. c\<lparr>muxCount := muxCount c - 1\<rparr>) m, s))"
      and c: "muxCount (g_allMux m ?i) \<noteq> 1"
    have "mux_ok (mod_mux ?i (\<lambda>c. c\<lparr>muxCount := muxCount c - 1\<rparr>) m) (live_task s) (mux_waiters s)"
      by (rule mux_ok_mod [OF ok(2) i]) (use cbok True c in \<open>auto simp: mux_cb_ok_def\<close>)
    then show ?thesis using e ok(1) by (simp add: mux_invI)
  next
    assume e: "LOS_MuxPost h (m, s) = (LOS_OK, (mod_mux ?i (\<lambda>c. c\<lparr>muxCount := 0, owner := None\<rparr>) m, ?s1))"
      and w: "mux_waiters ?s1 ?i = []"
    have "mux_ok (mod_mux ?i (\<lambda>c. c\<lparr>muxCount := 0, owner := None\<rparr>) m) (live_task ?s1) (mux_waiters ?s1)"
      by (rule mux_ok_mod [OF ok1 i]) (use i w in \<open>simp_all add: mux_cb_ok_def\<close>)
    then show ?thesis using e rs(1) by (simp add: mux_invI)
  next
    fix t ts
    assume e: "LOS_MuxPost h (m, s) = (LOS_OK, (mod_mux ?i (\<lambda>c. c\<lparr>muxCount := 1, owner := Some t,
         muxPriority := priority (tcb ?s1 t)\<rparr>) m, LOS_Schedule (mux_woken t ?s1)))"
      and w: "mux_waiters ?s1 ?i = t # ts"
    note wk = mux_woken_spec [OF rs(1) w]
    have "distinct (t # ts)" using wq.distinct_waiters [OF rs(1), of "MuxList ?i"] w by simp
    moreover have "hasFlag (status ?s1 t) OS_TASK_STATUS_PEND"
      by (rule waiter_pend [OF rs(1), of "MuxList ?i"]) (simp_all add: w)
    then have "live_task ?s1 t" "unat (priority (tcb ?s1 t)) < 32"
      using tok_pendD(3,6) [OF sched_inv_task [OF rs(1), of t]] by simp_all
    ultimately have "mux_ok (mod_mux ?i (\<lambda>c. c\<lparr>muxCount := 1, owner := Some t,
         muxPriority := priority (tcb ?s1 t)\<rparr>) m) (live_task ?s1) (mux_waiters (mux_woken t ?s1))"
      by (intro mux_ok_mod [OF ok1 i]) (use i wk(2) in \<open>simp_all add: mux_cb_ok_def\<close>)
    then show ?thesis using e wk(1,4) by (simp add: mux_inv_def)
  qed
next
  case False
  then show ?thesis using inv LOS_MuxPost_refused by simp
qed

lemma LOS_MuxPend_resume_inv: "sched_inv s \<Longrightarrow> sched_inv (snd (LOS_MuxPend_resume t s))"
  by (auto simp: LOS_MuxPend_resume_def intro!: sched_inv_flags)

lemma mux_init_fold:
  "n \<le> 2 ^ 32 \<Longrightarrow> g_unusedMuxList m = [] \<Longrightarrow>
   (let m' = foldl (\<lambda>a index.
        let b = mod_mux index (\<lambda>c. c\<lparr>muxID := of_nat index, owner := None, muxStat := OS_MUX_UNUSED\<rparr>) a
        in b\<lparr>g_unusedMuxList := g_unusedMuxList b @ [index]\<rparr>) m [0..<n]
    in g_unusedMuxList m' = [0..<n] \<and> MUX_LIMIT m' = MUX_LIMIT m \<and>
       (\<forall>i < n. muxID (g_allMux m' i) = of_nat i \<and> muxStat (g_allMux m' i) = OS_MUX_UNUSED))"
  by (induction n) (auto simp: Let_def less_Suc_eq)

lemma OsMuxInit_ok:
  assumes "OsMuxInit memOk m0 = (LOS_OK, m)" and "\<And>i. W i = []"
  shows "mux_ok m live W"
proof -
  have "MUX_LIMIT m0 \<noteq> 0" "memOk" using assms(1) by (auto simp: OsMuxInit_def Let_def split: if_splits)
  then have m: "m = foldl (\<lambda>a index.
        let b = mod_mux index (\<lambda>c. c\<lparr>muxID := of_nat index, owner := None, muxStat := OS_MUX_UNUSED\<rparr>) a
        in b\<lparr>g_unusedMuxList := g_unusedMuxList b @ [index]\<rparr>) (m0\<lparr>g_unusedMuxList := []\<rparr>) [0..<unat (MUX_LIMIT m0)]"
    using assms(1) by (simp add: OsMuxInit_def Let_def)
  have "unat (MUX_LIMIT m0) < 2 ^ LENGTH(32)" by (rule unsigned_less)
  then have "g_unusedMuxList m = [0..<unat (MUX_LIMIT m0)] \<and> MUX_LIMIT m = MUX_LIMIT m0 \<and>
      (\<forall>i < unat (MUX_LIMIT m0). muxID (g_allMux m i) = of_nat i \<and> muxStat (g_allMux m i) = OS_MUX_UNUSED)"
    using mux_init_fold [of "unat (MUX_LIMIT m0)" "m0\<lparr>g_unusedMuxList := []\<rparr>"] by (simp add: m Let_def)
  then show ?thesis using assms(2) by (auto simp: mux_ok_def mux_cb_ok_def)
qed

section \<open>Histories\<close>

text \<open>
  The calls, and whatever the kernel does in between, which keeps the scheduler invariant, adds no
  waiting task and deletes no owner (the module has no way to learn that an owner was deleted).
  Recursive locking is limited to what the counter holds.
\<close>

inductive mux_step :: "muxst \<Rightarrow> muxst \<Rightarrow> bool" where
  create: "mux_step st (snd (snd (LOS_MuxCreate nn st)))"
| delete: "mux_step st (snd (LOS_MuxDelete h st))"
| pend: "can_block s \<Longrightarrow>
    (owner (g_allMux m (unat h)) = Some (runTask s) \<Longrightarrow> muxCount (g_allMux m (unat h)) \<noteq> 0xFFFF) \<Longrightarrow>
    mux_step (m, s) (snd (LOS_MuxPend h n (m, s)))"
| resume: "mux_step (m, s) (m, snd (LOS_MuxPend_resume (runTask s) s))"
| post: "mux_step st (snd (LOS_MuxPost h st))"
| other: "sched_inv s' \<Longrightarrow> (\<And>i. set (mux_waiters s' i) \<subseteq> set (mux_waiters s i)) \<Longrightarrow>
    (\<And>i t. owner (g_allMux m i) = Some t \<Longrightarrow> live_task s t \<Longrightarrow> live_task s' t) \<Longrightarrow> mux_step (m, s) (m, s')"

lemma LOS_MuxPend_resume_live:
  "live_task (snd (LOS_MuxPend_resume r s)) t = live_task s t" "lst (snd (LOS_MuxPend_resume r s)) = lst s"
  by (simp_all add: LOS_MuxPend_resume_def)

lemma mux_step_inv:
  assumes "mux_step st st'" and "mux_inv st"
  shows "mux_inv st'"
  using assms
proof (induction rule: mux_step.induct)
  case (create st nn)
  then show ?case using LOS_MuxCreate_inv [of "fst st" "snd st"] by simp
next
  case (delete st h)
  then show ?case using LOS_MuxDelete_inv [of "fst st" "snd st"] by simp
next
  case (pend s m h n)
  then show ?case using LOS_MuxPend_inv by blast
next
  case (resume m s)
  then show ?case by (simp add: mux_inv_def LOS_MuxPend_resume_inv LOS_MuxPend_resume_live)
next
  case (post st h)
  then show ?case using LOS_MuxPost_inv [of "fst st" "snd st"] by simp
next
  case (other s' s m)
  then have "mux_ok m (live_task s') (mux_waiters s')"
    using mux_ok_env [of m "live_task s" "mux_waiters s" "mux_waiters s'" "live_task s'"] mux_invD(2) by blast
  then show ?case using other(1) by (rule mux_invI [rotated])
qed

lemma mux_steps_inv: "mux_step\<^sup>*\<^sup>* st st' \<Longrightarrow> mux_inv st \<Longrightarrow> mux_inv st'"
  by (induction rule: rtranclp_induct) (auto intro: mux_step_inv)

section \<open>Properties\<close>


definition demo_muxes0 :: muxes where
  "demo_muxes0 = \<lparr>MUX_LIMIT = 2,
     g_allMux = (\<lambda>_. \<lparr>muxStat = 0, muxCount = 0, muxID = 0, owner = None, muxPriority = 0\<rparr>), g_unusedMuxList = []\<rparr>"

lemma demo_mux_waiters [simp]: "ls_nodes demo_lst (MuxList i) = []"
  by (simp add: demo_lst_def)


text \<open>C13: priority inheritance.  A task that has to wait for a mutex joins the end of its queue, and the
  owner then runs at least at the priority of the waiting task: its priority becomes the more urgent
  of the two; no other priority changes.\<close>

theorem LOS_MuxPend_inherits:
  assumes "mux_inv (m, s)" and "can_block s" and "h < MUX_LIMIT m"
    and "OsMuxValidCheck (g_allMux m (unat h)) s = LOS_OK"
    and "owner (g_allMux m (unat h)) = Some t" and "t \<noteq> runTask s" and "n \<noteq> 0"
  shows "\<exists>s'. LOS_MuxPend h n (m, s) = (None, (m, s')) \<and>
     mux_waiters s' (unat h) = mux_waiters s (unat h) @ [runTask s] \<and>
     (\<forall>u. priority (tcb s' u) =
        (if u = t then min (priority (tcb s t)) (priority (tcb s (runTask s))) else priority (tcb s u)))"
proof (rule LOS_MuxPend_cases [OF assms(3,4) mux_invD(2) [OF assms(1)], of n])
  fix t'
  assume w: "owner (g_allMux m (unat h)) = Some t'"
    and e: "LOS_MuxPend h n (m, s) = (None, (m, LOS_Schedule (mux_blocked (unat h) t' n s)))"
  have i: "unat h < unat (MUX_LIMIT m)" "muxStat (g_allMux m (unat h)) \<noteq> OS_MUX_UNUSED"
    using assms(3,4) by (auto simp: word_less_nat_alt OsMuxValidCheck_def split: if_splits)
  have t: "t' = t" "live_task s t"
    using w assms(5) mux_ok_cb [OF mux_invD(2) [OF assms(1)] i(1)] i(2) by (simp_all add: mux_cb_ok_def)
  note b = mux_blocked_spec [OF mux_invD(1) [OF assms(1)] assms(2) t(2) assms(6), where i = "unat h" and n = n]
  show ?thesis using e b(2) [of "MuxList (unat h)"] b(4) t(1) by simp
qed (use assms in simp_all)

definition demo_muxes :: muxes where
  "demo_muxes = \<lparr>MUX_LIMIT = 2,
     g_allMux = (\<lambda>i. \<lparr>muxStat = OS_MUX_USED, muxCount = (if i = 0 then 1 else 0), muxID = of_nat i,
        owner = (if i = 0 then Some 2 else None), muxPriority = 20\<rparr>), g_unusedMuxList = []\<rparr>"

lemma demo_live: "live_task demo_sched 1" "live_task demo_sched 2"
  by (simp_all add: demo_tcb_def demo_cb_def)

lemma demo_can_block: "can_block demo_sched"
  by (simp add: can_block_def demo_tcb_def demo_cb_def)

lemma demo_mux_inv: "mux_inv (demo_muxes, demo_sched)"
  using demo_sched_inv demo_live(2)
  by (simp add: mux_inv_def mux_ok_def mux_cb_ok_def demo_muxes_def)

theorem LOS_MuxPend_inherits_witness:
  "\<exists>s'. LOS_MuxPend 0 7 (demo_muxes, demo_sched) = (None, (demo_muxes, s')) \<and> priority (tcb s' 2) = 10"
proof -
  have "OsMuxValidCheck (g_allMux demo_muxes 0) demo_sched = LOS_OK"
    by (simp add: OsMuxValidCheck_def demo_muxes_def demo_tcb_def demo_cb_def)
  moreover have "priority (demo_tcb 1) = 10" "priority (demo_tcb 2) = 20" by (simp_all add: demo_tcb_def demo_cb_def)
  ultimately show ?thesis
    using LOS_MuxPend_inherits [OF demo_mux_inv demo_can_block, of 0 2 7] by (auto simp: demo_muxes_def)
qed

text \<open>C12: hand-over.  When the owner releases its last lock and tasks are waiting, the first of them owns
  the mutex at once, with a count of one, so that no other task can take it in between; it leaves
  the queue, and the others keep their order.  The releasing task gets back the priority recorded
  when it took the mutex.\<close>

theorem LOS_MuxPost_hands_over:
  assumes inv: "mux_inv (m, s)" and h: "may_post h (m, s)" and one: "muxCount (g_allMux m (unat h)) = 1"
    and w: "mux_waiters s (unat h) = t # ts"
  shows "\<exists>m' s'. LOS_MuxPost h (m, s) = (LOS_OK, (m', s')) \<and> mux_inv (m', s') \<and>
     owner (g_allMux m' (unat h)) = Some t \<and> muxCount (g_allMux m' (unat h)) = 1 \<and>
     mux_waiters s' (unat h) = ts \<and> \<not> hasFlag (status s' t) OS_TASK_STATUS_PEND \<and>
     priority (tcb s' (runTask s)) = muxPriority (g_allMux m (unat h)) \<and>
     (\<forall>j. j \<noteq> unat h \<longrightarrow> g_allMux m' j = g_allMux m j)"
proof -
  let ?i = "unat h" and ?s1 = "mux_restored (muxPriority (g_allMux m (unat h))) s"
  have i: "?i < unat (MUX_LIMIT m)" using h by (simp add: word_less_nat_alt)
  have r: "unat (muxPriority (g_allMux m ?i)) < 32" "live_task s (runTask s)"
    using mux_ok_cb [OF mux_invD(2) [OF inv] i] h by (simp_all add: mux_cb_ok_def)
  note rs = mux_restored_spec [OF mux_invD(1) [OF inv] r]
  have w1: "mux_waiters ?s1 ?i = t # ts" using rs(2) w by simp
  note wk = mux_woken_spec [OF rs(1) w1]
  show ?thesis
  proof (rule LOS_MuxPost_cases [OF h])
    fix t' ts'
    assume "mux_waiters ?s1 ?i = t' # ts'"
      and e: "LOS_MuxPost h (m, s) = (LOS_OK, (mod_mux ?i (\<lambda>c. c\<lparr>muxCount := 1, owner := Some t',
         muxPriority := priority (tcb ?s1 t')\<rparr>) m, LOS_Schedule (mux_woken t' ?s1)))"
    then have e: "LOS_MuxPost h (m, s) = (LOS_OK, (mod_mux ?i (\<lambda>c. c\<lparr>muxCount := 1, owner := Some t,
         muxPriority := priority (tcb ?s1 t)\<rparr>) m, LOS_Schedule (mux_woken t ?s1)))" using w1 by simp
    have "\<not> hasFlag (woken_status st) OS_TASK_STATUS_PEND" for st by (simp add: woken_status_def Let_def)
    then show ?thesis
      using e wk(2) [of "MuxList ?i"] wk(3,5) rs(4,5) LOS_MuxPost_inv [OF inv, of h] by simp
  qed (use one w1 in simp_all)
qed

definition demo_muxes1 :: muxes where
  "demo_muxes1 = \<lparr>MUX_LIMIT = 2,
     g_allMux = (\<lambda>i. \<lparr>muxStat = OS_MUX_USED, muxCount = (if i = 0 then 1 else 0), muxID = of_nat i,
        owner = (if i = 0 then Some 1 else None), muxPriority = 15\<rparr>), g_unusedMuxList = []\<rparr>"

text \<open>The demonstration state with task 3 waiting on mutex 0 instead of semaphore 0.\<close>

definition demo_sched_mux :: ksched where
  "demo_sched_mux = demo_sched\<lparr>lst := demo_lst\<lparr>ls_nodes := (ls_nodes demo_lst)(SemList 0 := [], MuxList 0 := [3]),
     ls_loc := (ls_loc demo_lst)(3 \<mapsto> MuxList 0)\<rparr>\<rparr>"

lemma demo_sched_mux_inv: "sched_inv demo_sched_mux"
proof -
  have "ls_wf (lst demo_sched_mux)"
    by (auto simp: demo_sched_mux_def ls_wf_def demo_lst_def)
  moreover have "bitmap_ok (flagBit 11) (ls_nodes (lst demo_sched_mux))"
    by (auto simp: bitmap_ok_def bit_flagBit demo_lst_def demo_sched_mux_def)
  moreover have "task_ok demo_sched_mux t" for t
  proof (cases "t = 3")
    case True
    then show ?thesis by (simp add: demo_sched_mux_def tok_def demo_tcb_def demo_cb_def)
  next
    case False
    then show ?thesis using sched_inv_task [OF demo_sched_inv, of t] by (simp add: demo_sched_mux_def)
  qed
  ultimately show ?thesis
    using demo_sched_inv by (simp add: sched_inv_def demo_sched_mux_def) (simp add: demo_sched_def)
qed

lemma demo_mux1_inv: "mux_inv (demo_muxes1, demo_sched_mux)" "mux_inv (demo_muxes1, demo_sched)"
  using demo_sched_mux_inv demo_sched_inv
  by (auto simp: mux_inv_def mux_ok_def mux_cb_ok_def demo_muxes1_def demo_sched_mux_def demo_lst_def demo_tcb_def demo_cb_def)

theorem LOS_MuxPost_hands_over_witness:
  "\<exists>m' s'. LOS_MuxPost 0 (demo_muxes1, demo_sched_mux) = (LOS_OK, (m', s')) \<and>
     owner (g_allMux m' 0) = Some 3 \<and> priority (tcb s' 1) = 15"
proof -
  have "runTask demo_sched_mux = 1" "mux_waiters demo_sched_mux 0 = [3]" "\<not> intActive demo_sched_mux"
    by (simp_all add: demo_sched_mux_def)
  then show ?thesis
    using LOS_MuxPost_hands_over [OF demo_mux1_inv(1), of 0 3 "[]"] by (auto simp: demo_muxes1_def)
qed

text \<open>C14: the recursion counter wraps around.  A task that locks its mutex when the counter is at its
  maximum is told that the call succeeded, the counter becomes zero, and the mutex can no longer be
  released by its owner and counts as free for everyone else, although the error code for the overflow exists.\<close>

theorem LOS_MuxPend_recursion_wraps:
  assumes "h < MUX_LIMIT m" and "OsMuxValidCheck (g_allMux m (unat h)) s = LOS_OK"
    and "owner (g_allMux m (unat h)) = Some (runTask s)" and "muxCount (g_allMux m (unat h)) = 0xFFFF"
  shows "\<exists>m'. LOS_MuxPend h n (m, s) = (Some LOS_OK, (m', s)) \<and> muxCount (g_allMux m' (unat h)) = 0 \<and>
     owner (g_allMux m' (unat h)) = Some (runTask s) \<and>
     LOS_MuxPost h (m', s) = (LOS_ERRNO_MUX_INVALID, (m', s))"
proof -
  have "\<not> MUX_LIMIT m \<le> h" using assms(1) by (simp add: not_le)
  moreover have "muxStat (g_allMux m (unat h)) \<noteq> OS_MUX_UNUSED" "\<not> intActive s"
    using assms(2) by (auto simp: OsMuxValidCheck_def split: if_splits)
  ultimately show ?thesis using assms by (simp add: LOS_MuxPend_def LOS_MuxPost_def Let_def One_nat_def)
qed

definition demo_muxes2 :: muxes where
  "demo_muxes2 = \<lparr>MUX_LIMIT = 2,
     g_allMux = (\<lambda>i. \<lparr>muxStat = OS_MUX_USED, muxCount = 0xFFFF, muxID = of_nat i, owner = Some 1, muxPriority = 10\<rparr>),
     g_unusedMuxList = []\<rparr>"

theorem LOS_MuxPend_recursion_wraps_witness:
  "\<exists>m'. LOS_MuxPend 0 7 (demo_muxes2, demo_sched) = (Some LOS_OK, (m', demo_sched)) \<and> muxCount (g_allMux m' 0) = 0"
  using LOS_MuxPend_recursion_wraps [of 0 demo_muxes2 demo_sched 7]
  by (auto simp: OsMuxValidCheck_def demo_muxes2_def demo_tcb_def demo_cb_def)



end
