(* ===== verification/Event.thy ===== *)
theory Event
  imports Wait_Queue
begin

text \<open>
  Events, \<open>src/kernel/src/los_event.c\<close>.  An event control block is a word of event bits and the list
  of the tasks waiting on it; it is initialised when the two pointers of its list are not \<open>NULL\<close>.
  A waiting task keeps the mask and the mode of its request in its own control block.
\<close>

section \<open>Control blocks\<close>

record events =
  uwEventID :: "evptr \<Rightarrow> u32"
  evInited :: "evptr \<Rightarrow> bool"

type_synonym evst = "events \<times> ksched"

abbreviation LOS_WAITMODE_CLR :: u32 where "LOS_WAITMODE_CLR \<equiv> flagBit 0"
abbreviation LOS_WAITMODE_OR :: u32 where "LOS_WAITMODE_OR \<equiv> flagBit 1"
abbreviation LOS_WAITMODE_AND :: u32 where "LOS_WAITMODE_AND \<equiv> flagBit 2"

abbreviation (input) "LOS_ERRNO_EVENT_SETBIT_INVALID \<equiv> LOS_ERRNO_OS_ERROR LOS_MOD_EVENT 0x00"
abbreviation (input) "LOS_ERRNO_EVENT_READ_TIMEOUT \<equiv> LOS_ERRNO_OS_ERROR LOS_MOD_EVENT 0x01"
abbreviation (input) "LOS_ERRNO_EVENT_EVENTMASK_INVALID \<equiv> LOS_ERRNO_OS_ERROR LOS_MOD_EVENT 0x02"
abbreviation (input) "LOS_ERRNO_EVENT_READ_IN_INTERRUPT \<equiv> LOS_ERRNO_OS_ERROR LOS_MOD_EVENT 0x03"
abbreviation (input) "LOS_ERRNO_EVENT_FLAGS_INVALID \<equiv> LOS_ERRNO_OS_ERROR LOS_MOD_EVENT 0x04"
abbreviation (input) "LOS_ERRNO_EVENT_READ_IN_LOCK \<equiv> LOS_ERRNO_OS_ERROR LOS_MOD_EVENT 0x05"
abbreviation (input) "LOS_ERRNO_EVENT_PTR_NULL \<equiv> LOS_ERRNO_OS_ERROR LOS_MOD_EVENT 0x06"
abbreviation (input) "LOS_ERRNO_EVENT_NOT_INITIALIZED \<equiv> LOS_ERRNO_OS_ERROR LOS_MOD_EVENT 0x07"
abbreviation (input) "LOS_ERRNO_EVENT_SHOULD_NOT_DESTROYED \<equiv> LOS_ERRNO_OS_ERROR LOS_MOD_EVENT 0x08"
abbreviation (input) "LOS_ERRNO_EVENT_READ_IN_SYSTEM_TASK \<equiv> LOS_ERRNO_OS_ERROR LOS_MOD_EVENT 0x09"

abbreviation ev_waiters :: "ksched \<Rightarrow> evptr \<Rightarrow> tptr list" where
  "ev_waiters s e \<equiv> ls_nodes (lst s) (EvtList e)"

section \<open>Operations\<close>

text \<open>A pointer argument is \<open>None\<close> when it is \<open>NULL\<close>.\<close>

definition LOS_EventInit :: "evptr option \<Rightarrow> evst \<Rightarrow> u32 \<times> evst" where
  "LOS_EventInit eventCB = (\<lambda>(v, s).
     case eventCB of
       None \<Rightarrow> (LOS_ERRNO_EVENT_PTR_NULL, (v, s))
     | Some e \<Rightarrow> (LOS_OK, (v\<lparr>uwEventID := (uwEventID v)(e := 0), evInited := (evInited v)(e := True)\<rparr>,
                           mod_lst (ls_init (EvtList e)) s)))"

text \<open>The result and the new value of \<open>*eventID\<close>.\<close>

definition LOS_EventPoll :: "u32 option \<Rightarrow> u32 \<Rightarrow> u32 \<Rightarrow> u32 \<times> u32 option" where
  "LOS_EventPoll eventID msk mode =
     (case eventID of
        None \<Rightarrow> (LOS_ERRNO_EVENT_PTR_NULL, None)
      | Some i \<Rightarrow>
          (let ret = (if hasFlag mode LOS_WAITMODE_OR
                      then if i AND msk \<noteq> 0 then i AND msk else 0
                      else if msk \<noteq> 0 \<and> msk = i AND msk then i AND msk else 0)
           in (ret, Some (if ret \<noteq> 0 \<and> hasFlag mode LOS_WAITMODE_CLR then i AND NOT ret else i))))"

definition OsEventReadParamCheck :: "evptr option \<Rightarrow> u32 \<Rightarrow> u32 \<Rightarrow> events \<Rightarrow> u32" where
  "OsEventReadParamCheck eventCB msk mode v =
     (case eventCB of
        None \<Rightarrow> LOS_ERRNO_EVENT_PTR_NULL
      | Some e \<Rightarrow>
          if \<not> evInited v e then LOS_ERRNO_EVENT_NOT_INITIALIZED
          else if msk = 0 then LOS_ERRNO_EVENT_EVENTMASK_INVALID
          else if hasFlag msk LOS_ERRTYPE_ERROR then LOS_ERRNO_EVENT_SETBIT_INVALID
          else if (hasFlag mode LOS_WAITMODE_OR \<and> hasFlag mode LOS_WAITMODE_AND) \<or>
                  hasFlag mode (NOT (LOS_WAITMODE_OR OR LOS_WAITMODE_AND OR LOS_WAITMODE_CLR)) \<or>
                  \<not> hasFlag mode (LOS_WAITMODE_OR OR LOS_WAITMODE_AND)
               then LOS_ERRNO_EVENT_FLAGS_INVALID
          else LOS_OK)"

text \<open>The call of \<open>LOS_EventPoll\<close> on the word of event \<open>e\<close>.\<close>

definition poll_event :: "evptr \<Rightarrow> u32 \<Rightarrow> u32 \<Rightarrow> events \<Rightarrow> u32 \<times> events" where
  "poll_event e msk mode v =
     (let (ret, i) = LOS_EventPoll (Some (uwEventID v e)) msk mode
      in (ret, v\<lparr>uwEventID := (uwEventID v)(e := the i)\<rparr>))"

definition LOS_EventRead :: "evptr option \<Rightarrow> u32 \<Rightarrow> u32 \<Rightarrow> u32 \<Rightarrow> evst \<Rightarrow> u32 option \<times> evst" where
  "LOS_EventRead eventCB msk mode timeOut = (\<lambda>(v, s).
     let chk = OsEventReadParamCheck eventCB msk mode v
     in if chk \<noteq> LOS_OK then (Some chk, (v, s))
        else if intActive s then (Some LOS_ERRNO_EVENT_READ_IN_INTERRUPT, (v, s))
        else if hasFlag (status s (runTask s)) OS_TASK_FLAG_SYSTEM_TASK
             then (Some LOS_ERRNO_EVENT_READ_IN_SYSTEM_TASK, (v, s))
        else let e = the eventCB; (ret, v1) = poll_event e msk mode v
             in if ret = 0
                then if timeOut = 0 then (Some ret, (v1, s))
                     else if g_losTaskLock s \<noteq> 0 then (Some LOS_ERRNO_EVENT_READ_IN_LOCK, (v1, s))
                     else let r = runTask s;
                              s1 = mod_task r (\<lambda>c. c\<lparr>eventMask := msk\<rparr>) s;
                              s2 = mod_task r (\<lambda>c. c\<lparr>eventMode := mode\<rparr>) s1;
                              s3 = OsSchedTaskWait (EvtList e) timeOut s2
                          in (None, (v1, LOS_Schedule s3))
                else (Some ret, (v1, s)))"

definition LOS_EventRead_resume :: "evptr \<Rightarrow> u32 \<Rightarrow> u32 \<Rightarrow> tptr \<Rightarrow> evst \<Rightarrow> u32 \<times> evst" where
  "LOS_EventRead_resume e msk mode runTsk = (\<lambda>(v, s).
     if hasFlag (status s runTsk) OS_TASK_STATUS_TIMEOUT
     then (LOS_ERRNO_EVENT_READ_TIMEOUT, (v, clr_status runTsk OS_TASK_STATUS_TIMEOUT s))
     else let (ret, v1) = poll_event e msk mode v in (ret, (v1, s)))"

text \<open>
  The loop of \<open>LOS_EventWrite\<close> over the list: the successor of a node is read before the task is
  woken, and waking a task changes no other node of the list, so the loop visits the tasks that
  were on the list when it began.  The flag is \<open>exitFlag\<close>.
\<close>

definition ev_match :: "u32 \<Rightarrow> u32 \<Rightarrow> LosTaskCB \<Rightarrow> bool" where
  "ev_match evbits eventID c \<longleftrightarrow>
     (hasFlag (eventMode c) LOS_WAITMODE_OR \<and> eventMask c AND evbits \<noteq> 0) \<or>
     (hasFlag (eventMode c) LOS_WAITMODE_AND \<and> eventMask c AND eventID = eventMask c)"

fun event_wake_loop :: "u32 \<Rightarrow> u32 \<Rightarrow> tptr list \<Rightarrow> ksched \<times> bool \<Rightarrow> ksched \<times> bool" where
  "event_wake_loop evbits eventID [] (s, exitFlag) = (s, exitFlag)"
| "event_wake_loop evbits eventID (t # ts) (s, exitFlag) =
     event_wake_loop evbits eventID ts
       (if ev_match evbits eventID (tcb s t) then (OsSchedTaskWake t s, True) else (s, exitFlag))"

definition LOS_EventWrite :: "evptr option \<Rightarrow> u32 \<Rightarrow> evst \<Rightarrow> u32 \<times> evst" where
  "LOS_EventWrite eventCB evbits = (\<lambda>(v, s).
     case eventCB of
       None \<Rightarrow> (LOS_ERRNO_EVENT_PTR_NULL, (v, s))
     | Some e \<Rightarrow>
         if \<not> evInited v e then (LOS_ERRNO_EVENT_NOT_INITIALIZED, (v, s))
         else if hasFlag evbits LOS_ERRTYPE_ERROR then (LOS_ERRNO_EVENT_SETBIT_INVALID, (v, s))
         else let v1 = v\<lparr>uwEventID := (uwEventID v)(e := uwEventID v e OR evbits)\<rparr>
              in if ev_waiters s e \<noteq> []
                 then let (s1, exitFlag) = event_wake_loop evbits (uwEventID v1 e) (ev_waiters s e) (s, False)
                      in (LOS_OK, (v1, if exitFlag then LOS_Schedule s1 else s1))
                 else (LOS_OK, (v1, s)))"

text \<open>The list of a block that is not initialised is not empty: its pointers are \<open>NULL\<close>.\<close>

definition LOS_EventDestroy :: "evptr option \<Rightarrow> evst \<Rightarrow> u32 \<times> evst" where
  "LOS_EventDestroy eventCB = (\<lambda>(v, s).
     case eventCB of
       None \<Rightarrow> (LOS_ERRNO_EVENT_PTR_NULL, (v, s))
     | Some e \<Rightarrow>
         if \<not> evInited v e \<or> ev_waiters s e \<noteq> [] then (LOS_ERRNO_EVENT_SHOULD_NOT_DESTROYED, (v, s))
         else (LOS_OK, (v\<lparr>evInited := (evInited v)(e := False)\<rparr>, s)))"

definition LOS_EventClear :: "evptr option \<Rightarrow> u32 \<Rightarrow> evst \<Rightarrow> u32 \<times> evst" where
  "LOS_EventClear eventCB msk = (\<lambda>(v, s).
     case eventCB of
       None \<Rightarrow> (LOS_ERRNO_EVENT_PTR_NULL, (v, s))
     | Some e \<Rightarrow> (LOS_OK, (v\<lparr>uwEventID := (uwEventID v)(e := uwEventID v e AND msk)\<rparr>, s)))"

section \<open>Requests\<close>

text \<open>When the request of a task is satisfied by the word \<open>i\<close>, and when it is a valid request.\<close>

definition ev_sat :: "u32 \<Rightarrow> u32 \<Rightarrow> u32 \<Rightarrow> bool" where
  "ev_sat i msk mode \<longleftrightarrow>
     (if hasFlag mode LOS_WAITMODE_OR then i AND msk \<noteq> 0 else msk = i AND msk)"

definition ev_valid :: "u32 \<Rightarrow> u32 \<Rightarrow> bool" where
  "ev_valid msk mode \<longleftrightarrow> msk \<noteq> 0 \<and> \<not> hasFlag msk LOS_ERRTYPE_ERROR \<and>
     (hasFlag mode LOS_WAITMODE_OR \<longleftrightarrow> \<not> hasFlag mode LOS_WAITMODE_AND)"

lemma OsEventReadParamCheck_valid:
  assumes "OsEventReadParamCheck e msk mode v = LOS_OK"
  obtains c where "e = Some c" "evInited v c" "ev_valid msk mode"
  using assms by (auto simp: OsEventReadParamCheck_def ev_valid_def split: option.splits if_splits)

lemma LOS_EventPoll_sat:
  assumes "msk \<noteq> 0"
  shows "fst (LOS_EventPoll (Some i) msk mode) = (if ev_sat i msk mode then i AND msk else 0)"
    and "fst (LOS_EventPoll (Some i) msk mode) \<noteq> 0 \<longleftrightarrow> ev_sat i msk mode"
  using assms by (auto simp: LOS_EventPoll_def ev_sat_def Let_def)

lemma ev_sat_mono:
  assumes "\<not> ev_sat i msk mode"
  shows "\<not> ev_sat (i AND x) msk mode"
proof
  assume s: "ev_sat (i AND x) msk mode"
  have z: "(i AND x) AND msk = 0" if "i AND msk = 0" using that by (auto simp: bit_eq_iff bit_and_iff)
  have "msk = i AND msk" if "msk = (i AND x) AND msk" using that by (auto simp: bit_eq_iff bit_and_iff)
  with s z show False using assms by (auto simp: ev_sat_def split: if_splits)
qed

lemma ev_sat_write:
  assumes "ev_valid (eventMask c) (eventMode c)" and "\<not> ev_sat i (eventMask c) (eventMode c)"
  shows "ev_sat (i OR x) (eventMask c) (eventMode c) = ev_match x (i OR x) c"
proof (cases "hasFlag (eventMode c) LOS_WAITMODE_OR")
  case True
  have "(i OR x) AND eventMask c = (x AND eventMask c)"
    using assms(2) True by (simp add: ev_sat_def word_ao_dist)
  then show ?thesis using assms True by (auto simp: ev_sat_def ev_match_def ev_valid_def and.commute)
next
  case False
  then show ?thesis using assms by (auto simp: ev_sat_def ev_match_def ev_valid_def and.commute)
qed

section \<open>Invariant\<close>

text \<open>
  No missed wake-up: a task waits on an event only while the event is initialised and the request
  of the task is not satisfied by the event's word.
\<close>

definition event_ok :: "events \<Rightarrow> (tptr \<Rightarrow> LosTaskCB) \<Rightarrow> (evptr \<Rightarrow> tptr list) \<Rightarrow> bool" where
  "event_ok v T W \<longleftrightarrow> (\<forall>e. \<forall>t \<in> set (W e). evInited v e \<and> ev_valid (eventMask (T t)) (eventMode (T t)) \<and>
     \<not> ev_sat (uwEventID v e) (eventMask (T t)) (eventMode (T t)))"

definition event_inv :: "evst \<Rightarrow> bool" where
  "event_inv = (\<lambda>(v, s). sched_inv s \<and> event_ok v (tcb s) (ev_waiters s))"

lemma event_invD: "event_inv (v, s) \<Longrightarrow> sched_inv s" "event_inv (v, s) \<Longrightarrow> event_ok v (tcb s) (ev_waiters s)"
  by (simp_all add: event_inv_def)

lemma event_okD:
  assumes "event_ok v T W" and "t \<in> set (W e)"
  shows "evInited v e" "ev_valid (eventMask (T t)) (eventMode (T t))"
    "\<not> ev_sat (uwEventID v e) (eventMask (T t)) (eventMode (T t))"
  using assms by (auto simp: event_ok_def)

lemma event_ok_env:
  assumes "event_ok v T W" and "\<And>e. set (W' e) \<subseteq> set (W e)"
    and "\<And>e t. t \<in> set (W' e) \<Longrightarrow> eventMask (T' t) = eventMask (T t) \<and> eventMode (T' t) = eventMode (T t)"
  shows "event_ok v T' W'"
  unfolding event_ok_def
proof (intro allI ballI)
  fix e t
  assume t: "t \<in> set (W' e)"
  then show "evInited v e \<and> ev_valid (eventMask (T' t)) (eventMode (T' t)) \<and>
      \<not> ev_sat (uwEventID v e) (eventMask (T' t)) (eventMode (T' t))"
    using event_okD [OF assms(1), of t e] assms(2) [of e] assms(3) [OF t] by auto
qed

text \<open>Clearing bits of a word keeps the invariant.\<close>

lemma event_ok_clear:
  assumes "event_ok v T W" and "i' = uwEventID v e AND x"
  shows "event_ok (v\<lparr>uwEventID := (uwEventID v)(e := i')\<rparr>) T W"
  using event_okD [OF assms(1)] ev_sat_mono assms(2) by (auto simp: event_ok_def)

lemma poll_event_ok:
  assumes "event_ok v T W"
  shows "event_ok (snd (poll_event e msk mode v)) T W"
proof -
  obtain ret i where p: "LOS_EventPoll (Some (uwEventID v e)) msk mode = (ret, Some i)"
    by (auto simp: LOS_EventPoll_def Let_def)
  have "snd (LOS_EventPoll (Some j) msk mode) =
      Some (if fst (LOS_EventPoll (Some j) msk mode) \<noteq> 0 \<and> hasFlag mode LOS_WAITMODE_CLR
            then j AND NOT (fst (LOS_EventPoll (Some j) msk mode)) else j)" for j
    by (simp only: LOS_EventPoll_def Let_def option.case fst_conv snd_conv)
  from this [of "uwEventID v e"] have "i = uwEventID v e AND - 1 \<or> i = uwEventID v e AND NOT ret"
    unfolding p by (auto split: if_splits)
  then have "event_ok (v\<lparr>uwEventID := (uwEventID v)(e := i)\<rparr>) T W"
    using event_ok_clear [OF assms] by blast
  then show ?thesis using p by (simp add: poll_event_def Let_def)
qed

lemma poll_event_inited [simp]: "evInited (snd (poll_event e msk mode v)) = evInited v"
  by (simp add: poll_event_def split: prod.splits)

lemma poll_event_zero:
  assumes "fst (poll_event e msk mode v) = 0" and "msk \<noteq> 0"
  shows "snd (poll_event e msk mode v) = v" and "\<not> ev_sat (uwEventID v e) msk mode"
proof -
  show "\<not> ev_sat (uwEventID v e) msk mode"
    using assms LOS_EventPoll_sat(2) [OF assms(2), of "uwEventID v e" mode]
    by (auto simp: poll_event_def split: prod.splits)
  show "snd (poll_event e msk mode v) = v"
    using assms(1) by (auto simp: poll_event_def LOS_EventPoll_def Let_def split: if_splits)
qed

section \<open>Operations keep the invariant\<close>

lemma LOS_EventRead_inv:
  assumes inv: "event_inv (v, s)" and cb: "can_block s"
  shows "event_inv (snd (LOS_EventRead eo msk mode n (v, s)))"
proof -
  note ok = event_invD [OF inv]
  let ?r = "runTask s"
  let ?s2 = "mod_task ?r (\<lambda>c. c\<lparr>eventMode := mode\<rparr>) (mod_task ?r (\<lambda>c. c\<lparr>eventMask := msk\<rparr>) s)"
  have i2: "sched_inv ?s2" using ok(1) by simp
  have c2: "can_block ?s2" using cb by (simp add: can_block_def)
  have wait: "event_inv (v, OsSchedTaskWait (EvtList e) n ?s2)"
    if "evInited v e" "ev_valid msk mode" "\<not> ev_sat (uwEventID v e) msk mode" for e
  proof -
    let ?s3 = "OsSchedTaskWait (EvtList e) n ?s2"
    have w: "ev_waiters ?s3 k = (if k = e then ev_waiters s e @ [?r] else ev_waiters s k)" for k
      using wq.wait_waiters [OF i2 c2, of "EvtList e" "EvtList k" n] by (simp del: TaskWait_frame)
    have "event_ok v (tcb ?s3) (ev_waiters ?s3)"
      unfolding event_ok_def
    proof (intro allI ballI)
      fix k t
      assume t: "t \<in> set (ev_waiters ?s3 k)"
      have r: "?r \<notin> set (ev_waiters s k)"
        using waiter_pend [OF ok(1), of "EvtList k" ?r] cb by (auto simp: can_block_def)
      show "evInited v k \<and> ev_valid (eventMask (tcb ?s3 t)) (eventMode (tcb ?s3 t)) \<and>
          \<not> ev_sat (uwEventID v k) (eventMask (tcb ?s3 t)) (eventMode (tcb ?s3 t))"
      proof (cases "t = ?r")
        case True
        then show ?thesis using t r that unfolding w by (simp split: if_splits)
      next
        case False
        then have "t \<in> set (ev_waiters s k)" using t unfolding w by (auto split: if_splits)
        then show ?thesis using event_okD [OF ok(2)] False by simp
      qed
    qed
    then show ?thesis using wq.wait_ok [OF i2 c2, of "EvtList e" n] by (simp add: event_inv_def)
  qed
  show ?thesis
  proof (cases "OsEventReadParamCheck eo msk mode v = LOS_OK")
    case True
    then obtain e where e: "eo = Some e" "evInited v e" "ev_valid msk mode" by (rule OsEventReadParamCheck_valid)
    obtain ret v1 where p: "poll_event e msk mode v = (ret, v1)" by force
    have o1: "event_inv (v1, s)" using poll_event_ok [OF ok(2), of e msk mode] p ok(1) by (simp add: event_inv_def)
    have "event_inv (v1, LOS_Schedule (OsSchedTaskWait (EvtList e) n ?s2))" if "ret = 0"
      using wait [OF e(2,3)] poll_event_zero [of e msk mode v] p that e(3)
      by (simp add: ev_valid_def event_inv_def)
    then show ?thesis using True e(1) p inv o1 by (simp add: LOS_EventRead_def Let_def)
  next
    case False
    then show ?thesis using inv by (simp add: LOS_EventRead_def Let_def)
  qed
qed

lemma LOS_EventRead_resume_inv:
  assumes inv: "event_inv (v, s)"
  shows "event_inv (snd (LOS_EventRead_resume e msk mode r (v, s)))"
proof (cases "hasFlag (status s r) OS_TASK_STATUS_TIMEOUT")
  case True
  have "sched_inv (clr_status r OS_TASK_STATUS_TIMEOUT s)"
    by (rule sched_inv_flags [OF event_invD(1) [OF inv]]) auto
  moreover have "event_ok v (tcb (clr_status r OS_TASK_STATUS_TIMEOUT s)) (ev_waiters s)"
    by (rule event_ok_env [OF event_invD(2) [OF inv]]) auto
  ultimately show ?thesis using True by (simp add: LOS_EventRead_resume_def event_inv_def)
next
  case False
  then show ?thesis
    using inv poll_event_ok [OF event_invD(2) [OF inv], of e msk mode]
    by (cases "poll_event e msk mode v") (simp add: LOS_EventRead_resume_def event_inv_def)
qed

lemma ev_match_wake [simp]: "ev_match x i (tcb (OsSchedTaskWake t s) u) = ev_match x i (tcb s u)"
  by (simp add: ev_match_def)

lemma event_wake_loop_fold:
  "event_wake_loop x i ts (s, b) =
     (fold OsSchedTaskWake (filter (\<lambda>t. ev_match x i (tcb s t)) ts) s, b \<or> (\<exists>t \<in> set ts. ev_match x i (tcb s t)))"
  by (induction ts arbitrary: s b) simp_all

lemma fold_wake_fields [simp]:
  "eventMask (tcb (fold OsSchedTaskWake ts s) u) = eventMask (tcb s u)"
  "eventMode (tcb (fold OsSchedTaskWake ts s) u) = eventMode (tcb s u)"
  "runTask (fold OsSchedTaskWake ts s) = runTask s"
  by (induction ts arbitrary: s) simp_all

lemma fold_wake_status:
  "distinct ts \<Longrightarrow> status (fold OsSchedTaskWake ts s) u = (if u \<in> set ts then woken_status (status s u) else status s u)"
  by (induction ts arbitrary: s) (auto simp: TaskWake_status_at)

text \<open>The effect of the loop on a well-formed state.\<close>

lemma event_wake_spec:
  fixes x i :: u32 and e :: evptr
  assumes inv: "sched_inv s"
  defines "P \<equiv> \<lambda>t. ev_match x i (tcb s t)"
  defines "s' \<equiv> fst (event_wake_loop x i (ev_waiters s e) (s, False))"
  shows "sched_inv s'" and "\<And>k. is_wait k \<Longrightarrow> ls_nodes (lst s') k =
      (if k = EvtList e then filter (\<lambda>t. \<not> P t) (ev_waiters s e) else ls_nodes (lst s) k)"
    and "\<And>u. eventMask (tcb s' u) = eventMask (tcb s u)" and "\<And>u. eventMode (tcb s' u) = eventMode (tcb s u)"
    and "\<And>u. status s' u = (if u \<in> set (ev_waiters s e) \<and> P u then woken_status (status s u) else status s u)"
    and "runTask s' = runTask s"
proof -
  let ?ws = "filter P (ev_waiters s e)"
  have s': "s' = fold OsSchedTaskWake ?ws s" by (simp add: s'_def event_wake_loop_fold P_def)
  have d: "distinct ?ws" using wq.distinct_waiters [OF inv, of "EvtList e"] by simp
  have "filter (\<lambda>t. t \<notin> set ?ws) (ev_waiters s e) = filter (\<lambda>t. \<not> P t) (ev_waiters s e)"
    by (rule filter_cong) auto
  then show "sched_inv s'" "is_wait k \<Longrightarrow> ls_nodes (lst s') k =
      (if k = EvtList e then filter (\<lambda>t. \<not> P t) (ev_waiters s e) else ls_nodes (lst s) k)" for k
    using wq.wake_selected [OF inv, of "EvtList e" ?ws] d unfolding s' by auto
  show "status s' u = (if u \<in> set (ev_waiters s e) \<and> P u then woken_status (status s u) else status s u)" for u
    unfolding s' using fold_wake_status [OF d] by simp
qed (simp_all add: s'_def event_wake_loop_fold)

lemma LOS_EventWrite_inv:
  assumes inv: "event_inv (v, s)"
  shows "event_inv (snd (LOS_EventWrite eo x (v, s)))"
proof (cases eo)
  case (Some e)
  note ok = event_invD [OF inv]
  let ?v = "v\<lparr>uwEventID := (uwEventID v)(e := uwEventID v e OR x)\<rparr>"
  let ?s = "fst (event_wake_loop x (uwEventID v e OR x) (ev_waiters s e) (s, False))"
  note sp = event_wake_spec [OF ok(1), where x = x and i = "uwEventID v e OR x" and e = e]
  have "event_ok ?v (tcb ?s) (ev_waiters ?s)"
    unfolding event_ok_def
  proof (intro allI ballI)
    fix k t
    assume t: "t \<in> set (ev_waiters ?s k)"
    then have tk: "t \<in> set (ev_waiters s k)" "k = e \<Longrightarrow> \<not> ev_match x (uwEventID v e OR x) (tcb s t)"
      using sp(2) [of "EvtList k"] by (auto split: if_splits)
    show "evInited ?v k \<and> ev_valid (eventMask (tcb ?s t)) (eventMode (tcb ?s t)) \<and>
        \<not> ev_sat (uwEventID ?v k) (eventMask (tcb ?s t)) (eventMode (tcb ?s t))"
      using event_okD [OF ok(2) tk(1)] tk(2) ev_sat_write [of "tcb s t" "uwEventID v k" x] sp(3,4) by auto
  qed
  then have "event_inv (?v, ?s)" using sp(1) by (simp add: event_inv_def)
  moreover have "event_inv (?v, s)" if "ev_waiters s e = []"
    using calculation that by simp
  ultimately show ?thesis using inv Some by (auto simp: LOS_EventWrite_def Let_def event_inv_def split: prod.splits)
qed (use inv in \<open>simp add: LOS_EventWrite_def\<close>)

lemma LOS_EventClear_inv:
  assumes "event_inv (v, s)"
  shows "event_inv (snd (LOS_EventClear eo x (v, s)))"
  using assms event_ok_clear [OF event_invD(2) [OF assms] refl]
  by (cases eo) (simp_all add: LOS_EventClear_def event_inv_def)

lemma LOS_EventDestroy_inv:
  assumes "event_inv (v, s)"
  shows "event_inv (snd (LOS_EventDestroy eo (v, s)))"
  using assms by (cases eo) (auto simp: LOS_EventDestroy_def event_inv_def event_ok_def)

text \<open>Initialising an event on which no task waits.\<close>

lemma LOS_EventInit_inv:
  assumes "event_inv (v, s)" and "\<And>e. eo = Some e \<Longrightarrow> ev_waiters s e = []"
  shows "event_inv (snd (LOS_EventInit eo (v, s)))"
proof (cases eo)
  case (Some e)
  have "mod_lst (ls_init (EvtList e)) s = s"
    using assms(2) [OF Some] by (simp add: ls_init_def fun_upd_idem)
  then show ?thesis
    using assms(1) assms(2) [OF Some] Some by (auto simp: LOS_EventInit_def event_inv_def event_ok_def)
qed (use assms in \<open>simp add: LOS_EventInit_def\<close>)

section \<open>Histories\<close>

inductive event_step :: "evst \<Rightarrow> evst \<Rightarrow> bool" where
  ev_init: "ev_waiters s e = [] \<Longrightarrow> event_step (v, s) (snd (LOS_EventInit (Some e) (v, s)))"
| ev_read: "can_block s \<Longrightarrow> event_step (v, s) (snd (LOS_EventRead eo msk mode n (v, s)))"
| ev_resume: "event_step st (snd (LOS_EventRead_resume e msk mode r st))"
| ev_write: "event_step st (snd (LOS_EventWrite eo x st))"
| ev_clear: "event_step st (snd (LOS_EventClear eo x st))"
| ev_destroy: "event_step st (snd (LOS_EventDestroy eo st))"
| ev_other: "sched_inv s' \<Longrightarrow> (\<And>e. set (ev_waiters s' e) \<subseteq> set (ev_waiters s e)) \<Longrightarrow>
    (\<And>e t. t \<in> set (ev_waiters s' e) \<Longrightarrow>
       eventMask (tcb s' t) = eventMask (tcb s t) \<and> eventMode (tcb s' t) = eventMode (tcb s t)) \<Longrightarrow>
    event_step (v, s) (v, s')"

lemma event_step_inv:
  assumes "event_step st st'" and "event_inv st"
  shows "event_inv st'"
  using assms
proof (induction rule: event_step.induct)
  case (ev_init s e v)
  then show ?case by (intro LOS_EventInit_inv) auto
next
  case (ev_read s v eo msk mode n)
  then show ?case by (intro LOS_EventRead_inv)
next
  case (ev_resume st e msk mode r)
  then show ?case using LOS_EventRead_resume_inv [of "fst st" "snd st"] by simp
next
  case (ev_write st eo x)
  then show ?case using LOS_EventWrite_inv [of "fst st" "snd st"] by simp
next
  case (ev_clear st eo x)
  then show ?case using LOS_EventClear_inv [of "fst st" "snd st"] by simp
next
  case (ev_destroy st eo)
  then show ?case using LOS_EventDestroy_inv [of "fst st" "snd st"] by simp
next
  case (ev_other s' s v)
  have "event_ok v (tcb s') (ev_waiters s')"
    by (rule event_ok_env [OF event_invD(2) [OF ev_other(4)] ev_other(2,3)])
  then show ?case using ev_other(1) by (simp add: event_inv_def)
qed

lemma event_steps_inv: "event_step\<^sup>*\<^sup>* st st' \<Longrightarrow> event_inv st \<Longrightarrow> event_inv st'"
  by (induction rule: rtranclp_induct) (auto intro: event_step_inv)

section \<open>Properties\<close>

lemma errtype_num: "LOS_ERRTYPE_ERROR = 0x02000000" and errtype_flag: "LOS_ERRTYPE_ERROR = flagBit 25"
  by (simp_all add: LOS_ERRTYPE_ERROR_def flagBit_def One_nat_def)

text \<open>C16: no missed wake-up.  In every history of event operations, interleaved with anything else the
  kernel does, a task that is waiting on an event has a request that the event's word does not
  satisfy: as soon as the requested bits are there, the task is no longer on the wait list.\<close>

theorem event_no_missed_wakeup:
  assumes "sched_inv s" and "\<forall>e. ev_waiters s e = []" and "event_step\<^sup>*\<^sup>* (v, s) (v', s')"
    and "t \<in> set (ev_waiters s' e)"
  shows "\<not> (if hasFlag (eventMode (tcb s' t)) LOS_WAITMODE_OR
            then uwEventID v' e AND eventMask (tcb s' t) \<noteq> 0
            else uwEventID v' e AND eventMask (tcb s' t) = eventMask (tcb s' t))"
proof -
  have "event_inv (v, s)" using assms(1,2) by (simp add: event_inv_def event_ok_def)
  then have "event_inv (v', s')" using event_steps_inv [OF assms(3)] by blast
  then have "\<not> ev_sat (uwEventID v' e) (eventMask (tcb s' t)) (eventMode (tcb s' t))"
    using event_okD(3) [OF event_invD(2) assms(4)] by blast
  then show ?thesis by (auto simp: ev_sat_def split: if_splits)
qed

definition demo_events :: events where
  "demo_events = \<lparr>uwEventID = (\<lambda>_. 0x10), evInited = (\<lambda>_. True)\<rparr>"

text \<open>The demonstration state after the running task has asked for one of the bits of mask 3.\<close>

definition demo_reading :: evst where
  "demo_reading = snd (LOS_EventRead (Some (EventObj 0)) 3 (LOS_WAITMODE_OR OR LOS_WAITMODE_CLR) 5 (demo_events, demo_sched))"

lemma demo_event_lst [simp]: "ls_nodes demo_lst (EvtList e) = []" "ls_loc demo_lst (Suc 0) = None"
  by (simp_all add: demo_lst_def)

lemma demo_reading_eq:
  "demo_reading = (demo_events, LOS_Schedule (OsSchedTaskWait (EvtList (EventObj 0)) 5
     (mod_task 1 (\<lambda>c. c\<lparr>eventMode := LOS_WAITMODE_OR OR LOS_WAITMODE_CLR\<rparr>) (mod_task 1 (\<lambda>c. c\<lparr>eventMask := 3\<rparr>) demo_sched))))"
proof -
  have chk: "OsEventReadParamCheck (Some (EventObj 0)) 3 (LOS_WAITMODE_OR OR LOS_WAITMODE_CLR) demo_events = LOS_OK"
    by (simp add: OsEventReadParamCheck_def demo_events_def hasFlag_def errtype_num flagBit_def)
  have "poll_event (EventObj 0) 3 (LOS_WAITMODE_OR OR LOS_WAITMODE_CLR) demo_events = (0, demo_events)"
    by (simp add: poll_event_def LOS_EventPoll_def demo_events_def fun_upd_idem)
  then show ?thesis
    using chk by (simp add: demo_reading_def LOS_EventRead_def Let_def demo_tcb_def demo_cb_def)
qed

theorem event_no_missed_wakeup_witness:
  "1 \<in> set (ev_waiters (snd demo_reading) (EventObj 0)) \<and>
   uwEventID (fst demo_reading) (EventObj 0) AND 3 = 0"
proof -
  have w: "1 \<in> set (ev_waiters (snd demo_reading) (EventObj 0))"
    unfolding demo_reading_eq by (simp add: ls_tail_def One_nat_def)
  have m: "eventMask (tcb (snd demo_reading) 1) = 3" "hasFlag (eventMode (tcb (snd demo_reading) 1)) LOS_WAITMODE_OR"
    unfolding demo_reading_eq by simp_all
  have cb: "can_block demo_sched" by (simp add: can_block_def demo_tcb_def demo_cb_def)
  have "event_step\<^sup>*\<^sup>* (demo_events, demo_sched) (fst demo_reading, snd demo_reading)"
    unfolding demo_reading_def by (simp add: ev_read [OF cb] r_into_rtranclp)
  from event_no_missed_wakeup [OF demo_sched_inv _ this w] show ?thesis using w m by simp
qed

text \<open>C17: \<open>LOS_EventWrite\<close> wakes exactly the tasks whose request the new word satisfies, in one call: they
  leave the list and no longer wait, all others stay on the list in their order with their status
  unchanged, and the word is the old one with the new bits set.\<close>

theorem LOS_EventWrite_wakes_exactly:
  assumes inv: "event_inv (v, s)" and e: "evInited v e" and x: "\<not> hasFlag x LOS_ERRTYPE_ERROR"
  defines "sat \<equiv> \<lambda>t. ev_sat (uwEventID v e OR x) (eventMask (tcb s t)) (eventMode (tcb s t))"
  shows "\<exists>v' s'. LOS_EventWrite (Some e) x (v, s) = (LOS_OK, (v', s')) \<and>
     uwEventID v' = (uwEventID v)(e := uwEventID v e OR x) \<and>
     ev_waiters s' e = filter (\<lambda>t. \<not> sat t) (ev_waiters s e) \<and>
     (\<forall>t. if t \<in> set (ev_waiters s e) \<and> sat t then \<not> hasFlag (status s' t) OS_TASK_STATUS_PEND
          else status s' t = status s t)"
proof -
  note ok = event_invD [OF inv]
  let ?i = "uwEventID v e OR x"
  let ?s = "fst (event_wake_loop x ?i (ev_waiters s e) (s, False))"
  note sp = event_wake_spec [OF ok(1), where x = x and i = ?i and e = e]
  have m: "ev_match x ?i (tcb s t) = sat t" if "t \<in> set (ev_waiters s e)" for t
    using ev_sat_write [of "tcb s t" "uwEventID v e" x] event_okD(2,3) [OF ok(2) that] by (simp add: sat_def)
  have f: "filter (\<lambda>t. \<not> ev_match x ?i (tcb s t)) (ev_waiters s e) = filter (\<lambda>t. \<not> sat t) (ev_waiters s e)"
    by (rule filter_cong) (simp_all add: m)
  have np: "\<not> hasFlag (woken_status st) OS_TASK_STATUS_PEND" for st by (simp add: woken_status_def Let_def)
  obtain s' where s': "LOS_EventWrite (Some e) x (v, s) = (LOS_OK, (v\<lparr>uwEventID := (uwEventID v)(e := ?i)\<rparr>, s'))"
    "lst s' = lst ?s" "tcb s' = tcb ?s"
    using e x by (cases "event_wake_loop x ?i (ev_waiters s e) (s, False)"; cases "ev_waiters s e = []")
      (simp_all add: LOS_EventWrite_def Let_def)
  show ?thesis
    using s' sp(2) [of "EvtList e"] sp(5) f m np by auto
qed

theorem LOS_EventWrite_wakes_exactly_witness:
  "\<exists>v' s'. LOS_EventWrite (Some (EventObj 0)) 2 demo_reading = (LOS_OK, (v', s')) \<and> ev_waiters s' (EventObj 0) = []"
proof -
  have "event_inv (demo_events, demo_sched)" using demo_sched_inv by (simp add: event_inv_def event_ok_def)
  moreover have "can_block demo_sched" by (simp add: can_block_def demo_tcb_def demo_cb_def)
  ultimately have "event_inv (fst demo_reading, snd demo_reading)"
    unfolding demo_reading_def by (simp add: LOS_EventRead_inv)
  moreover have "\<not> hasFlag (2 :: u32) LOS_ERRTYPE_ERROR" by (simp add: hasFlag_def errtype_num)
  moreover have "evInited (fst demo_reading) (EventObj 0)" "uwEventID (fst demo_reading) (EventObj 0) = 0x10"
    "ev_waiters (snd demo_reading) (EventObj 0) = [1]" "eventMask (tcb (snd demo_reading) 1) = 3"
    "hasFlag (eventMode (tcb (snd demo_reading) 1)) LOS_WAITMODE_OR"
    unfolding demo_reading_eq by (simp_all add: demo_events_def ls_tail_def One_nat_def)
  ultimately show ?thesis
    using LOS_EventWrite_wakes_exactly [of "fst demo_reading" "snd demo_reading" "EventObj 0" 2]
    by (auto simp: ev_sat_def)
qed

text \<open>C18: the result of \<open>LOS_EventRead\<close> is unambiguous.  Whatever value the call or its resumption
  returns, it is an error code exactly when bit 25 is set; without that bit it is zero or the set of
  the requested bits that are present, which satisfies the request.\<close>

theorem LOS_EventRead_unambiguous:
  assumes "OsEventReadParamCheck (Some e) msk mode v = LOS_OK"
    and "LOS_EventRead (Some e) msk mode n (v, s) = (Some ret, (v', s')) \<or>
         LOS_EventRead_resume e msk mode r (v, s) = (ret, (v', s'))"
  shows "if bit ret 25
         then ret \<in> {LOS_ERRNO_EVENT_READ_IN_INTERRUPT, LOS_ERRNO_EVENT_READ_IN_SYSTEM_TASK,
                     LOS_ERRNO_EVENT_READ_IN_LOCK, LOS_ERRNO_EVENT_READ_TIMEOUT}
         else ret = 0 \<or> ret = uwEventID v e AND msk \<and> ev_sat (uwEventID v e) msk mode"
proof -
  have valid: "ev_valid msk mode" using assms(1) OsEventReadParamCheck_valid by blast
  have err: "bit (LOS_ERRNO_OS_ERROR a b) 25" for a b
    by (simp only: LOS_ERRNO_OS_ERROR_def bit_or_iff errtype_bit_25 simp_thms)
  have "\<not> bit msk 25"
    using valid by (simp add: ev_valid_def errtype_flag hasFlag_flagBit)
  then have nb: "\<not> bit (uwEventID v e AND msk) 25" by (simp add: bit_and_iff)
  have p: "fst (poll_event e msk mode v) = (if ev_sat (uwEventID v e) msk mode then uwEventID v e AND msk else 0)"
    using LOS_EventPoll_sat(1) [of msk "uwEventID v e" mode] valid
    by (cases "LOS_EventPoll (Some (uwEventID v e)) msk mode") (simp add: poll_event_def ev_valid_def)
  have "ret \<in> {LOS_ERRNO_EVENT_READ_IN_INTERRUPT, LOS_ERRNO_EVENT_READ_IN_SYSTEM_TASK,
           LOS_ERRNO_EVENT_READ_IN_LOCK, LOS_ERRNO_EVENT_READ_TIMEOUT} \<or> ret = fst (poll_event e msk mode v)"
    using assms by (auto simp: LOS_EventRead_def LOS_EventRead_resume_def Let_def split: prod.splits if_splits)
  then show ?thesis using err nb p by (auto split: if_splits)
qed

theorem LOS_EventRead_unambiguous_witness:
  "\<exists>v' s'. LOS_EventRead (Some (EventObj 0)) 0x30 LOS_WAITMODE_OR 5 (demo_events, demo_sched) = (Some 0x10, (v', s')) \<and>
     \<not> bit (0x10 :: u32) 25 \<and> ev_sat 0x10 0x30 LOS_WAITMODE_OR"
proof -
  have chk: "OsEventReadParamCheck (Some (EventObj 0)) 0x30 LOS_WAITMODE_OR demo_events = LOS_OK"
    by (simp add: OsEventReadParamCheck_def demo_events_def hasFlag_def errtype_num flagBit_def)
  have "poll_event (EventObj 0) 0x30 LOS_WAITMODE_OR demo_events = (0x10, demo_events)"
    by (simp add: poll_event_def LOS_EventPoll_def demo_events_def fun_upd_idem)
  then have r: "LOS_EventRead (Some (EventObj 0)) 0x30 LOS_WAITMODE_OR 5 (demo_events, demo_sched) =
      (Some 0x10, (demo_events, demo_sched))"
    using chk by (simp add: LOS_EventRead_def Let_def demo_tcb_def demo_cb_def)
  then show ?thesis
    using LOS_EventRead_unambiguous [OF chk, of 5 demo_sched "0x10" demo_events demo_sched 1]
    by (simp add: demo_events_def)
qed

end
