(* ===== verification/Bytes.thy ===== *)
theory Bytes
  imports Prelude
begin

text \<open>
  The byte-addressed memory of a 32-bit little-endian machine, with word access, and the copy
  function \<open>memcpy_s\<close> of \<open>src/lib/libsec/src/memcpy_s.c\<close> that the kernel moves messages with.
\<close>

section \<open>Memory\<close>

type_synonym mem8 = "u32 \<Rightarrow> u8"

definition bytes :: "mem8 \<Rightarrow> u32 \<Rightarrow> nat \<Rightarrow> u8 list" where
  "bytes m a n = map (\<lambda>k. m (a + of_nat k)) [0..<n]"

definition load32 :: "mem8 \<Rightarrow> u32 \<Rightarrow> u32" where
  "load32 m a = ucast (m a) OR push_bit 8 (ucast (m (a + 1))) OR
     push_bit 16 (ucast (m (a + 2))) OR push_bit 24 (ucast (m (a + 3)))"

definition store32 :: "u32 \<Rightarrow> u32 \<Rightarrow> mem8 \<Rightarrow> mem8" where
  "store32 a v m = m(a := ucast v, a + 1 := ucast (drop_bit 8 v), a + 2 := ucast (drop_bit 16 v),
     a + 3 := ucast (drop_bit 24 v))"

text \<open>The C library functions \<open>memcpy\<close> and \<open>memset\<close>, for areas that do not overlap.\<close>

definition memcpy :: "u32 \<Rightarrow> u32 \<Rightarrow> u32 \<Rightarrow> mem8 \<Rightarrow> mem8" where
  "memcpy dest src count m = (\<lambda>a. if a - dest < count then m (src + (a - dest)) else m a)"

definition memset :: "u32 \<Rightarrow> u8 \<Rightarrow> u32 \<Rightarrow> mem8 \<Rightarrow> mem8" where
  "memset dest c count m = (\<lambda>a. if a - dest < count then c else m a)"

section \<open>The secure copy\<close>

abbreviation (input) EOK :: int where "EOK \<equiv> 0"
abbreviation (input) EINVAL :: int where "EINVAL \<equiv> 22"
abbreviation (input) ERANGE :: int where "ERANGE \<equiv> 34"
abbreviation (input) EINVAL_AND_RESET :: int where "EINVAL_AND_RESET \<equiv> 150"
abbreviation (input) ERANGE_AND_RESET :: int where "ERANGE_AND_RESET \<equiv> 162"
abbreviation (input) EOVERLAP_AND_RESET :: int where "EOVERLAP_AND_RESET \<equiv> 182"

definition SECUREC_MEM_MAX_LEN :: u32 where
  "SECUREC_MEM_MAX_LEN = 0x7fffffff"

definition SECUREC_MEMORY_NO_OVERLAP :: "u32 \<Rightarrow> u32 \<Rightarrow> u32 \<Rightarrow> bool" where
  "SECUREC_MEMORY_NO_OVERLAP dest src count \<longleftrightarrow>
     (src < dest \<and> src + count \<le> dest) \<or> (dest < src \<and> dest + count \<le> src)"

definition SECUREC_MEMORY_IS_OVERLAP :: "u32 \<Rightarrow> u32 \<Rightarrow> u32 \<Rightarrow> bool" where
  "SECUREC_MEMORY_IS_OVERLAP dest src count \<longleftrightarrow>
     (src < dest \<and> src + count > dest) \<or> (dest < src \<and> dest + count > src)"

definition SECUREC_MEMCPY_PARAM_OK :: "u32 \<Rightarrow> u32 \<Rightarrow> u32 \<Rightarrow> u32 \<Rightarrow> bool" where
  "SECUREC_MEMCPY_PARAM_OK dest destMax src count \<longleftrightarrow>
     count \<le> destMax \<and> dest \<noteq> 0 \<and> src \<noteq> 0 \<and> destMax \<le> SECUREC_MEM_MAX_LEN \<and> count > 0 \<and>
     SECUREC_MEMORY_NO_OVERLAP dest src count"

definition SecMemcpyError :: "u32 \<Rightarrow> u32 \<Rightarrow> u32 \<Rightarrow> u32 \<Rightarrow> mem8 \<Rightarrow> int \<times> mem8" where
  "SecMemcpyError dest destMax src count m =
     (if destMax = 0 \<or> destMax > SECUREC_MEM_MAX_LEN then (ERANGE, m)
      else if dest = 0 \<or> src = 0
           then if dest \<noteq> 0 then (EINVAL_AND_RESET, memset dest 0 destMax m) else (EINVAL, m)
      else if count > destMax then (ERANGE_AND_RESET, memset dest 0 destMax m)
      else if SECUREC_MEMORY_IS_OVERLAP dest src count then (EOVERLAP_AND_RESET, memset dest 0 destMax m)
      else (EOK, m))"

definition memcpy_s :: "u32 \<Rightarrow> u32 \<Rightarrow> u32 \<Rightarrow> u32 \<Rightarrow> mem8 \<Rightarrow> int \<times> mem8" where
  "memcpy_s dest destMax src count m =
     (if SECUREC_MEMCPY_PARAM_OK dest destMax src count then (EOK, memcpy dest src count m)
      else SecMemcpyError dest destMax src count m)"

section \<open>Lemmas\<close>

lemma bytes_length [simp]: "length (bytes m a n) = n"
  by (simp add: bytes_def)

lemma bytes_nth [simp]: "k < n \<Longrightarrow> bytes m a n ! k = m (a + of_nat k)"
  by (simp add: bytes_def)

lemma bytes_eqI: "(\<And>k. k < n \<Longrightarrow> m (a + of_nat k) = m' (b + of_nat k)) \<Longrightarrow> bytes m a n = bytes m' b n"
  by (simp add: bytes_def)

lemma take_bytes: "k \<le> n \<Longrightarrow> take k (bytes m a n) = bytes m a k"
  by (simp add: bytes_def take_map)

text \<open>Areas are given by their address and their length, and do not wrap around.\<close>

definition no_wrap :: "u32 \<Rightarrow> nat \<Rightarrow> bool" where
  "no_wrap a n \<longleftrightarrow> unat a + n \<le> 2 ^ 32"

definition apart :: "u32 \<Rightarrow> nat \<Rightarrow> u32 \<Rightarrow> nat \<Rightarrow> bool" where
  "apart a n b k \<longleftrightarrow> unat a + n \<le> unat b \<or> unat b + k \<le> unat a"

lemma unat_off:
  assumes "no_wrap a n" and "k < n"
  shows "unat (a + of_nat k) = unat a + k"
proof -
  have "unat a + k < 2 ^ 32" using assms by (simp add: no_wrap_def)
  then show ?thesis
    by (simp add: unat_word_ariths(1) unsigned_of_nat take_bit_nat_eq_self)
qed

lemma inside_iff:
  assumes "no_wrap d n"
  shows "unat (x - d) < n \<longleftrightarrow> unat d \<le> unat x \<and> unat x < unat d + n"
proof (cases "d \<le> x")
  case True
  then have "unat (x - d) = unat x - unat d" "unat d \<le> unat x" by (simp_all add: unat_sub word_le_nat_alt)
  then show ?thesis by auto
next
  case False
  then have lt: "unat x < unat d" by (simp add: word_le_nat_alt)
  have "unat (x - d) = (if unat d \<le> unat x then unat x - unat d else unat x + 2 ^ 32 - unat d)"
    using unat_sub_if' [of x d] by simp
  then show ?thesis using lt assms by (simp add: no_wrap_def)
qed

lemma memcpy_inside:
  assumes "k < unat count"
  shows "memcpy d s count m (d + of_nat k) = m (s + of_nat k)"
proof -
  have "unat count < 2 ^ LENGTH(32)" by (rule unsigned_less)
  then have "unat (of_nat k :: u32) = k"
    using assms by (simp add: unsigned_of_nat take_bit_nat_eq_self)
  then show ?thesis using assms by (simp add: memcpy_def word_less_nat_alt)
qed

lemma memcpy_outside: "no_wrap d (unat count) \<Longrightarrow> unat x < unat d \<or> unat d + unat count \<le> unat x \<Longrightarrow>
    memcpy d s count m x = m x"
  using inside_iff [of d "unat count" x] by (auto simp: memcpy_def word_less_nat_alt)

lemma memset_outside: "no_wrap d (unat count) \<Longrightarrow> unat x < unat d \<or> unat d + unat count \<le> unat x \<Longrightarrow>
    memset d c count m x = m x"
  using inside_iff [of d "unat count" x] by (auto simp: memset_def word_less_nat_alt)

lemma store32_outside:
  assumes "no_wrap d 4" and "unat x < unat d \<or> unat d + 4 \<le> unat x"
  shows "store32 d v m x = m x"
proof -
  have "x \<noteq> d + of_nat k" if "k < 4" for k :: nat
    using unat_off [OF assms(1) that] assms(2) that by auto
  from this [of 0] this [of 1] this [of 2] this [of 3] show ?thesis by (simp add: store32_def)
qed

lemma load32_store32 [simp]: "load32 (store32 a v m) a = v"
proof (rule bit_word_eqI)
  fix n :: nat
  assume "n < LENGTH(32)"
  then have n: "n < 32" by simp
  have e: "load32 (store32 a v m) a = ucast (ucast v :: u8) OR push_bit 8 (ucast (ucast (drop_bit 8 v) :: u8)) OR
      push_bit 16 (ucast (ucast (drop_bit 16 v) :: u8)) OR push_bit 24 (ucast (ucast (drop_bit 24 v) :: u8))"
    by (simp add: load32_def store32_def)
  consider "n < 8" | "8 \<le> n" "n < 16" | "16 \<le> n" "n < 24" | "24 \<le> n" using n by linarith
  then show "bit (load32 (store32 a v m) a) n = bit v n"
    unfolding e using n by cases (auto simp: bit_simps)
qed

lemma load32_cong:
  assumes "\<And>k. k < 4 \<Longrightarrow> m (a + of_nat k) = m' (a + of_nat k)"
  shows "load32 m a = load32 m' a"
  using assms [of 0] assms [of 1] assms [of 2] assms [of 3] by (simp add: load32_def)

lemma bytes_memcpy_outside:
  assumes "no_wrap d (unat count)" and "no_wrap b n" and "apart d (unat count) b n"
  shows "bytes (memcpy d s count m) b n = bytes m b n"
proof (rule bytes_eqI)
  fix k
  assume "k < n"
  then show "memcpy d s count m (b + of_nat k) = m (b + of_nat k)"
    using memcpy_outside [OF assms(1), of "b + of_nat k"] unat_off [OF assms(2)] assms(3) by (auto simp: apart_def)
qed

lemma bytes_store32_outside:
  assumes "no_wrap d 4" and "no_wrap b n" and "apart d 4 b n"
  shows "bytes (store32 d v m) b n = bytes m b n"
proof (rule bytes_eqI)
  fix k
  assume "k < n"
  then show "store32 d v m (b + of_nat k) = m (b + of_nat k)"
    using store32_outside [OF assms(1), of "b + of_nat k"] unat_off [OF assms(2)] assms(3) by (auto simp: apart_def)
qed

text \<open>A copy between areas that lie apart is performed.\<close>

lemma no_overlap:
  assumes "no_wrap d (unat count)" and "no_wrap s (unat count)" and "apart d (unat count) s (unat count)"
    and "count > 0" and "s \<noteq> 0" and "d \<noteq> 0"
  shows "SECUREC_MEMORY_NO_OVERLAP d s count"
proof -
  have c: "unat count > 0" using assms(4) by (simp add: unat_gt_0 word_gt_0)
  have "d + count \<le> s" "d < s" if "unat d + unat count \<le> unat s"
  proof -
    have "unat s < 2 ^ LENGTH(32)" by (rule unsigned_less)
    then have "unat (d + count) = unat d + unat count" using that by (simp add: unat_word_ariths(1))
    then show "d + count \<le> s" "d < s" using that c by (simp_all add: word_le_nat_alt word_less_nat_alt)
  qed
  moreover have "s + count \<le> d" "s < d" if "unat s + unat count \<le> unat d"
  proof -
    have "unat d < 2 ^ LENGTH(32)" by (rule unsigned_less)
    then have "unat (s + count) = unat s + unat count" using that by (simp add: unat_word_ariths(1))
    then show "s + count \<le> d" "s < d" using that c by (simp_all add: word_le_nat_alt word_less_nat_alt)
  qed
  ultimately show ?thesis using assms(3) by (auto simp: apart_def SECUREC_MEMORY_NO_OVERLAP_def)
qed

lemma memcpy_s_apart:
  assumes "no_wrap d (unat count)" and "no_wrap s (unat count)" and "apart d (unat count) s (unat count)"
    and "count > 0" and "s \<noteq> 0" and "d \<noteq> 0" and "count \<le> destMax" and "destMax \<le> SECUREC_MEM_MAX_LEN"
  shows "memcpy_s d destMax s count m = (EOK, memcpy d s count m)"
  using no_overlap [OF assms(1-6)] assms by (simp add: memcpy_s_def SECUREC_MEMCPY_PARAM_OK_def)

lemma memcpy_s_outside:
  assumes d: "no_wrap dest (unat destMax)" and r: "memcpy_s dest destMax src count m = (rc, m')"
    and a: "unat a < unat dest \<or> unat dest + unat destMax \<le> unat a"
  shows "m' a = m a"
proof (cases "SECUREC_MEMCPY_PARAM_OK dest destMax src count")
  case True
  then have le: "unat count \<le> unat destMax" by (simp add: SECUREC_MEMCPY_PARAM_OK_def word_le_nat_alt)
  then have "no_wrap dest (unat count)" using d by (simp add: no_wrap_def)
  then have "memcpy dest src count m a = m a" using le a by (intro memcpy_outside) auto
  then show ?thesis using True r by (auto simp: memcpy_s_def)
next
  case False
  have "snd (SecMemcpyError dest destMax src count m) \<in> {m, memset dest 0 destMax m}"
    by (auto simp: SecMemcpyError_def)
  then show ?thesis using False r memset_outside [OF d a, of 0 m] by (auto simp: memcpy_s_def)
qed

section \<open>Property\<close>

text \<open>C23: \<open>memcpy_s\<close> never writes outside the \<open>destMax\<close> bytes of the destination.  If it reports success,
  the destination has room for the bytes and then holds what the source held, and nothing else has
  changed; if it reports an error, each byte of the destination is as before or zero.\<close>

theorem memcpy_s_safe:
  assumes d: "no_wrap dest (unat destMax)" and s: "no_wrap src (unat count)"
  shows "case memcpy_s dest destMax src count m of (rc, m') \<Rightarrow>
      (\<forall>a. unat a < unat dest \<or> unat dest + unat destMax \<le> unat a \<longrightarrow> m' a = m a) \<and>
      (if rc = EOK then count \<le> destMax \<and> bytes m' dest (unat count) = bytes m src (unat count) \<and>
            (\<forall>a. unat a < unat dest \<or> unat dest + unat count \<le> unat a \<longrightarrow> m' a = m a)
       else \<forall>a. m' a = m a \<or> m' a = 0)"
proof (cases "SECUREC_MEMCPY_PARAM_OK dest destMax src count")
  case True
  then have le: "unat count \<le> unat destMax" by (simp add: SECUREC_MEMCPY_PARAM_OK_def word_le_nat_alt)
  then have w: "no_wrap dest (unat count)" using d by (simp add: no_wrap_def)
  have "bytes (memcpy dest src count m) dest (unat count) = bytes m src (unat count)"
    by (rule bytes_eqI) (rule memcpy_inside)
  then show ?thesis using True le memcpy_outside [OF w, of _ src m] by (auto simp: memcpy_s_def word_le_nat_alt)
next
  case False
  show ?thesis
  proof (cases "fst (SecMemcpyError dest destMax src count m) = EOK")
    case True
    then have e: "SecMemcpyError dest destMax src count m = (EOK, m)" and le: "count \<le> destMax"
      and "count = 0 \<or> dest = src"
      using False by (auto simp: SecMemcpyError_def SECUREC_MEMCPY_PARAM_OK_def SECUREC_MEMORY_NO_OVERLAP_def
          SECUREC_MEMORY_IS_OVERLAP_def word_gt_0 not_le not_less split: if_splits)
    then have "bytes m dest (unat count) = bytes m src (unat count)" by (auto simp: bytes_def)
    then show ?thesis using False e le by (simp add: memcpy_s_def)
  next
    case err: False
    have "snd (SecMemcpyError dest destMax src count m) \<in> {m, memset dest 0 destMax m}"
      by (auto simp: SecMemcpyError_def)
    then show ?thesis
      using False err memset_outside [OF d, of _ 0 m]
      by (auto simp: memcpy_s_def memset_def split: prod.splits)
  qed
qed

theorem memcpy_s_safe_witness:
  "case memcpy_s 0x20 8 0x40 4 (\<lambda>a. ucast a) of (rc, m') \<Rightarrow> rc = EOK \<and> bytes m' 0x20 4 = [0x40, 0x41, 0x42, 0x43] \<and> m' 0x24 = 0x24"
  using memcpy_s_safe [of "0x20" 8 "0x40" 4 "\<lambda>a. ucast a"]
  by (simp add: no_wrap_def memcpy_s_def SECUREC_MEMCPY_PARAM_OK_def SECUREC_MEMORY_NO_OVERLAP_def
      SECUREC_MEM_MAX_LEN_def memcpy_def bytes_def upt_conv_Cons)

end
