(* ===== verification/Task.thy ===== *)
theory Task
  imports Tick Sem Mux Event Bytes
begin

text \<open>
  Tasks, \<open>src/kernel/src/los_task.c\<close>: creation with the initial stack, suspension, delay, priorities,
  the scheduler lock, termination, joining and the recycling of control blocks.

  The state is the scheduler state together with the events (each task embeds one), the memory the
  stacks lie in, and the addresses given to \<open>LOS_MemFree\<close> so far; the results of allocations are
  arguments.  Options that are off by default (\<open>LOSCFG_BASE_CORE_CPUP\<close>, \<open>LOSCFG_KERNEL_SIGNAL\<close>,
  \<open>LOSCFG_EXC_HARDWARE_STACK_PROTECTION\<close>, the hooks) are off.
\<close>

section \<open>Data\<close>

record TSK_INIT_PARAM_S =
  pfnTaskEntry :: u32
  usTaskPrio :: u16
  uwArg :: u32
  stackAddr :: u32
  uwStackSize :: u32
  pcName :: u32
  uwResved :: u32

record TaskSwitchInfo =
  swIdx :: u8
  swMaxCnt :: u8
  swIsFull :: bool
  swPid :: "u8 \<Rightarrow> u16"
  swName :: "u8 \<Rightarrow> u8 list"

record taskmod =
  tskEvents :: events
  tskMem :: mem8
  memFreed :: "u32 list"
  PmEnter :: u32
  OsTaskEntryAddr :: u32
  ArchSysExitAddr :: u32
  OsIdleTaskAddr :: u32
  fpuUsed :: bool
  g_taskSwitchInfo :: TaskSwitchInfo

type_synonym taskst = "taskmod \<times> ksched"

abbreviation (input) "LOS_ERRNO_TSK_NO_MEMORY \<equiv> LOS_ERRNO_OS_FATAL LOS_MOD_TSK 0x00"
abbreviation (input) "LOS_ERRNO_TSK_PTR_NULL \<equiv> LOS_ERRNO_OS_ERROR LOS_MOD_TSK 0x01"
abbreviation (input) "LOS_ERRNO_TSK_PRIOR_ERROR \<equiv> LOS_ERRNO_OS_ERROR LOS_MOD_TSK 0x03"
abbreviation (input) "LOS_ERRNO_TSK_ENTRY_NULL \<equiv> LOS_ERRNO_OS_ERROR LOS_MOD_TSK 0x04"
abbreviation (input) "LOS_ERRNO_TSK_NAME_EMPTY \<equiv> LOS_ERRNO_OS_ERROR LOS_MOD_TSK 0x05"
abbreviation (input) "LOS_ERRNO_TSK_STKSZ_TOO_SMALL \<equiv> LOS_ERRNO_OS_ERROR LOS_MOD_TSK 0x06"
abbreviation (input) "LOS_ERRNO_TSK_ID_INVALID \<equiv> LOS_ERRNO_OS_ERROR LOS_MOD_TSK 0x07"
abbreviation (input) "LOS_ERRNO_TSK_ALREADY_SUSPENDED \<equiv> LOS_ERRNO_OS_ERROR LOS_MOD_TSK 0x08"
abbreviation (input) "LOS_ERRNO_TSK_NOT_SUSPENDED \<equiv> LOS_ERRNO_OS_ERROR LOS_MOD_TSK 0x09"
abbreviation (input) "LOS_ERRNO_TSK_NOT_CREATED \<equiv> LOS_ERRNO_OS_ERROR LOS_MOD_TSK 0x0a"
abbreviation (input) "LOS_ERRNO_TSK_DELAY_IN_INT \<equiv> LOS_ERRNO_OS_FATAL LOS_MOD_TSK 0x0d"
abbreviation (input) "LOS_ERRNO_TSK_DELAY_IN_LOCK \<equiv> LOS_ERRNO_OS_ERROR LOS_MOD_TSK 0x0e"
abbreviation (input) "LOS_ERRNO_TSK_TCB_UNAVAILABLE \<equiv> LOS_ERRNO_OS_ERROR LOS_MOD_TSK 0x11"
abbreviation (input) "LOS_ERRNO_TSK_OPERATE_SYSTEM_TASK \<equiv> LOS_ERRNO_OS_ERROR LOS_MOD_TSK 0x14"
abbreviation (input) "LOS_ERRNO_TSK_OPERATE_IDLE \<equiv> LOS_ERRNO_OS_ERROR LOS_MOD_TSK 0x14"
abbreviation (input) "LOS_ERRNO_TSK_SUSPEND_LOCKED \<equiv> LOS_ERRNO_OS_FATAL LOS_MOD_TSK 0x15"
abbreviation (input) "LOS_ERRNO_TSK_STKSZ_TOO_LARGE \<equiv> LOS_ERRNO_OS_ERROR LOS_MOD_TSK 0x20"
abbreviation (input) "LOS_ERRNO_TSK_SUSPEND_SWTMR_NOT_ALLOWED \<equiv> LOS_ERRNO_OS_ERROR LOS_MOD_TSK 0x21"
abbreviation (input) "LOS_ERRNO_TSK_OPERATE_SWTMR \<equiv> LOS_ERRNO_OS_ERROR LOS_MOD_TSK 0x22"
abbreviation (input) "LOS_ERRNO_TSK_NOT_JOIN \<equiv> LOS_ERRNO_OS_ERROR LOS_MOD_TSK 0x24"
abbreviation (input) "LOS_ERRNO_TSK_NOT_JOIN_SELF \<equiv> LOS_ERRNO_OS_ERROR LOS_MOD_TSK 0x25"
abbreviation (input) "LOS_ERRNO_TSK_NOT_ALLOW_IN_INT \<equiv> LOS_ERRNO_OS_ERROR LOS_MOD_TSK 0x26"
abbreviation (input) "LOS_ERRNO_TSK_ALREADY_EXIT \<equiv> LOS_ERRNO_OS_ERROR LOS_MOD_TSK 0x27"
abbreviation (input) "LOS_ERRNO_TSK_SCHED_LOCKED \<equiv> LOS_ERRNO_OS_ERROR LOS_MOD_TSK 0x28"
abbreviation (input) "LOS_ERRNO_TSK_PROCESS_SIGNAL \<equiv> LOS_ERRNO_OS_ERROR LOS_MOD_TSK 0x29"

abbreviation (input) OS_TASK_MAGIC_WORD :: u32 where "OS_TASK_MAGIC_WORD \<equiv> 0xCCCCCCCC"
abbreviation (input) OS_TASK_STACK_INIT :: u32 where "OS_TASK_STACK_INIT \<equiv> 0xCACACACA"
abbreviation (input) OS_TASK_STACK_ADDR_ALIGN :: u32 where "OS_TASK_STACK_ADDR_ALIGN \<equiv> 8"
abbreviation LOS_TASK_ATTR_JOINABLE :: u32 where "LOS_TASK_ATTR_JOINABLE \<equiv> flagBit 31"

definition LOS_Align :: "u32 \<Rightarrow> u32 \<Rightarrow> u32" where
  "LOS_Align addr boundary =
     (addr + (if addr + (boundary - 1) > addr then boundary - 1 else 0)) AND NOT (boundary - 1)"

definition TRUNCATE :: "u32 \<Rightarrow> u32 \<Rightarrow> u32" where
  "TRUNCATE addr sz = addr AND NOT (sz - 1)"

definition zeroTaskCB :: LosTaskCB where
  "zeroTaskCB = \<lparr>stackPointer = 0, taskStatus = 0, priority = 0, timeSlice = 0, waitTimes = 0, startTime = 0,
     stackSize = 0, topOfStack = 0, taskID = 0, taskEntry = 0, taskSem = None, taskMux = None, arg = 0,
     taskName = 0, joinRetval = 0, eventMask = 0, eventMode = 0, msg = 0, errorNo = 0\<rparr>"

section \<open>Checks and recycling\<close>

definition OsCheckTaskIDValid :: "u32 \<Rightarrow> ksched \<Rightarrow> u32" where
  "OsCheckTaskIDValid tid s =
     (if tid = g_idleTaskID s then LOS_ERRNO_TSK_OPERATE_IDLE
      else if tid = g_swtmrTaskID s then LOS_ERRNO_TSK_SUSPEND_SWTMR_NOT_ALLOWED
      else if tid \<ge> g_taskMaxNum s then LOS_ERRNO_TSK_ID_INVALID
      else LOS_OK)"

text \<open>
  \<open>memset_s\<close> clears the embedded event (whose list is then no longer initialised) and the response
  time as well.
\<close>

definition OsInsertTCBToFreeList :: "tptr \<Rightarrow> taskst \<Rightarrow> taskst" where
  "OsInsertTCBToFreeList t = (\<lambda>(m, s).
     let tid = taskID (tcb s t);
         v = tskEvents m;
         v1 = v\<lparr>uwEventID := (uwEventID v)(TaskEvent t := 0), evInited := (evInited v)(TaskEvent t := False)\<rparr>;
         s1 = mod_tskSort (SET_SORTLIST_VALUE t 0) (mod_task t (\<lambda>_. zeroTaskCB) s);
         s2 = mod_task t (\<lambda>c. c\<lparr>taskID := tid\<rparr>) s1;
         s3 = mod_task t (\<lambda>c. c\<lparr>taskStatus := OS_TASK_STATUS_UNUSED\<rparr>) s2
     in (m\<lparr>tskEvents := v1\<rparr>, mod_lst (ls_add FreeTask t) s3))"

text \<open>The result is the new \<open>*stackPtr\<close>.\<close>

definition OsRecycleTaskResources :: "tptr \<Rightarrow> taskst \<Rightarrow> u32 \<times> taskst" where
  "OsRecycleTaskResources t = (\<lambda>(m, s).
     let free = (hasFlag (status s t) OS_TASK_FLAG_STACK_FREE \<and> topOfStack (tcb s t) \<noteq> 0);
         stackPtr = (if free then topOfStack (tcb s t) else 0);
         s1 = (if free then clr_status t OS_TASK_FLAG_STACK_FREE (mod_task t (\<lambda>c. c\<lparr>topOfStack := 0\<rparr>) s) else s)
     in (stackPtr, if \<not> hasFlag (status s1 t) OS_TASK_FLAG_JOINABLE
                   then OsInsertTCBToFreeList t (m, s1) else (m, s1)))"

text \<open>\<open>LOS_MemFree\<close> of a stack; it ignores \<open>NULL\<close>.\<close>

definition free_stack :: "u32 \<times> taskst \<Rightarrow> taskst" where
  "free_stack = (\<lambda>(stackPtr, (m, s)). (if stackPtr = 0 then m else m\<lparr>memFreed := memFreed m @ [stackPtr]\<rparr>, s))"

text \<open>The loop takes the first task of the list until it is empty, so it visits the tasks in order.\<close>

fun recycle_loop :: "tptr list \<Rightarrow> taskst \<Rightarrow> taskst" where
  "recycle_loop [] st = st"
| "recycle_loop (t # ts) (m, s) =
     recycle_loop ts (free_stack (OsRecycleTaskResources t (m, mod_lst (ls_del t) s)))"

definition OsRecycleFinishedTask :: "taskst \<Rightarrow> taskst" where
  "OsRecycleFinishedTask = (\<lambda>(m, s). recycle_loop (ls_nodes (lst s) TaskRecycle) (m, s))"

definition LOS_TaskResRecycle :: "taskst \<Rightarrow> taskst" where
  "LOS_TaskResRecycle st = OsRecycleFinishedTask st"

definition OsPmEnterHandlerSet :: "u32 \<Rightarrow> taskmod \<Rightarrow> u32 \<times> taskmod" where
  "OsPmEnterHandlerSet func m = (if func = 0 then (LOS_NOK, m) else (LOS_OK, m\<lparr>PmEnter := func\<rparr>))"

text \<open>One round of the loop of the idle task; then it sleeps or calls \<open>PmEnter\<close>.\<close>

definition OsIdleTask :: "taskst \<Rightarrow> taskst" where
  "OsIdleTask st = OsRecycleFinishedTask st"

definition OsConvertTskStatus :: "u16 \<Rightarrow> string" where
  "OsConvertTskStatus st =
     (if hasFlag st OS_TASK_STATUS_RUNNING then ''Running''
      else if hasFlag st OS_TASK_STATUS_READY then ''Ready''
      else if hasFlag st OS_TASK_STATUS_EXIT then ''Exit''
      else if hasFlag st OS_TASK_STATUS_SUSPEND then ''Suspend''
      else if hasFlag st OS_TASK_STATUS_DELAY then ''Delay''
      else if hasFlag st OS_TASK_STATUS_PEND
           then if hasFlag st OS_TASK_STATUS_PEND_TIME then ''PendTime'' else ''Pend''
      else ''Impossible'')"

text \<open>
  The loop of \<open>OsGetTaskWaterLine\<close> over the words that still have their initial value.  The pointer
  could run past the end of the address space, so the loop need not return (\<open>None\<close>).
\<close>

partial_function (option) water_loop :: "mem8 \<Rightarrow> u32 \<Rightarrow> u32 \<Rightarrow> u32 option" where
  "water_loop mm sp stackPtr =
     (if stackPtr < sp \<and> load32 mm stackPtr = OS_TASK_STACK_INIT then water_loop mm sp (stackPtr + 4)
      else Some stackPtr)"

definition OsGetTaskWaterLine :: "u32 \<Rightarrow> taskst \<Rightarrow> u32 option" where
  "OsGetTaskWaterLine tid = (\<lambda>(m, s).
     let c = tcb s (OS_TCB_FROM_TID tid)
     in if load32 (tskMem m) (topOfStack c) = OS_TASK_MAGIC_WORD
        then case water_loop (tskMem m) (stackPointer c) (topOfStack c + 4) of
               None \<Rightarrow> None
             | Some stackPtr \<Rightarrow> Some (stackSize c - (stackPtr - topOfStack c))
        else Some OS_NULL_INT)"

section \<open>Initialisation and creation\<close>

definition OsTaskInit :: "bool \<Rightarrow> taskst \<Rightarrow> u32 \<times> taskst" where
  "OsTaskInit memOk = (\<lambda>(m, s).
     let s1 = s\<lparr>g_taskMaxNum := TSK_LIMIT (conf s) + 1\<rparr>
     in if \<not> memOk then (LOS_ERRNO_TSK_NO_MEMORY, (m, s1))
        else let s2 = s1\<lparr>tcb := (\<lambda>_. zeroTaskCB), tskSort := (tskSort s1)\<lparr>sl_time := (\<lambda>_. 0)\<rparr>\<rparr>;
                 s3 = mod_lst (ls_init TaskRecycle) (mod_lst (ls_init FreeTask) s2);
                 s4 = foldl (\<lambda>a i. mod_lst (ls_tail FreeTask i)
                               (mod_task i (\<lambda>c. c\<lparr>taskStatus := OS_TASK_STATUS_UNUSED, taskID := of_nat i\<rparr>) a))
                        s3 [0..<Suc (unat (TSK_LIMIT (conf s)))];
                 r = unat (g_taskMaxNum s4);
                 s5 = mod_task r (\<lambda>c. c\<lparr>taskID := of_nat r,
                        taskStatus := OS_TASK_STATUS_UNUSED OR OS_TASK_STATUS_RUNNING,
                        priority := OS_TASK_PRIORITY_LOWEST + 1\<rparr>) (s4\<lparr>runTask := r, newTask := 0\<rparr>)
             in (LOS_OK, (m, OsSchedInit (s5\<lparr>g_idleTaskID := OS_INVALID\<rparr>))))"

text \<open>The result is the code and the parameters, whose stack size gets its default.\<close>

definition OsTaskInitParamCheck :: "TSK_INIT_PARAM_S option \<Rightarrow> taskst \<Rightarrow> u32 \<times> TSK_INIT_PARAM_S option" where
  "OsTaskInitParamCheck taskInitParam = (\<lambda>(m, s).
     case taskInitParam of
       None \<Rightarrow> (LOS_ERRNO_TSK_PTR_NULL, None)
     | Some p \<Rightarrow>
         if pcName p = 0 then (LOS_ERRNO_TSK_NAME_EMPTY, Some p)
         else if pfnTaskEntry p = 0 then (LOS_ERRNO_TSK_ENTRY_NULL, Some p)
         else if usTaskPrio p > OS_TASK_PRIORITY_LOWEST then (LOS_ERRNO_TSK_PRIOR_ERROR, Some p)
         else if usTaskPrio p = OS_TASK_PRIORITY_LOWEST \<and> pfnTaskEntry p \<noteq> OsIdleTaskAddr m
              then (LOS_ERRNO_TSK_PRIOR_ERROR, Some p)
         else if uwStackSize p > SYS_HEAP_SIZE (conf s) then (LOS_ERRNO_TSK_STKSZ_TOO_LARGE, Some p)
         else let p1 = (if uwStackSize p = 0 then p\<lparr>uwStackSize := TSK_DEFAULT_STACK_SIZE (conf s)\<rparr> else p)
              in if uwStackSize p1 < TSK_MIN_STACK_SIZE (conf s) then (LOS_ERRNO_TSK_STKSZ_TOO_SMALL, Some p1)
                 else (LOS_OK, Some p1))"

text \<open>
  The context of a new task (\<open>src/arch/arm/cortex-m4/gcc/los_context.c\<close>), the words of \<open>TaskContext\<close>
  from its first field on; \<open>fpu\<close> says whether the floating-point unit is present and used.
\<close>

definition task_context :: "bool \<Rightarrow> u32 \<Rightarrow> u32 \<Rightarrow> u32 \<Rightarrow> u32 list" where
  "task_context fpu tid sysExit entry =
     (if fpu then map (\<lambda>k. 0xAA000010 + of_nat k) [0..<16] else []) @
     [0x04040404, 0x05050505, 0x06060606, 0x07070707, 0x08080808, 0x09090909, 0x10101010, 0x11111111, 0,
      tid, 0x01010101, 0x02020202, 0x03030303, 0x12121212, sysExit, entry, 0x01000000] @
     (if fpu then map (\<lambda>k. 0xAA000000 + of_nat k) [0..<16] @ [0, 0xAA000011] else [])"

fun store_words :: "u32 \<Rightarrow> u32 list \<Rightarrow> mem8 \<Rightarrow> mem8" where
  "store_words a [] mm = mm"
| "store_words a (w # ws) mm = store_words (a + 4) ws (store32 a w mm)"

definition ArchTskStackInit :: "u32 \<Rightarrow> u32 \<Rightarrow> u32 \<Rightarrow> taskmod \<Rightarrow> u32 \<times> taskmod" where
  "ArchTskStackInit tid stkSize topStack m =
     (let words = task_context (fpuUsed m) tid (ArchSysExitAddr m) (OsTaskEntryAddr m);
          context = topStack + stkSize - 4 * of_nat (length words)
      in (context, m\<lparr>tskMem := store_words context words (tskMem m)\<rparr>))"

text \<open>\<open>mem\<close> is the result of \<open>LOS_MemAllocAlign\<close> for the stack, zero when there is no memory.\<close>

definition OsNewTaskInit :: "tptr \<Rightarrow> TSK_INIT_PARAM_S \<Rightarrow> u32 \<Rightarrow> taskst \<Rightarrow> u32 \<times> taskst" where
  "OsNewTaskInit t p mem = (\<lambda>(m, s).
     let s1 = mod_task t (\<lambda>c. c\<lparr>arg := uwArg p, stackSize := uwStackSize p, taskSem := None, taskMux := None,
                taskStatus := OS_TASK_STATUS_SUSPEND, priority := usTaskPrio p, timeSlice := 0, waitTimes := 0,
                taskEntry := pfnTaskEntry p, eventMask := 0, taskName := pcName p, msg := 0\<rparr>) s;
         s2 = mod_tskSort (SET_SORTLIST_VALUE t OS_SORT_LINK_INVALID_TIME) s1;
         (v, s3) = snd (LOS_EventInit (Some (TaskEvent t)) (tskEvents m, s2));
         m1 = m\<lparr>tskEvents := v\<rparr>;
         s4 = (if hasFlag (uwResved p) LOS_TASK_ATTR_JOINABLE
               then mod_lst (ls_init (JoinList t)) (set_status t OS_TASK_FLAG_JOINABLE s3) else s3);
         own = (stackAddr p = 0);
         top = (if own then mem else LOS_Align (stackAddr p) (STACK_POINT_ALIGN_SIZE (conf s)));
         sz = (if own then LOS_Align (uwStackSize p) OS_TASK_STACK_ADDR_ALIGN
               else TRUNCATE (uwStackSize p - (top - stackAddr p)) OS_TASK_STACK_ADDR_ALIGN);
         s5 = mod_task t (\<lambda>c. c\<lparr>stackSize := sz, topOfStack := top\<rparr>) s4
     in if own \<and> top = 0 then (LOS_ERRNO_TSK_NO_MEMORY, (m1, s5))
        else let s6 = (if own then set_status t OS_TASK_FLAG_STACK_FREE s5 else s5);
                 m2 = m1\<lparr>tskMem := store32 top OS_TASK_MAGIC_WORD (memset top 0xCA sz (tskMem m1))\<rparr>;
                 (sp, m3) = ArchTskStackInit (taskID (tcb s6 t)) sz top m2
             in (LOS_OK, (m3, mod_task t (\<lambda>c. c\<lparr>stackPointer := sp\<rparr>) s6)))"

text \<open>
  \<open>LOS_TaskCreateOnly\<close>: \<open>wantId\<close> says that \<open>taskID\<close> is not \<open>NULL\<close>; the results are the code and the
  identifier.  The control block that is being filled in is on no list and its identifier is not yet
  known to anybody, so the whole call is one step.
\<close>

definition LOS_TaskCreateOnly ::
  "bool \<Rightarrow> TSK_INIT_PARAM_S option \<Rightarrow> u32 \<Rightarrow> taskst \<Rightarrow> (u32 \<times> u32 option) \<times> taskst" where
  "LOS_TaskCreateOnly wantId taskInitParam mem st =
     (if \<not> wantId then ((LOS_ERRNO_TSK_ID_INVALID, None), st)
      else let (retVal, param) = OsTaskInitParamCheck taskInitParam st
           in if retVal \<noteq> LOS_OK then ((retVal, None), st)
              else let (m, s) = OsRecycleFinishedTask st
                   in case ls_nodes (lst s) FreeTask of
                        [] \<Rightarrow> ((LOS_ERRNO_TSK_TCB_UNAVAILABLE, None), (m, s))
                      | t # _ \<Rightarrow>
                          (let s1 = mod_lst (ls_del t) s;
                               (ret, st2) = OsNewTaskInit t (the param) mem (m, s1)
                           in if ret \<noteq> LOS_OK then ((ret, None), OsInsertTCBToFreeList t st2)
                              else ((LOS_OK, Some (taskID (tcb (snd st2) t))), st2)))"

definition LOS_TaskCreate ::
  "bool \<Rightarrow> TSK_INIT_PARAM_S option \<Rightarrow> u32 \<Rightarrow> taskst \<Rightarrow> (u32 \<times> u32 option) \<times> taskst" where
  "LOS_TaskCreate wantId taskInitParam mem st =
     (let ((retVal, tid), (m, s)) = LOS_TaskCreateOnly wantId taskInitParam mem st
      in if retVal \<noteq> LOS_OK then ((retVal, tid), (m, s))
         else let s1 = OsSchedTaskEnQueue (OS_TCB_FROM_TID (the tid)) s
              in ((LOS_OK, tid), (m, if g_taskScheduled s1 then LOS_Schedule s1 else s1)))"

text \<open>\<open>name\<close> is the address of the string \<open>"IdleCore000"\<close>.\<close>

definition OsIdleTaskCreate :: "u32 \<Rightarrow> u32 \<Rightarrow> taskst \<Rightarrow> u32 \<times> taskst" where
  "OsIdleTaskCreate name mem = (\<lambda>(m, s).
     let p = \<lparr>pfnTaskEntry = OsIdleTaskAddr m, usTaskPrio = OS_TASK_PRIORITY_LOWEST, uwArg = 0, stackAddr = 0,
              uwStackSize = TSK_IDLE_STACK_SIZE (conf s), pcName = name, uwResved = 0\<rparr>;
         ((retVal, tid), (m1, s1)) = LOS_TaskCreateOnly True (Some p) mem (m, s)
     in if retVal \<noteq> LOS_OK then (retVal, (m1, s1))
        else let s2 = s1\<lparr>g_idleTaskID := the tid\<rparr>
             in (LOS_OK, (m1, OsSchedSetIdleTaskSchedParam (OS_TCB_FROM_TID (g_idleTaskID s2)) s2)))"

section \<open>Suspension, delay, priority, lock\<close>

definition LOS_CurTaskIDGet :: "ksched \<Rightarrow> u32" where
  "LOS_CurTaskIDGet s = taskID (tcb s (runTask s))"

definition LOS_NextTaskIDGet :: "ksched \<Rightarrow> u32 option" where
  "LOS_NextTaskIDGet s = map_option (\<lambda>t. taskID (tcb s t)) (OsGetTopTask s)"

definition LOS_NewTaskIDGet :: "ksched \<Rightarrow> u32 option" where
  "LOS_NewTaskIDGet s = LOS_NextTaskIDGet s"

definition LOS_CurTaskNameGet :: "ksched \<Rightarrow> u32" where
  "LOS_CurTaskNameGet s = taskName (tcb s (runTask s))"

definition LOS_TaskResume :: "u32 \<Rightarrow> ksched \<Rightarrow> u32 \<times> ksched" where
  "LOS_TaskResume tid s =
     (if \<not> tid < g_taskMaxNum s then (LOS_ERRNO_TSK_ID_INVALID, s)
      else let t = OS_TCB_FROM_TID tid; tempStatus = status s t
           in if hasFlag tempStatus OS_TASK_STATUS_UNUSED then (LOS_ERRNO_TSK_NOT_CREATED, s)
              else if \<not> hasFlag tempStatus OS_TASK_STATUS_SUSPEND then (LOS_ERRNO_TSK_NOT_SUSPENDED, s)
              else let (needSched, s1) = OsSchedResume t s
                   in (LOS_OK, if needSched \<and> g_taskScheduled s1 then LOS_Schedule s1 else s1))"

definition LOS_TaskSuspend :: "u32 \<Rightarrow> ksched \<Rightarrow> u32 \<times> ksched" where
  "LOS_TaskSuspend tid s =
     (let chk = OsCheckTaskIDValid tid s
      in if chk \<noteq> LOS_OK then (chk, s)
         else let t = OS_TCB_FROM_TID tid; tempStatus = status s t
              in if hasFlag tempStatus OS_TASK_STATUS_UNUSED then (LOS_ERRNO_TSK_NOT_CREATED, s)
                 else if hasFlag tempStatus OS_TASK_FLAG_SYSTEM_TASK then (LOS_ERRNO_TSK_OPERATE_SYSTEM_TASK, s)
                 else if hasFlag tempStatus OS_TASK_STATUS_SUSPEND then (LOS_ERRNO_TSK_ALREADY_SUSPENDED, s)
                 else if hasFlag tempStatus OS_TASK_STATUS_RUNNING \<and> g_losTaskLock s \<noteq> 0
                      then (LOS_ERRNO_TSK_SUSPEND_LOCKED, s)
                 else let s1 = OsSchedSuspend False t s
                      in (LOS_OK, if tid = taskID (tcb s1 (runTask s1)) then LOS_Schedule s1 else s1))"

definition LOS_TaskYield :: "ksched \<Rightarrow> u32 \<times> ksched" where
  "LOS_TaskYield s = (LOS_OK, LOS_Schedule (OsSchedYield s))"

definition LOS_TaskDelay :: "u32 \<Rightarrow> ksched \<Rightarrow> u32 \<times> ksched" where
  "LOS_TaskDelay tick s =
     (if intActive s then (LOS_ERRNO_TSK_DELAY_IN_INT, s)
      else if g_losTaskLock s \<noteq> 0 then (LOS_ERRNO_TSK_DELAY_IN_LOCK, s)
      else if hasFlag (status s (runTask s)) OS_TASK_FLAG_SYSTEM_TASK then (LOS_ERRNO_TSK_OPERATE_SYSTEM_TASK, s)
      else if tick = 0 then LOS_TaskYield s
      else (LOS_OK, LOS_Schedule (OsSchedDelay (runTask s) tick s)))"

definition LOS_Msleep :: "u32 \<Rightarrow> ksched \<Rightarrow> ksched" where
  "LOS_Msleep mSecs s =
     (if intActive s then s
      else let interval = (if mSecs = 0 then 0
                           else let i = LOS_MS2Tick (TICK_PER_SECOND (conf s)) mSecs in if i = 0 then 1 else i)
           in snd (LOS_TaskDelay interval s))"

definition LOS_TaskPriGet :: "u32 \<Rightarrow> ksched \<Rightarrow> u16" where
  "LOS_TaskPriGet tid s =
     (if tid \<ge> g_taskMaxNum s then ucast OS_INVALID
      else let t = OS_TCB_FROM_TID tid
           in if hasFlag (status s t) OS_TASK_STATUS_UNUSED then ucast OS_INVALID else priority (tcb s t))"

definition LOS_TaskPriSet :: "u32 \<Rightarrow> u16 \<Rightarrow> ksched \<Rightarrow> u32 \<times> ksched" where
  "LOS_TaskPriSet tid taskPrio s =
     (if taskPrio > OS_TASK_PRIORITY_LOWEST then (LOS_ERRNO_TSK_PRIOR_ERROR, s)
      else if tid = g_idleTaskID s then (LOS_ERRNO_TSK_OPERATE_IDLE, s)
      else if tid = g_swtmrTaskID s then (LOS_ERRNO_TSK_OPERATE_SWTMR, s)
      else if tid \<ge> g_taskMaxNum s then (LOS_ERRNO_TSK_ID_INVALID, s)
      else let t = OS_TCB_FROM_TID tid; tempStatus = status s t
           in if hasFlag tempStatus OS_TASK_STATUS_UNUSED then (LOS_ERRNO_TSK_NOT_CREATED, s)
              else if hasFlag tempStatus OS_TASK_FLAG_SYSTEM_TASK then (LOS_ERRNO_TSK_OPERATE_SYSTEM_TASK, s)
              else let (isReady, s1) = OsSchedModifyTaskSchedParam t taskPrio s
                   in (LOS_OK, if isReady then LOS_Schedule s1 else s1))"

definition LOS_CurTaskPriSet :: "u16 \<Rightarrow> ksched \<Rightarrow> u32 \<times> ksched" where
  "LOS_CurTaskPriSet taskPrio s = LOS_TaskPriSet (taskID (tcb s (runTask s))) taskPrio s"

definition LOS_TaskLock :: "ksched \<Rightarrow> ksched" where
  "LOS_TaskLock s = s\<lparr>g_losTaskLock := g_losTaskLock s + 1\<rparr>"

definition LOS_TaskUnlock :: "ksched \<Rightarrow> ksched" where
  "LOS_TaskUnlock s =
     (if g_losTaskLock s > 0
      then let s1 = s\<lparr>g_losTaskLock := g_losTaskLock s - 1\<rparr>
           in if g_losTaskLock s1 = 0 then LOS_Schedule s1 else s1
      else s)"

section \<open>Joining and termination\<close>

definition OsTaskJoinPostUnsafe :: "tptr \<Rightarrow> ksched \<Rightarrow> ksched" where
  "OsTaskJoinPostUnsafe t s =
     (if hasFlag (status s t) OS_TASK_FLAG_JOINABLE
      then case ls_nodes (lst s) (JoinList t) of [] \<Rightarrow> s | u # _ \<Rightarrow> OsSchedTaskWake u s
      else s)"

definition OsTaskJoinPendUnsafe :: "tptr \<Rightarrow> ksched \<Rightarrow> u32 \<times> ksched" where
  "OsTaskJoinPendUnsafe t s =
     (if hasFlag (status s t) OS_TASK_STATUS_EXIT then (LOS_OK, s)
      else if hasFlag (status s t) OS_TASK_FLAG_JOINABLE \<and> ls_nodes (lst s) (JoinList t) = []
           then (LOS_OK, OsSchedTaskWait (JoinList t) LOS_WAIT_FOREVER s)
      else (LOS_NOK, s))"

definition OsTaskSetDetachUnsafe :: "tptr \<Rightarrow> ksched \<Rightarrow> u32 \<times> ksched" where
  "OsTaskSetDetachUnsafe t s =
     (if hasFlag (status s t) OS_TASK_FLAG_JOINABLE
      then if ls_nodes (lst s) (JoinList t) = []
           then (LOS_OK, clr_status t OS_TASK_FLAG_JOINABLE s)
           else (LOS_ERRNO_TSK_NOT_JOIN, s)
      else (LOS_NOK, s))"

text \<open>
  \<open>LOS_TaskJoin\<close> up to its \<open>LOS_Schedule\<close>; \<open>None\<close> means that the call goes on with
  \<open>LOS_TaskJoin_resume\<close> when the caller runs again.  The result of the latter is \<open>joinRetval\<close>.
\<close>

definition LOS_TaskJoin :: "u32 \<Rightarrow> ksched \<Rightarrow> u32 option \<times> ksched" where
  "LOS_TaskJoin tid s =
     (let chk = OsCheckTaskIDValid tid s
      in if chk \<noteq> LOS_OK then (Some chk, s)
         else if intActive s then (Some LOS_ERRNO_TSK_NOT_ALLOW_IN_INT, s)
         else if g_losTaskLock s \<noteq> 0 then (Some LOS_ERRNO_TSK_SCHED_LOCKED, s)
         else if tid = LOS_CurTaskIDGet s then (Some LOS_ERRNO_TSK_NOT_JOIN_SELF, s)
         else let t = OS_TCB_FROM_TID tid
              in if hasFlag (status s t) OS_TASK_STATUS_UNUSED then (Some LOS_ERRNO_TSK_NOT_CREATED, s)
                 else let (ret, s1) = OsTaskJoinPendUnsafe t s
                      in if ret = LOS_OK then (None, LOS_Schedule s1) else (Some ret, s1))"

definition LOS_TaskJoin_resume :: "tptr \<Rightarrow> taskst \<Rightarrow> (u32 \<times> u32) \<times> taskst" where
  "LOS_TaskJoin_resume t = (\<lambda>(m, s).
     let retval = joinRetval (tcb s t);
         s1 = clr_status t OS_TASK_FLAG_JOINABLE s
     in ((LOS_OK, retval), free_stack (OsRecycleTaskResources t (m, s1))))"

definition LOS_TaskDetach :: "u32 \<Rightarrow> ksched \<Rightarrow> u32 option \<times> ksched" where
  "LOS_TaskDetach tid s =
     (let chk = OsCheckTaskIDValid tid s
      in if chk \<noteq> LOS_OK then (Some chk, s)
         else if intActive s then (Some LOS_ERRNO_TSK_NOT_ALLOW_IN_INT, s)
         else let t = OS_TCB_FROM_TID tid
              in if hasFlag (status s t) OS_TASK_STATUS_UNUSED then (Some LOS_ERRNO_TSK_NOT_CREATED, s)
                 else if hasFlag (status s t) OS_TASK_STATUS_EXIT then LOS_TaskJoin tid s
                 else let (ret, s1) = OsTaskSetDetachUnsafe t s in (Some ret, s1))"

definition OsRunningTaskDelete :: "u32 \<Rightarrow> tptr \<Rightarrow> ksched \<Rightarrow> ksched" where
  "OsRunningTaskDelete tid t s =
     (let s1 = mod_lst (ls_tail TaskRecycle t) s;
          r = unat (g_taskMaxNum s1);
          s2 = s1\<lparr>runTask := r\<rparr>
      in mod_task r (\<lambda>c. c\<lparr>taskID := tid, taskStatus := setFlag (status s2 t) OS_TASK_STATUS_RUNNING,
           topOfStack := topOfStack (tcb s2 t), taskName := taskName (tcb s2 t)\<rparr>) s2)"

text \<open>The part of \<open>LOS_TaskDelete\<close> after the checks: the task exits and its event is destroyed.\<close>

definition task_exit :: "tptr \<Rightarrow> taskst \<Rightarrow> taskst" where
  "task_exit t = (\<lambda>(m, s).
     let s1 = (if hasFlag (status s t) OS_TASK_STATUS_RUNNING \<and> g_losTaskLock s \<noteq> 0 then s\<lparr>g_losTaskLock := 0\<rparr> else s);
         s2 = OsSchedTaskExit t (OsTaskJoinPostUnsafe t s1);
         (v, s3) = snd (LOS_EventDestroy (Some (TaskEvent t)) (tskEvents m, s2));
         v1 = v\<lparr>uwEventID := (uwEventID v)(TaskEvent t := OS_NULL_INT)\<rparr>
     in (m\<lparr>tskEvents := v1\<rparr>, mod_task t (\<lambda>c. c\<lparr>eventMask := 0\<rparr>) s3))"

definition LOS_TaskDelete :: "u32 \<Rightarrow> taskst \<Rightarrow> u32 \<times> taskst" where
  "LOS_TaskDelete tid = (\<lambda>(m, s).
     let chk = OsCheckTaskIDValid tid s
     in if chk \<noteq> LOS_OK then (chk, (m, s))
        else let t = OS_TCB_FROM_TID tid
             in if hasFlag (status s t) OS_TASK_FLAG_SYSTEM_TASK then (LOS_ERRNO_TSK_OPERATE_SYSTEM_TASK, (m, s))
                else if hasFlag (status s t) OS_TASK_STATUS_UNUSED then (LOS_ERRNO_TSK_NOT_CREATED, (m, s))
                else if hasFlag (status s t) OS_TASK_STATUS_EXIT then (LOS_ERRNO_TSK_ALREADY_EXIT, (m, s))
                else if hasFlag (status s t) OS_TASK_FLAG_SIGNAL then (LOS_ERRNO_TSK_PROCESS_SIGNAL, (m, s))
                else let (m1, s1) = task_exit t (m, s)
                     in if hasFlag (status s1 t) OS_TASK_STATUS_RUNNING
                        then let s2 = (if \<not> hasFlag (status s1 t) OS_TASK_FLAG_JOINABLE
                                       then OsRunningTaskDelete tid t (set_status t OS_TASK_STATUS_UNUSED s1) else s1)
                             in (LOS_OK, (m1, LOS_Schedule s2))
                        else let s2 = mod_task t (\<lambda>c. c\<lparr>joinRetval := LOS_CurTaskIDGet s1\<rparr>) s1
                             in (LOS_OK, free_stack (OsRecycleTaskResources t (m1, s2))))"

text \<open>The end of a task: its function has returned \<open>result\<close>.\<close>

definition OsTaskEntry :: "u32 \<Rightarrow> u32 \<Rightarrow> taskst \<Rightarrow> u32 \<times> taskst" where
  "OsTaskEntry tid result = (\<lambda>(m, s).
     let t = OS_TCB_FROM_TID tid;
         s1 = mod_task t (\<lambda>c. c\<lparr>joinRetval := result\<rparr>) s
     in LOS_TaskDelete (taskID (tcb s1 t)) (m, s1))"

section \<open>Queries and the switch check\<close>

record TSK_INFO_S =
  acName :: "u8 list"
  uwTaskID :: u32
  usTaskStatus :: u16
  infoPrio :: u16
  pTaskSem :: "nat option"
  pTaskMux :: "nat option"
  uwSemID :: u32
  uwMuxID :: u32
  uwEvent :: u32
  uwEventMask :: u32
  infoStackSize :: u32
  uwTopOfStack :: u32
  uwBottomOfStack :: u32
  uwSP :: u32
  uwCurrUsed :: u32
  uwPeakUsed :: u32
  bOvf :: bool

text \<open>
  \<open>strncpy_s\<close> copies the name up to its end, at most 31 characters.  The information is missing when
  \<open>OsGetTaskWaterLine\<close> does not return.
\<close>

definition LOS_TaskInfoGet :: "u32 \<Rightarrow> bool \<Rightarrow> sems \<Rightarrow> muxes \<Rightarrow> taskst \<Rightarrow> u32 \<times> TSK_INFO_S option" where
  "LOS_TaskInfoGet tid wantInfo sm mx = (\<lambda>(m, s).
     if \<not> wantInfo then (LOS_ERRNO_TSK_PTR_NULL, None)
     else if tid \<ge> g_taskMaxNum s then (LOS_ERRNO_TSK_ID_INVALID, None)
     else let c = tcb s (OS_TCB_FROM_TID tid)
          in if hasFlag (taskStatus c) OS_TASK_STATUS_UNUSED then (LOS_ERRNO_TSK_NOT_CREATED, None)
             else let bottom = TRUNCATE (topOfStack c + stackSize c) OS_TASK_STACK_ADDR_ALIGN
                  in (LOS_OK, map_option (\<lambda>peak.
                       \<lparr>acName = takeWhile (\<lambda>b. b \<noteq> 0) (bytes (tskMem m) (taskName c) 31), uwTaskID = tid,
                        usTaskStatus = taskStatus c, infoPrio = priority c, pTaskSem = taskSem c, pTaskMux = taskMux c,
                        uwSemID = (case taskSem c of Some i \<Rightarrow> ucast (semID (g_allSem sm i)) | None \<Rightarrow> ucast (SEM_LIMIT sm)),
                        uwMuxID = (case taskMux c of Some i \<Rightarrow> muxID (g_allMux mx i) | None \<Rightarrow> MUX_LIMIT mx),
                        uwEvent = uwEventID (tskEvents m) (TaskEvent (OS_TCB_FROM_TID tid)), uwEventMask = eventMask c,
                        infoStackSize = stackSize c, uwTopOfStack = topOfStack c, uwBottomOfStack = bottom,
                        uwSP = stackPointer c, uwCurrUsed = bottom - stackPointer c, uwPeakUsed = peak,
                        bOvf = (peak = OS_NULL_INT)\<rparr>) (OsGetTaskWaterLine tid (m, s))))"

definition LOS_TaskStatusGet :: "u32 \<Rightarrow> bool \<Rightarrow> ksched \<Rightarrow> u32 \<times> u32 option" where
  "LOS_TaskStatusGet tid wantStatus s =
     (if \<not> wantStatus then (LOS_ERRNO_TSK_PTR_NULL, None)
      else if tid \<ge> g_taskMaxNum s then (LOS_ERRNO_TSK_ID_INVALID, None)
      else let t = OS_TCB_FROM_TID tid
           in if hasFlag (status s t) OS_TASK_STATUS_UNUSED then (LOS_ERRNO_TSK_NOT_CREATED, None)
              else (LOS_OK, Some (ucast (status s t))))"

definition LOS_TaskIsRunning :: "ksched \<Rightarrow> bool" where
  "LOS_TaskIsRunning s = g_taskScheduled s"

definition LOS_TaskNameGet :: "u32 \<Rightarrow> ksched \<Rightarrow> u32" where
  "LOS_TaskNameGet tid s =
     (if tid \<ge> g_taskMaxNum s then 0
      else let t = OS_TCB_FROM_TID tid
           in if hasFlag (status s t) OS_TASK_STATUS_UNUSED then 0 else taskName (tcb s t))"

text \<open>
  The check at a task switch, compiled in with \<open>LOSCFG_BASE_CORE_TSK_MONITOR\<close>, and the record of the
  last switches, with \<open>LOSCFG_BASE_CORE_EXC_TSK_SWITCH\<close>.  The results say whether the overflow handler
  is called for the running and for the new task.
\<close>

abbreviation (input) OS_TASK_SWITCH_INFO_COUNT :: u8 where "OS_TASK_SWITCH_INFO_COUNT \<equiv> 10"

definition record_switch :: "mem8 \<Rightarrow> LosTaskCB \<Rightarrow> TaskSwitchInfo \<Rightarrow> TaskSwitchInfo" where
  "record_switch mm c w =
     (let w1 = w\<lparr>swPid := (swPid w)(swIdx w := ucast (taskID c)),
                 swName := (swName w)(swIdx w := (bytes mm (taskName c) 32)[31 := 0])\<rparr>;
          w2 = w1\<lparr>swIdx := swIdx w1 + 1\<rparr>
      in if swIdx w2 = OS_TASK_SWITCH_INFO_COUNT then w2\<lparr>swIdx := 0, swIsFull := True\<rparr> else w2)"

definition OsTaskSwitchCheck :: "taskst \<Rightarrow> (bool \<times> bool) \<times> taskst" where
  "OsTaskSwitchCheck = (\<lambda>(m, s).
     let n = tcb s (newTask s); r = tcb s (runTask s);
         endOfStack = topOfStack n + stackSize n;
         runOvf = (load32 (tskMem m) (topOfStack r) \<noteq> OS_TASK_MAGIC_WORD);
         newOvf = (stackPointer n \<le> topOfStack n \<or> stackPointer n > endOfStack)
     in ((runOvf, newOvf), (m\<lparr>g_taskSwitchInfo := record_switch (tskMem m) n (g_taskSwitchInfo m)\<rparr>, s)))"

definition OsTaskMonInit :: "taskmod \<Rightarrow> taskmod" where
  "OsTaskMonInit m = m\<lparr>g_taskSwitchInfo := \<lparr>swIdx = 0, swMaxCnt = OS_TASK_SWITCH_INFO_COUNT, swIsFull = False,
     swPid = (\<lambda>_. 0), swName = (\<lambda>_. replicate 32 0)\<rparr>\<rparr>"

definition LOS_TaskSwitchInfoGet :: "u32 \<Rightarrow> bool \<Rightarrow> taskmod \<Rightarrow> u32 \<times> (u32 \<times> u8 list) option" where
  "LOS_TaskSwitchInfoGet index wantInfo m =
     (let curIndex = (if index \<ge> ucast OS_TASK_SWITCH_INFO_COUNT then index mod ucast OS_TASK_SWITCH_INFO_COUNT else index)
      in if \<not> wantInfo then (LOS_ERRNO_TSK_PTR_NULL, None)
         else (LOS_OK, Some (ucast (swPid (g_taskSwitchInfo m) (ucast curIndex)), swName (g_taskSwitchInfo m) (ucast curIndex))))"

end
