(* ===== verification/Task_Props.thy ===== *)
theory Task_Props
  imports Task
begin

text \<open>
  Properties of the task module: the operations that control tasks keep the scheduler invariant in every
  order, and the stack of a new task.
\<close>

section \<open>Control operations\<close>

text \<open>What the operations rely on: identifiers are indexes, and there is an idle task.\<close>

definition ids_kept :: "ksched \<Rightarrow> ksched \<Rightarrow> bool" where
  "ids_kept s s' \<longleftrightarrow> g_taskMaxNum s' = g_taskMaxNum s \<and> g_idleTaskID s' = g_idleTaskID s \<and>
     (\<forall>t. taskID (tcb s' t) = taskID (tcb s t) \<and>
       hasFlag (status s' t) OS_TASK_STATUS_UNUSED = hasFlag (status s t) OS_TASK_STATUS_UNUSED)"

definition ctl_inv :: "ksched \<Rightarrow> bool" where
  "ctl_inv s \<longleftrightarrow> sched_inv s \<and> idle_ok s \<and> (\<forall>t < unat (g_taskMaxNum s). taskID (tcb s t) = of_nat t)"

lemma ctl_invI: "ctl_inv s \<Longrightarrow> ids_kept s s' \<Longrightarrow> sched_inv s' \<Longrightarrow> ctl_inv s'"
  by (simp add: ctl_inv_def ids_kept_def idle_ok_def)

lemma ids_kept_refl [simp]: "ids_kept s s" by (simp add: ids_kept_def)

lemma ids_kept_Schedule [simp]: "ids_kept s (LOS_Schedule s') = ids_kept s s'"
  by (simp add: ids_kept_def)

lemma ids_kept_ops:
  "ids_kept s (OsSchedTaskEnQueue t s)" "ids_kept s (OsSchedTaskDeQueue t s)"
  by (simp_all add: ids_kept_def)

lemma ids_kept_trans: "ids_kept s s' \<Longrightarrow> ids_kept s' s'' \<Longrightarrow> ids_kept s s''"
  by (simp add: ids_kept_def)

lemma ids_kept_mod:
  assumes "ids_kept s s'" and "taskID (f (tcb s' t)) = taskID (tcb s' t)"
    and "hasFlag (taskStatus (f (tcb s' t))) OS_TASK_STATUS_UNUSED = hasFlag (status s' t) OS_TASK_STATUS_UNUSED"
  shows "ids_kept s (mod_task t f s')"
  using assms by (simp add: ids_kept_def)

lemma ids_kept_Suspend: "ids_kept s (OsSchedSuspend False t s)"
  by (simp add: OsSchedSuspend_def ids_kept_mod ids_kept_ops)

lemma ids_kept_Resume:
  assumes "\<not> hasFlag (status s t) OS_TASK_FLAG_FREEZE"
  shows "ids_kept s (snd (OsSchedResume t s))"
proof -
  have a: "ids_kept s (clr_status t OS_TASK_STATUS_SUSPEND s)" by (rule ids_kept_mod) simp_all
  show ?thesis
    using assms a ids_kept_trans [OF a ids_kept_ops(1)] by (simp add: OsSchedResume_def Let_def)
qed

lemma ids_kept_Modify: "ids_kept s (snd (OsSchedModifyTaskSchedParam t p s))"
proof -
  have a: "ids_kept s (mod_task t (\<lambda>c. c\<lparr>priority := p\<rparr>) s')" if "ids_kept s s'" for s'
    using that by (rule ids_kept_mod) simp_all
  show ?thesis
    using a a [OF ids_kept_ops(2)] ids_kept_trans [OF _ ids_kept_ops(1)]
    by (simp add: OsSchedModifyTaskSchedParam_def Let_def)
qed

lemma ctl_invD:
  assumes "ctl_inv s"
  shows "sched_inv s" "idle_ok s" "t < unat (g_taskMaxNum s) \<Longrightarrow> taskID (tcb s t) = of_nat t"
  using assms by (simp_all add: ctl_inv_def)

lemma not_idle:
  assumes "ctl_inv s" and "tid < g_taskMaxNum s" and "tid \<noteq> g_idleTaskID s"
  shows "\<not> is_idle s (OS_TCB_FROM_TID tid)"
  using ctl_invD(3) [OF assms(1), of "unat tid"] assms(2,3) by (simp add: OS_TCB_FROM_TID_def word_less_nat_alt)

lemma ctl_inv_Schedule [simp]: "ctl_inv (LOS_Schedule s) = ctl_inv s"
  by (simp add: ctl_inv_def idle_ok_def)

lemma LOS_TaskSuspend_ctl:
  assumes inv: "ctl_inv s"
  shows "ctl_inv (snd (LOS_TaskSuspend tid s))"
proof (cases "fst (LOS_TaskSuspend tid s) = LOS_OK")
  case False
  then show ?thesis using inv by (auto simp: LOS_TaskSuspend_def Let_def)
next
  case True
  let ?t = "OS_TCB_FROM_TID tid"
  have c: "tid \<noteq> g_idleTaskID s" "tid < g_taskMaxNum s" "\<not> hasFlag (status s ?t) OS_TASK_STATUS_UNUSED"
    using True by (auto simp: LOS_TaskSuspend_def OsCheckTaskIDValid_def Let_def errno_defs split: if_splits)
  have "ctl_inv (OsSchedSuspend False ?t s)"
    by (rule ctl_invI [OF inv ids_kept_Suspend OsSchedSuspend_inv [OF ctl_invD(1) [OF inv] not_idle [OF inv c(2,1)] c(3)]])
  then show ?thesis using True by (auto simp: LOS_TaskSuspend_def Let_def errno_defs split: if_splits)
qed

text \<open>
  \<open>LOS_TaskResume\<close> looks at the flag \<open>OS_TASK_STATUS_SUSPEND\<close> only, so the caller has to know that the task has not
  exited and is not the running one, which an interrupt can find suspended just before the switch.
\<close>

definition can_resume :: "u32 \<Rightarrow> ksched \<Rightarrow> bool" where
  "can_resume tid s \<longleftrightarrow> OS_TCB_FROM_TID tid \<noteq> runTask s \<and> \<not> hasFlag (status s (OS_TCB_FROM_TID tid)) OS_TASK_STATUS_EXIT"

lemma LOS_TaskResume_ctl:
  assumes inv: "ctl_inv s" and g: "can_resume tid s"
  shows "ctl_inv (snd (LOS_TaskResume tid s))"
proof (cases "fst (LOS_TaskResume tid s) = LOS_OK")
  case False
  then show ?thesis using inv by (auto simp: LOS_TaskResume_def Let_def split: prod.splits)
next
  case True
  let ?t = "OS_TCB_FROM_TID tid"
  have c: "hasFlag (status s ?t) OS_TASK_STATUS_SUSPEND" "\<not> hasFlag (status s ?t) OS_TASK_STATUS_UNUSED"
    using True by (auto simp: LOS_TaskResume_def Let_def errno_defs split: if_splits)
  have f: "\<not> hasFlag (status s ?t) OS_TASK_FLAG_FREEZE"
    by (rule tok_usedD(3) [OF sched_inv_task [OF ctl_invD(1) [OF inv]] c(2)])
  have "ctl_inv (snd (OsSchedResume ?t s))"
    by (rule ctl_invI [OF inv ids_kept_Resume [OF f] OsSchedResume_inv [OF ctl_invD(1) [OF inv] _ c]])
      (use g in \<open>simp_all add: can_resume_def\<close>)
  then show ?thesis using True by (auto simp: LOS_TaskResume_def Let_def errno_defs split: if_splits prod.splits)
qed

lemma LOS_TaskYield_ctl:
  assumes "ctl_inv s"
  shows "ctl_inv (snd (LOS_TaskYield s))"
proof -
  have "ids_kept s (OsSchedYield s)" by (simp add: OsSchedYield_def ids_kept_mod)
  then show ?thesis using ctl_invI [OF assms _ OsSchedYield_inv [OF ctl_invD(1) [OF assms]]] by (simp add: LOS_TaskYield_def)
qed

lemma LOS_TaskDelay_ctl:
  assumes inv: "ctl_inv s" and c: "can_block s"
  shows "ctl_inv (snd (LOS_TaskDelay tick s))"
proof -
  have "ids_kept s (OsSchedDelay (runTask s) tick s)" by (simp add: OsSchedDelay_def ids_kept_mod)
  moreover have "sched_inv (OsSchedDelay (runTask s) tick s)"
    by (rule OsSchedDelay_inv [OF ctl_invD(1) [OF inv]]) (use c in \<open>simp_all add: can_block_def\<close>)
  ultimately have "ctl_inv (OsSchedDelay (runTask s) tick s)" by (rule ctl_invI [OF inv])
  then show ?thesis using inv LOS_TaskYield_ctl [OF inv] by (simp add: LOS_TaskDelay_def)
qed

lemma LOS_Msleep_ctl: "ctl_inv s \<Longrightarrow> can_block s \<Longrightarrow> ctl_inv (LOS_Msleep ms s)"
  by (simp add: LOS_Msleep_def LOS_TaskDelay_ctl Let_def)

lemma LOS_TaskPriSet_ctl:
  assumes inv: "ctl_inv s"
  shows "ctl_inv (snd (LOS_TaskPriSet tid prio s))"
proof (cases "fst (LOS_TaskPriSet tid prio s) = LOS_OK")
  case False
  then show ?thesis using inv by (auto simp: LOS_TaskPriSet_def Let_def split: prod.splits)
next
  case True
  let ?t = "OS_TCB_FROM_TID tid"
  have c: "\<not> prio > OS_TASK_PRIORITY_LOWEST" "\<not> hasFlag (status s ?t) OS_TASK_STATUS_UNUSED"
    using True by (auto simp: LOS_TaskPriSet_def Let_def errno_defs split: if_splits)
  have "unat prio < 32" using c(1) by (simp add: not_less word_le_nat_alt)
  then have "ctl_inv (snd (OsSchedModifyTaskSchedParam ?t prio s))"
    using ctl_invI [OF inv ids_kept_Modify] OsSchedModifyTaskSchedParam_inv [OF ctl_invD(1) [OF inv] _ c(2)] by blast
  then show ?thesis using True by (auto simp: LOS_TaskPriSet_def Let_def errno_defs split: if_splits prod.splits)
qed

lemma ctl_inv_fields:
  assumes "ctl_inv s" and "sched_inv s' = sched_inv s" and "tcb s' = tcb s" and "g_taskMaxNum s' = g_taskMaxNum s"
    and "g_idleTaskID s' = g_idleTaskID s"
  shows "ctl_inv s'"
  using assms by (simp add: ctl_inv_def idle_ok_def)

lemma LOS_TaskLock_ctl:
  assumes "ctl_inv s"
  shows "ctl_inv (LOS_TaskLock s)" and "ctl_inv (LOS_TaskUnlock s)"
proof -
  have l: "ctl_inv (s\<lparr>g_losTaskLock := n\<rparr>)" for n by (rule ctl_inv_fields [OF assms]) (simp_all add: sched_inv_def)
  show "ctl_inv (LOS_TaskLock s)" "ctl_inv (LOS_TaskUnlock s)"
    using assms l by (simp_all add: LOS_TaskLock_def LOS_TaskUnlock_def Let_def)
qed

lemma time_ctl:
  assumes "ctl_inv s" and "sysCycle s \<le> now"
  shows "ctl_inv (s\<lparr>sysCycle := now\<rparr>)"
  using assms order_trans by (fastforce simp: ctl_inv_def sched_inv_def idle_ok_def)

lemma scan_ctl:
  assumes "ctl_inv s"
  shows "ctl_inv (fst (OsSchedScanTimerList s))"
proof -
  have "ids_kept s (fst (scan_timer_loop now (s, b)))" for now s b
  proof (induction "length (sl_nodes (tskSort s))" arbitrary: s b)
    case (Suc n)
    then obtain t ts where sl: "sl_nodes (tskSort s) = t # ts" by (cases "sl_nodes (tskSort s)") auto
    obtain s1 b1 where r: "OsSchedWakePendTimeTask t (mod_tskSort (OsDeleteNodeSortLink t) s, b) = (s1, b1)" by fastforce
    have "ids_kept s s1" using r by (auto simp: OsSchedWakePendTimeTask_def Let_def ids_kept_def split: if_splits)
    moreover have "tskSort s1 = OsDeleteNodeSortLink t (tskSort s)"
      using OsSchedWakePendTimeTask_tskSort [of t "mod_tskSort (OsDeleteNodeSortLink t) s" b] by (simp add: r)
    then have "n = length (sl_nodes (tskSort s1))" using Suc.hyps(2) sl by simp
    ultimately show ?case using Suc.hyps(1) [of s1 b1] ids_kept_trans sl r by auto
  qed simp
  moreover have "sched_inv (fst (OsSchedScanTimerList s))"
    using scan_timer_loop_spec [OF ctl_invD(1) [OF assms], of "sysCycle s" False] by (simp add: OsSchedScanTimerList_def Let_def)
  ultimately show ?thesis using ctl_invI [OF assms] by (simp add: OsSchedScanTimerList_def)
qed

lemma HalPendSV_max:
  assumes "HalPendSV s = Some s'"
  shows "g_taskMaxNum s' = g_taskMaxNum s"
proof -
  have u: "g_taskMaxNum (OsTimeSliceUpdate t c s) = g_taskMaxNum s" "g_taskMaxNum (OsSchedSetNextExpireTime i e s) = g_taskMaxNum s"
    for t c s i e
    by (simp_all add: OsTimeSliceUpdate_def OsSchedSetNextExpireTime_def LOS_ASSERT_def Let_def)
  obtain b s1 where r: "OsSchedTaskSwitch (s\<lparr>pendSV := False\<rparr>) = Some (b, s1)"
    using assms by (auto simp: HalPendSV_def split: option.splits prod.splits)
  have w: "g_taskMaxNum (switch_out s) = g_taskMaxNum s" for s by (simp add: switch_out_def u Let_def)
  have d: "g_taskMaxNum (OsSchedTaskDeQueue t s) = g_taskMaxNum s" for t s using ids_kept_ops(2) by (simp add: ids_kept_def)
  have "case OsSchedTaskSwitch s of None \<Rightarrow> True | Some (b, s1) \<Rightarrow> g_taskMaxNum s1 = g_taskMaxNum s" for s
    by (simp add: OsSchedTaskSwitch_eq Let_def u w d split: option.split)
  from this [of "s\<lparr>pendSV := False\<rparr>"] have "g_taskMaxNum s1 = g_taskMaxNum s" by (simp add: r)
  then show ?thesis using assms r by (auto simp: HalPendSV_def)
qed

lemma HalPendSV_ctl:
  assumes inv: "ctl_inv s" and clk: "clock_ok s"
  obtains s' where "HalPendSV s = Some s'" and "ctl_inv s'"
proof -
  obtain s' where s': "HalPendSV s = Some s'" "sched_inv s'" "\<And>u. taskID (tcb s' u) = taskID (tcb s u)" "g_idleTaskID s' = g_idleTaskID s"
    "\<And>u. hasFlag (status s' u) OS_TASK_STATUS_UNUSED = hasFlag (status s u) OS_TASK_STATUS_UNUSED"
    by (rule HalPendSV_correct [OF ctl_invD(1,2) [OF inv] clk]) blast
  have "g_taskMaxNum s' = g_taskMaxNum s" by (rule HalPendSV_max [OF s'(1)])
  then have "ids_kept s s'" using s'(3-5) by (simp add: ids_kept_def)
  then show thesis using that [OF s'(1)] ctl_invI [OF inv _ s'(2)] by blast
qed

text \<open>The calls, in any order, with the task switch, the scan of the sleeping tasks and the time in between.\<close>

inductive ctl_step :: "ksched \<Rightarrow> ksched \<Rightarrow> bool" where
  suspend: "LOS_TaskSuspend tid s = (r, s') \<Longrightarrow> ctl_step s s'"
| resume: "can_resume tid s \<Longrightarrow> LOS_TaskResume tid s = (r, s') \<Longrightarrow> ctl_step s s'"
| yield: "LOS_TaskYield s = (r, s') \<Longrightarrow> ctl_step s s'"
| delay: "can_block s \<Longrightarrow> LOS_TaskDelay tick s = (r, s') \<Longrightarrow> ctl_step s s'"
| msleep: "can_block s \<Longrightarrow> ctl_step s (LOS_Msleep ms s)"
| pri_set: "LOS_TaskPriSet tid prio s = (r, s') \<Longrightarrow> ctl_step s s'"
| cur_pri_set: "LOS_CurTaskPriSet prio s = (r, s') \<Longrightarrow> ctl_step s s'"
| lock: "ctl_step s (LOS_TaskLock s)"
| unlock: "ctl_step s (LOS_TaskUnlock s)"
| switch: "clock_ok s \<Longrightarrow> HalPendSV s = Some s' \<Longrightarrow> ctl_step s s'"
| scan: "ctl_step s (fst (OsSchedScanTimerList s))"
| time: "sysCycle s \<le> now \<Longrightarrow> ctl_step s (s\<lparr>sysCycle := now\<rparr>)"

lemma ctl_step_inv: "ctl_step s s' \<Longrightarrow> ctl_inv s \<Longrightarrow> ctl_inv s'"
proof (induction rule: ctl_step.induct)
  case (suspend tid s r s')
  then show ?case using LOS_TaskSuspend_ctl [of s tid] by simp
next
  case (resume tid s r s')
  then show ?case using LOS_TaskResume_ctl [of s tid] by simp
next
  case (yield s r s')
  then show ?case using LOS_TaskYield_ctl [of s] by simp
next
  case (delay s tick r s')
  then show ?case using LOS_TaskDelay_ctl [of s tick] by simp
next
  case (pri_set tid prio s r s')
  then show ?case using LOS_TaskPriSet_ctl [of s tid prio] by simp
next
  case (cur_pri_set prio s r s')
  then show ?case using LOS_TaskPriSet_ctl [of s "taskID (tcb s (runTask s))" prio] by (simp add: LOS_CurTaskPriSet_def)
next
  case (switch s s')
  then show ?case using HalPendSV_ctl [of s] by (metis option.inject)
qed (simp_all add: LOS_Msleep_ctl LOS_TaskLock_ctl scan_ctl time_ctl)

lemma ctl_steps_inv: "ctl_step\<^sup>*\<^sup>* s s' \<Longrightarrow> ctl_inv s \<Longrightarrow> ctl_inv s'"
  by (induction rule: rtranclp_induct) (auto intro: ctl_step_inv)


lemma demo_ctl: "ctl_inv demo_sched"
  using demo_sched_inv demo_idle_ok by (simp add: ctl_inv_def demo_tcb_def demo_cb_def)


section \<open>The stack of a new task\<close>

lemma no_wrap_next:
  assumes "no_wrap a (4 + n)"
  shows "no_wrap a 4" and "0 < n \<Longrightarrow> unat (a + 4) = unat a + 4" and "0 < n \<Longrightarrow> no_wrap (a + 4) n"
proof -
  show "no_wrap a 4" using assms by (simp add: no_wrap_def)
  assume n: "0 < n"
  show u: "unat (a + 4) = unat a + 4" using unat_off [of a "4 + n" 4] assms n by simp
  show "no_wrap (a + 4) n" using assms u by (simp add: no_wrap_def)
qed

lemma store_words_outside:
  assumes "no_wrap a (4 * length ws)" and "unat x < unat a \<or> unat a + 4 * length ws \<le> unat x"
  shows "store_words a ws m x = m x"
  using assms
proof (induction ws arbitrary: a m)
  case (Cons w ws)
  have nw: "no_wrap a (4 + 4 * length ws)" using Cons.prems(1) by simp
  have o: "store32 a w m x = m x" using Cons.prems(2) by (intro store32_outside [OF no_wrap_next(1) [OF nw]]) auto
  show ?case
  proof (cases "ws = []")
    case False
    then have p: "0 < 4 * length ws" by simp
    show ?thesis
      using Cons.IH [OF no_wrap_next(3) [OF nw p]] Cons.prems(2) no_wrap_next(2) [OF nw p] o by auto
  qed (simp add: o)
qed simp

lemma load32_outside:
  assumes "no_wrap b 4" and "\<And>x. unat b \<le> unat x \<Longrightarrow> unat x < unat b + 4 \<Longrightarrow> m' x = m x"
  shows "load32 m' b = load32 m b"
proof (rule load32_cong)
  fix k :: nat
  assume "k < 4"
  then show "m' (b + of_nat k) = m (b + of_nat k)" using assms(2) unat_off [OF assms(1)] by simp
qed

lemma store_words_nth:
  assumes "no_wrap a (4 * length ws)" and "k < length ws"
  shows "load32 (store_words a ws m) (a + 4 * of_nat k) = ws ! k"
  using assms
proof (induction ws arbitrary: a m k)
  case (Cons w ws)
  have nw: "no_wrap a (4 + 4 * length ws)" using Cons.prems(1) by simp
  show ?case
  proof (cases k)
    case 0
    have "load32 (store_words (a + 4) ws (store32 a w m)) a = load32 (store32 a w m) a"
    proof (cases "ws = []")
      case False
      then have p: "0 < 4 * length ws" by simp
      show ?thesis
        by (rule load32_outside [OF no_wrap_next(1) [OF nw]], rule store_words_outside [OF no_wrap_next(3) [OF nw p]])
          (simp add: no_wrap_next(2) [OF nw p])
    qed simp
    then show ?thesis using 0 by simp
  next
    case (Suc j)
    then have "0 < 4 * length ws" using Cons.prems(2) by auto
    from Cons.IH [OF no_wrap_next(3) [OF nw this], of j "store32 a w m"] show ?thesis
      using Suc Cons.prems(2) by (simp add: algebra_simps)
  qed
qed simp

lemma load32_memset:
  assumes "no_wrap d (unat c)" and "no_wrap b 4" and "unat d \<le> unat b" and "unat b + 4 \<le> unat d + unat c"
  shows "load32 (memset d 0xCA c m) b = OS_TASK_STACK_INIT"
proof -
  have "memset d 0xCA c m (b + of_nat k) = 0xCA" if "k < 4" for k
    using inside_iff [OF assms(1), of "b + of_nat k"] unat_off [OF assms(2) that] assms(3,4) that
    by (simp add: memset_def word_less_nat_alt)
  from this [of 0] this [of 1] this [of 2] this [of 3] show ?thesis by (simp add: load32_def)
qed

text \<open>The loop of \<open>OsGetTaskWaterLine\<close> returns at the first word that has changed.\<close>

lemma water_loop_stops:
  assumes "unat a + 4 * n < 2 ^ 32" and "j \<le> n" and "\<And>k. k < j \<Longrightarrow> load32 m (a + 4 * of_nat k) = OS_TASK_STACK_INIT"
    and "j = n \<or> load32 m (a + 4 * of_nat j) \<noteq> OS_TASK_STACK_INIT"
  shows "water_loop m (a + 4 * of_nat n) a = Some (a + 4 * of_nat j)"
  using assms
proof (induction j arbitrary: a n)
  case 0
  then show ?case by (subst water_loop.simps) auto
next
  case (Suc j)
  then obtain n' where n: "n = Suc n'" by (cases n) auto
  have nw: "no_wrap a (4 * n + 1)" using Suc.prems(1) by (simp add: no_wrap_def)
  have u: "unat (a + 4) = unat a + 4" using unat_off [OF nw, of 4] n by simp
  have e: "unat (a + 4 * of_nat n) = unat a + 4 * n" using unat_off [OF nw, of "4 * n"] by simp
  have "water_loop m (a + 4 + 4 * of_nat n') (a + 4) = Some (a + 4 + 4 * of_nat j)"
  proof (rule Suc.IH)
    show "unat (a + 4) + 4 * n' < 2 ^ 32" using Suc.prems(1) by (simp add: u n)
    show "j \<le> n'" using Suc.prems(2) by (simp add: n)
    show "load32 m (a + 4 + 4 * of_nat k) = OS_TASK_STACK_INIT" if "k < j" for k
      using Suc.prems(3) [of "Suc k"] that by (simp add: algebra_simps)
    show "j = n' \<or> load32 m (a + 4 + 4 * of_nat j) \<noteq> OS_TASK_STACK_INIT"
      using Suc.prems(4) by (simp add: algebra_simps n)
  qed
  moreover have "a < a + 4 * of_nat n" using e n by (simp add: word_less_nat_alt)
  moreover have "load32 m a = OS_TASK_STACK_INIT" using Suc.prems(3) [of 0] by simp
  ultimately show ?case by (subst water_loop.simps) (simp add: n algebra_simps)
qed

definition stack_image :: "u32 \<Rightarrow> u32 \<Rightarrow> u32 list \<Rightarrow> mem8 \<Rightarrow> mem8" where
  "stack_image tp sz ws m =
     store_words (tp + sz - 4 * of_nat (length ws)) ws (store32 tp OS_TASK_MAGIC_WORD (memset tp 0xCA sz m))"

lemma stack_image_words:
  assumes nw: "no_wrap tp (unat sz)" and al: "4 dvd unat sz" and fit: "4 * length ws + 4 \<le> unat sz" and ne: "ws \<noteq> []"
  defines "sp \<equiv> tp + sz - 4 * of_nat (length ws)"
  shows "load32 (stack_image tp sz ws m) tp = OS_TASK_MAGIC_WORD"
    and "water_loop (stack_image tp sz ws m) sp (tp + 4) = Some sp"
    and "k < length ws \<Longrightarrow> load32 (stack_image tp sz ws m) (sp + 4 * of_nat k) = ws ! k"
    and "unat x < unat tp \<or> unat tp + unat sz \<le> unat x \<Longrightarrow> stack_image tp sz ws m x = m x"
    and "unat (sp - tp) = unat sz - 4 * length ws"
proof -
  let ?l = "length ws" and ?off = "unat sz - 4 * length ws"
  obtain n where n: "unat sz = 4 * n" using al by (auto simp: dvd_def)
  have l: "0 < ?l" using ne by simp
  have "(of_nat (unat sz) :: u32) = of_nat (?off + 4 * ?l)" using fit by simp
  then have szs: "sz = of_nat ?off + 4 * of_nat ?l" by simp
  have sp: "sp = tp + of_nat ?off" unfolding sp_def by (subst szs) simp
  have ul: "?off < unat sz" using fit l by simp
  have usp: "unat sp = unat tp + ?off" unfolding sp by (rule unat_off [OF nw ul])
  have wsp: "no_wrap sp (4 * ?l)" using nw usp fit by (simp add: no_wrap_def)
  have w4: "no_wrap tp 4" using nw fit by (simp add: no_wrap_def)
  have low: "load32 (stack_image tp sz ws m) b = load32 (store32 tp OS_TASK_MAGIC_WORD (memset tp 0xCA sz m)) b"
    if "no_wrap b 4" "unat b + 4 \<le> unat sp" for b
    unfolding stack_image_def sp_def [symmetric]
    by (rule load32_outside [OF that(1)], rule store_words_outside [OF wsp]) (use that in simp)
  show "load32 (stack_image tp sz ws m) tp = OS_TASK_MAGIC_WORD"
    using low [OF w4] usp fit by simp
  show "k < length ws \<Longrightarrow> load32 (stack_image tp sz ws m) (sp + 4 * of_nat k) = ws ! k"
    unfolding stack_image_def sp_def [symmetric] by (rule store_words_nth [OF wsp])
  show "stack_image tp sz ws m x = m x" if "unat x < unat tp \<or> unat tp + unat sz \<le> unat x"
  proof -
    have "memset tp 0xCA sz m x = m x" by (rule memset_outside [OF nw that])
    moreover have "store32 tp OS_TASK_MAGIC_WORD (memset tp 0xCA sz m) x = memset tp 0xCA sz m x"
      by (rule store32_outside [OF w4]) (use that fit in auto)
    moreover have "stack_image tp sz ws m x = store32 tp OS_TASK_MAGIC_WORD (memset tp 0xCA sz m) x"
      unfolding stack_image_def sp_def [symmetric] by (rule store_words_outside [OF wsp]) (use that usp fit in auto)
    ultimately show ?thesis by simp
  qed
  show "unat (sp - tp) = ?off" using unat_off [of 0 "unat sz" ?off] ul unsigned_less [of sz, where 'a = nat]
    by (simp add: sp no_wrap_def)
  have off: "?off = 4 + 4 * (n - ?l - 1)" using n fit by simp
  then have spn: "sp = (tp + 4) + 4 * of_nat (n - ?l - 1)" by (simp add: sp)
  have u4: "unat (tp + 4) = unat tp + 4" using unat_off [OF nw, of 4] fit l by simp
  have "water_loop (stack_image tp sz ws m) (tp + 4 + 4 * of_nat (n - ?l - 1)) (tp + 4) = Some (tp + 4 + 4 * of_nat (n - ?l - 1))"
  proof (rule water_loop_stops)
    show "unat (tp + 4) + 4 * (n - ?l - 1) < 2 ^ 32" using u4 off nw ul by (simp add: no_wrap_def)
    fix k
    assume k: "k < n - ?l - 1"
    let ?b = "tp + 4 + 4 * of_nat k"
    have lt: "4 + 4 * k < unat sz" using k n by simp
    have ub: "unat ?b = unat tp + 4 + 4 * k" using unat_off [OF nw lt] by (simp add: add.assoc)
    have wb: "no_wrap ?b 4" using nw k n by (simp add: no_wrap_def ub)
    have "unat ?b + 4 \<le> unat sp" using k usp off by (simp add: ub)
    from low [OF wb this] have "load32 (stack_image tp sz ws m) ?b = load32 (memset tp 0xCA sz m) ?b"
      by (simp only:) (rule load32_outside [OF wb], rule store32_outside [OF w4], simp add: ub)
    also have "\<dots> = OS_TASK_STACK_INIT" by (rule load32_memset [OF nw wb]) (use ub k n in simp_all)
    finally show "load32 (stack_image tp sz ws m) ?b = OS_TASK_STACK_INIT" .
  qed simp_all
  then show "water_loop (stack_image tp sz ws m) sp (tp + 4) = Some sp" by (simp only: spn)
qed

lemma LOS_Align_dvd: "4 dvd unat (LOS_Align x 8)"
proof -
  have "take_bit 2 (LOS_Align x 8) = 0"
    by (rule bit_word_eqI) (auto simp: LOS_Align_def bit_simps)
  then have "take_bit 2 (unat (LOS_Align x 8)) = 0" by (metis unsigned_0 unsigned_take_bit_eq)
  then show ?thesis by (simp add: take_bit_eq_mod dvd_eq_mod_eq_0)
qed

text \<open>The block and the state that creation leaves.\<close>

lemma OsNewTaskInit_eq:
  fixes m :: taskmod
  assumes e: "ls_nodes (lst s) (EvtList (TaskEvent t)) = []" "ls_nodes (lst s) (JoinList t) = []"
    and p: "stackAddr p = 0" "mem \<noteq> 0"
  defines "sz \<equiv> LOS_Align (uwStackSize p) 8"
    and "ws \<equiv> task_context (fpuUsed m) (taskID (tcb s t)) (ArchSysExitAddr m) (OsTaskEntryAddr m)"
  shows "case OsNewTaskInit t p mem (m, s) of (r, (m', s')) \<Rightarrow> r = LOS_OK \<and> tskMem m' = stack_image mem sz ws (tskMem m) \<and>
    s' = s\<lparr>tcb := (tcb s)(t := tcb s' t), tskSort := SET_SORTLIST_VALUE t OS_SORT_LINK_INVALID_TIME (tskSort s)\<rparr> \<and>
    (let c = tcb s' t in taskID c = taskID (tcb s t) \<and> startTime c = startTime (tcb s t) \<and> priority c = usTaskPrio p \<and> arg c = uwArg p \<and>
      taskEntry c = pfnTaskEntry p \<and> topOfStack c = mem \<and> stackSize c = sz \<and> stackPointer c = mem + sz - 4 * of_nat (length ws) \<and>
      (\<forall>n. hasFlag (taskStatus c) (flagBit n) \<longleftrightarrow> n \<in> {1, 11} \<or> n = 15 \<and> hasFlag (uwResved p) LOS_TASK_ATTR_JOINABLE))"
proof -
  have i: "ls_init h (lst s) = lst s" if "ls_nodes (lst s) h = []" for h
    using that by (simp add: ls_init_def fun_upd_idem)
  show ?thesis
    using p i [OF e(1)] i [OF e(2)]
    by (cases "hasFlag (uwResved p) LOS_TASK_ATTR_JOINABLE")
      (auto simp: OsNewTaskInit_def LOS_EventInit_def ArchTskStackInit_def stack_image_def sz_def ws_def Let_def mod_task_def)
qed

lemma fresh_task_inv:
  assumes inv: "sched_inv s" and t: "t \<in> set (ls_nodes (lst s) FreeTask)" "t \<noteq> runTask s"
    and c: "taskID c \<noteq> g_idleTaskID s" "startTime c \<le> sysCycle s" "unat (priority c) < 32"
      "\<And>n. hasFlag (taskStatus c) (flagBit n) \<Longrightarrow> n \<in> {1, 11, 15}"
    and s': "s' = s\<lparr>lst := ls_del t (lst s), tcb := (tcb s)(t := c), tskSort := SET_SORTLIST_VALUE t OS_SORT_LINK_INVALID_TIME (tskSort s)\<rparr>"
  shows "sched_inv s'"
proof -
  have wf: "ls_wf (lst s)" and sl: "sl_wf (tskSort s)" using inv by (simp_all add: sched_inv_def)
  have l: "ls_loc (lst s) t = Some FreeTask" using t(1) by (simp add: ls_wf_loc [OF wf])
  note ok = sched_inv_task [OF inv, of t]
  have un: "hasFlag (status s t) OS_TASK_STATUS_UNUSED" using ok l by (simp add: tok_def)
  have out: "t \<notin> set (sl_nodes (tskSort s))" using ok un t(2) by (auto simp: tok_def)
  have nf: "\<not> hasFlag (taskStatus c) (flagBit n)" if "n \<notin> {1, 11, 15}" for n using c(4) that by blast
  have "task_ok s' u" for u
  proof (cases "u = t")
    case True
    have "\<not> hasFlag (taskStatus c) (flagBit 0)" "\<not> hasFlag (taskStatus c) (flagBit 2)" "\<not> hasFlag (taskStatus c) (flagBit 3)"
      "\<not> hasFlag (taskStatus c) (flagBit 4)" "\<not> hasFlag (taskStatus c) (flagBit 5)" "\<not> hasFlag (taskStatus c) (flagBit 6)"
      "\<not> hasFlag (taskStatus c) (flagBit 7)" "\<not> hasFlag (taskStatus c) (flagBit 8)" "\<not> hasFlag (taskStatus c) (flagBit 14)"
      by (rule nf, simp add: One_nat_def)+
    then show ?thesis
      using True t(2) out c(1,3) l by (simp add: s' tok_def ls_del_def SET_SORTLIST_VALUE_def)
  next
    case False
    then show ?thesis using sched_inv_task [OF inv, of u] l by (simp add: s' ls_del_def SET_SORTLIST_VALUE_def)
  qed
  moreover have "ls_wf (lst s')" using ls_wf_del [OF wf] l by (simp add: s')
  moreover have "sl_wf (tskSort s')" using sl_wf_set_value [OF sl out] by (simp add: s')
  moreover have "bitmap_ok (g_queueBitmap s') (ls_nodes (lst s'))" using inv l by (simp add: s' sched_inv_def bitmap_ok_def ls_del_def)
  ultimately show ?thesis using inv c(2) by (simp add: sched_inv_def s')
qed


definition demo_taskmod :: taskmod where
  "demo_taskmod = \<lparr>tskEvents = \<lparr>uwEventID = (\<lambda>_. 0), evInited = (\<lambda>_. False)\<rparr>, tskMem = (\<lambda>_. 0), memFreed = [], PmEnter = 0,
     OsTaskEntryAddr = 0x8100, ArchSysExitAddr = 0x8200, OsIdleTaskAddr = 0x8300, fpuUsed = False,
     g_taskSwitchInfo = \<lparr>swIdx = 0, swMaxCnt = 10, swIsFull = False, swPid = (\<lambda>_. 0), swName = (\<lambda>_. [])\<rparr>\<rparr>"

definition demo_param :: TSK_INIT_PARAM_S where
  "demo_param = \<lparr>pfnTaskEntry = 0x9000, usTaskPrio = 12, uwArg = 3, stackAddr = 0, uwStackSize = 0x400, pcName = 0x9100, uwResved = 0\<rparr>"


end
