(* ===== verification/Membox.thy ===== *)
theory Membox
  imports Prelude
begin

text \<open>
  Fixed-size block pools, \<open>src/kernel/src/mm/los_membox.c\<close>.  A pool is a header
  (\<open>LOS_MEMBOX_INFO\<close>) followed by blocks; the first word of a block is the link of the free list
  while the block is free, and a magic number with the identifier of the allocating task while it
  is in use.  Addresses are 32-bit words, \<open>NULL\<close> is zero; \<open>nodeNext a\<close> is the word
  \<open>((LOS_MEMBOX_NODE *)a)->pstNext\<close>.  \<open>LOSCFG_PLATFORM_EXC\<close> is off, as in the default configuration.
\<close>

section \<open>Data\<close>

record membox =
  uwBlkSize :: u32
  uwBlkNum :: u32
  uwBlkCnt :: u32
  stFreeList :: u32
  nodeNext :: "u32 \<Rightarrow> u32"

definition OS_MEMBOX_MAGIC :: u32 where
  "OS_MEMBOX_MAGIC = 0xa55a5a00"

definition OS_MEMBOX_NODE_HEAD_SIZE :: u32 where
  "OS_MEMBOX_NODE_HEAD_SIZE = 4"

text \<open>\<open>sizeof(LOS_MEMBOX_INFO)\<close>\<close>

definition MEMBOX_INFO_SIZE :: u32 where
  "MEMBOX_INFO_SIZE = 16"

definition LOS_MEMBOX_ALIGNED :: "u32 \<Rightarrow> u32" where
  "LOS_MEMBOX_ALIGNED memAddr = (memAddr + 4 - 1) AND NOT (4 - 1)"

definition OS_MEMBOX_USER_ADDR :: "u32 \<Rightarrow> u32" where
  "OS_MEMBOX_USER_ADDR addr = addr + OS_MEMBOX_NODE_HEAD_SIZE"

definition OS_MEMBOX_NODE_ADDR :: "u32 \<Rightarrow> u32" where
  "OS_MEMBOX_NODE_ADDR addr = addr - OS_MEMBOX_NODE_HEAD_SIZE"

section \<open>Operations\<close>

definition OsMemBoxSetMagic :: "u32 \<Rightarrow> u32 \<Rightarrow> membox \<Rightarrow> membox" where
  "OsMemBoxSetMagic curTaskID node m =
     (let tid = (ucast curTaskID :: u8)
      in m\<lparr>nodeNext := (nodeNext m)(node := OS_MEMBOX_MAGIC OR ucast tid)\<rparr>)"

definition OsMemBoxCheckMagic :: "u32 \<Rightarrow> u32 \<Rightarrow> membox \<Rightarrow> u32" where
  "OsMemBoxCheckMagic tskLimit node m =
     (let tid = nodeNext m node AND 0xFF
      in if tid > tskLimit + 1 then LOS_NOK
         else if nodeNext m node = OS_MEMBOX_MAGIC OR tid then LOS_OK else LOS_NOK)"

definition OsCheckBoxMem :: "u32 \<Rightarrow> u32 \<Rightarrow> u32 \<Rightarrow> membox \<Rightarrow> u32" where
  "OsCheckBoxMem tskLimit pool node m =
     (if uwBlkSize m = 0 then LOS_NOK
      else let offset = node - (pool + MEMBOX_INFO_SIZE)
           in if offset mod uwBlkSize m \<noteq> 0 then LOS_NOK
              else if offset div uwBlkSize m \<ge> uwBlkNum m then LOS_NOK
              else OsMemBoxCheckMagic tskLimit node m)"

text \<open>The loop that chains the blocks, \<open>n\<close> times, and the final \<open>NULL\<close>.\<close>

fun membox_link :: "nat \<Rightarrow> u32 \<Rightarrow> membox \<Rightarrow> membox" where
  "membox_link 0 node m = m\<lparr>nodeNext := (nodeNext m)(node := 0)\<rparr>"
| "membox_link (Suc n) node m =
     membox_link n (node + uwBlkSize m) (m\<lparr>nodeNext := (nodeNext m)(node := node + uwBlkSize m)\<rparr>)"

text \<open>\<open>None\<close> stands for the division by zero when the aligned block size is zero.\<close>

definition LOS_MemboxInit :: "u32 \<Rightarrow> u32 \<Rightarrow> u32 \<Rightarrow> membox \<Rightarrow> (u32 \<times> membox) option" where
  "LOS_MemboxInit pool poolSize blkSize m =
     (if pool = 0 then Some (LOS_NOK, m)
      else if blkSize = 0 then Some (LOS_NOK, m)
      else if poolSize < MEMBOX_INFO_SIZE then Some (LOS_NOK, m)
      else let m1 = m\<lparr>uwBlkSize := LOS_MEMBOX_ALIGNED (blkSize + OS_MEMBOX_NODE_HEAD_SIZE)\<rparr>
           in if uwBlkSize m1 = 0 then None
              else let m2 = m1\<lparr>uwBlkNum := (poolSize - MEMBOX_INFO_SIZE) div uwBlkSize m1, uwBlkCnt := 0\<rparr>
                   in if uwBlkNum m2 = 0 then Some (LOS_NOK, m2)
                      else let node = pool + MEMBOX_INFO_SIZE; m3 = m2\<lparr>stFreeList := node\<rparr>
                           in Some (LOS_OK, membox_link (unat (uwBlkNum m3 - 1)) node m3))"

text \<open>\<open>curTaskID\<close> is what \<open>LOS_CurTaskIDGet\<close> returns; the result is the address of the block, or \<open>NULL\<close>.\<close>

definition LOS_MemboxAlloc :: "u32 \<Rightarrow> u32 \<Rightarrow> membox \<Rightarrow> u32 \<times> membox" where
  "LOS_MemboxAlloc curTaskID pool m =
     (if pool = 0 then (0, m)
      else if stFreeList m \<noteq> 0
           then let nodeTmp = stFreeList m;
                    m1 = m\<lparr>stFreeList := nodeNext m nodeTmp\<rparr>;
                    m2 = OsMemBoxSetMagic curTaskID nodeTmp m1
                in (OS_MEMBOX_USER_ADDR nodeTmp, m2\<lparr>uwBlkCnt := uwBlkCnt m2 + 1\<rparr>)
           else (0, m))"

definition LOS_MemboxFree :: "u32 \<Rightarrow> u32 \<Rightarrow> u32 \<Rightarrow> membox \<Rightarrow> u32 \<times> membox" where
  "LOS_MemboxFree tskLimit pool box m =
     (if pool = 0 \<or> box = 0 then (LOS_NOK, m)
      else let node = OS_MEMBOX_NODE_ADDR box
           in if OsCheckBoxMem tskLimit pool node m \<noteq> LOS_OK then (LOS_NOK, m)
              else (LOS_OK, m\<lparr>nodeNext := (nodeNext m)(node := stFreeList m), stFreeList := node,
                              uwBlkCnt := uwBlkCnt m - 1\<rparr>))"

text \<open>\<open>LOS_MemboxClr\<close> on the bytes of the memory: the user part of the block is zeroed.\<close>

definition LOS_MemboxClr :: "u32 \<Rightarrow> u32 \<Rightarrow> membox \<Rightarrow> (u32 \<Rightarrow> u8) \<Rightarrow> u32 \<Rightarrow> u8" where
  "LOS_MemboxClr pool box m bytes =
     (if pool = 0 \<or> box = 0 then bytes
      else (\<lambda>a. if a - box < uwBlkSize m - OS_MEMBOX_NODE_HEAD_SIZE then 0 else bytes a))"

text \<open>The three pointers of the caller and the pool are not \<open>NULL\<close>; the results are \<open>maxBlk\<close>, \<open>blkCnt\<close>, \<open>blkSize\<close>.\<close>

definition LOS_MemboxStatisticsGet :: "bool \<Rightarrow> membox \<Rightarrow> u32 \<times> (u32 \<times> u32 \<times> u32) option" where
  "LOS_MemboxStatisticsGet notNull m =
     (if \<not> notNull then (LOS_NOK, None) else (LOS_OK, Some (uwBlkNum m, uwBlkCnt m, uwBlkSize m)))"

section \<open>Invariant\<close>

text \<open>Block \<open>i\<close> of the pool, and the blocks a chain of links visits.\<close>

definition blk :: "u32 \<Rightarrow> membox \<Rightarrow> nat \<Rightarrow> u32" where
  "blk pool m i = pool + MEMBOX_INFO_SIZE + of_nat i * uwBlkSize m"

fun chain :: "(u32 \<Rightarrow> u32) \<Rightarrow> u32 \<Rightarrow> u32 list \<Rightarrow> bool" where
  "chain nx a [] \<longleftrightarrow> a = 0"
| "chain nx a (x # xs) \<longleftrightarrow> a = x \<and> a \<noteq> 0 \<and> chain nx (nx a) xs"

text \<open>
  The geometry of a pool: it does not wrap around the address space, its blocks are aligned and at
  least as large as their header, and its address range avoids the values that look like a magic number.
\<close>

definition mb_geom :: "u32 \<Rightarrow> membox \<Rightarrow> bool" where
  "mb_geom pool m \<longleftrightarrow> pool \<noteq> 0 \<and> uwBlkNum m > 0 \<and> uwBlkSize m \<ge> 4 \<and>
     unat pool + 16 + unat (uwBlkNum m) * unat (uwBlkSize m) < 2 ^ 32 \<and>
     (\<forall>i < unat (uwBlkNum m). blk pool m i AND NOT 0xFF \<noteq> OS_MEMBOX_MAGIC)"

definition is_magic :: "u32 \<Rightarrow> u32 \<Rightarrow> bool" where
  "is_magic tskLimit w \<longleftrightarrow> (\<exists>tid. w = OS_MEMBOX_MAGIC OR tid \<and> tid AND 0xFF = tid \<and> tid \<le> tskLimit + 1)"

text \<open>\<open>F\<close> are the indexes of the free blocks, in the order of the free list.\<close>

definition mb_inv :: "u32 \<Rightarrow> u32 \<Rightarrow> membox \<Rightarrow> nat list \<Rightarrow> bool" where
  "mb_inv tskLimit pool m F \<longleftrightarrow> mb_geom pool m \<and> distinct F \<and> set F \<subseteq> {..<unat (uwBlkNum m)} \<and>
     chain (nodeNext m) (stFreeList m) (map (blk pool m) F) \<and>
     (\<forall>i < unat (uwBlkNum m). i \<notin> set F \<longrightarrow> is_magic tskLimit (nodeNext m (blk pool m i))) \<and>
     unat (uwBlkCnt m) + length F = unat (uwBlkNum m)"

lemma magic_high: "tid AND 0xFF = tid \<Longrightarrow> (OS_MEMBOX_MAGIC OR tid) AND NOT 0xFF = OS_MEMBOX_MAGIC"
  "tid AND 0xFF = tid \<Longrightarrow> (OS_MEMBOX_MAGIC OR tid) AND 0xFF = tid"
proof -
  assume t: "tid AND 0xFF = tid"
  have "(OS_MEMBOX_MAGIC OR tid) AND 0xFF = (OS_MEMBOX_MAGIC AND 0xFF) OR (tid AND 0xFF)"
    by (rule word_ao_dist)
  also have "OS_MEMBOX_MAGIC AND 0xFF = 0" by (simp add: OS_MEMBOX_MAGIC_def)
  finally show "(OS_MEMBOX_MAGIC OR tid) AND 0xFF = tid" using t by simp
  have "tid AND NOT 0xFF = 0"
    using t by (metis and.assoc and.right_neutral bit.conj_cancel_right bit.conj_zero_right)
  moreover have "OS_MEMBOX_MAGIC AND NOT 0xFF = OS_MEMBOX_MAGIC" by (simp add: OS_MEMBOX_MAGIC_def)
  ultimately show "(OS_MEMBOX_MAGIC OR tid) AND NOT 0xFF = OS_MEMBOX_MAGIC" by (simp add: word_ao_dist)
qed

lemma check_magic_iff: "OsMemBoxCheckMagic tskLimit node m = LOS_OK \<longleftrightarrow> is_magic tskLimit (nodeNext m node)"
proof
  assume "OsMemBoxCheckMagic tskLimit node m = LOS_OK"
  then show "is_magic tskLimit (nodeNext m node)"
    unfolding is_magic_def
    by (intro exI [of _ "nodeNext m node AND 0xFF"])
      (auto simp: OsMemBoxCheckMagic_def Let_def not_less and.assoc split: if_splits)
next
  assume "is_magic tskLimit (nodeNext m node)"
  then obtain tid where "nodeNext m node = OS_MEMBOX_MAGIC OR tid" "tid AND 0xFF = tid" "tid \<le> tskLimit + 1"
    by (auto simp: is_magic_def)
  then show "OsMemBoxCheckMagic tskLimit node m = LOS_OK"
    by (simp add: OsMemBoxCheckMagic_def Let_def magic_high not_less)
qed

lemma is_magic_high: "is_magic l w \<Longrightarrow> w AND NOT 0xFF = OS_MEMBOX_MAGIC"
  using magic_high(1) by (auto simp: is_magic_def)

text \<open>Blocks do not wrap around and are pairwise distinct.\<close>

lemma blk_unat:
  assumes "mb_geom pool m" and "i < unat (uwBlkNum m)"
  shows "unat (blk pool m i) = unat pool + 16 + i * unat (uwBlkSize m)"
proof -
  have le: "(i + 1) * unat (uwBlkSize m) \<le> unat (uwBlkNum m) * unat (uwBlkSize m)"
    using assms(2) by (intro mult_le_mono1) simp
  then have lt: "unat pool + 16 + i * unat (uwBlkSize m) < 2 ^ 32"
    using assms(1) by (simp add: mb_geom_def)
  have "blk pool m i = of_nat (unat pool + 16 + i * unat (uwBlkSize m))"
    by (simp add: blk_def MEMBOX_INFO_SIZE_def)
  then have "unat (blk pool m i) = take_bit LENGTH(32) (unat pool + 16 + i * unat (uwBlkSize m))"
    by (simp only: unsigned_of_nat of_nat_id)
  also have "\<dots> = unat pool + 16 + i * unat (uwBlkSize m)"
    using lt by (intro take_bit_nat_eq_self) simp
  finally show ?thesis .
qed

lemma blk_inj:
  assumes "mb_geom pool m" and "i < unat (uwBlkNum m)" and "j < unat (uwBlkNum m)" and "blk pool m i = blk pool m j"
  shows "i = j"
proof -
  have "4 \<le> uwBlkSize m" using assms(1) by (simp add: mb_geom_def)
  then have nz: "unat (uwBlkSize m) \<noteq> 0" by (auto simp: word_le_nat_alt)
  have "i * unat (uwBlkSize m) = j * unat (uwBlkSize m)"
    using blk_unat [OF assms(1,2)] blk_unat [OF assms(1,3)] unfolding assms(4) by linarith
  then show ?thesis using nz by (metis mult_right_cancel)
qed

lemma blk_nonzero: "mb_geom pool m \<Longrightarrow> i < unat (uwBlkNum m) \<Longrightarrow> blk pool m i \<noteq> 0"
  using blk_unat [of pool m i] by (auto simp: unat_eq_zero [symmetric] simp del: unat_eq_zero)

text \<open>What \<open>OsCheckBoxMem\<close> accepts: the address of a block that carries the magic number.\<close>

lemma OsCheckBoxMem_iff:
  assumes g: "mb_geom pool m"
  shows "OsCheckBoxMem tskLimit pool node m = LOS_OK \<longleftrightarrow>
    (\<exists>i < unat (uwBlkNum m). node = blk pool m i \<and> is_magic tskLimit (nodeNext m node))"
proof
  let ?S = "uwBlkSize m" and ?off = "node - (pool + MEMBOX_INFO_SIZE)"
  assume "OsCheckBoxMem tskLimit pool node m = LOS_OK"
  then have c: "?off mod ?S = 0" "?off div ?S < uwBlkNum m" "OsMemBoxCheckMagic tskLimit node m = LOS_OK"
    by (auto simp: OsCheckBoxMem_def Let_def not_le split: if_splits)
  have "?off = (?off div ?S) * ?S" using c(1) by (metis add.right_neutral div_mult_mod_eq)
  then have "?off = of_nat (unat (?off div ?S)) * ?S" by simp
  then have "node = blk pool m (unat (?off div ?S))" by (simp add: blk_def algebra_simps)
  moreover have "unat (?off div ?S) < unat (uwBlkNum m)" using c(2) by (simp add: word_less_nat_alt)
  ultimately show "\<exists>i < unat (uwBlkNum m). node = blk pool m i \<and> is_magic tskLimit (nodeNext m node)"
    using c(3) check_magic_iff by blast
next
  let ?S = "uwBlkSize m"
  assume "\<exists>i < unat (uwBlkNum m). node = blk pool m i \<and> is_magic tskLimit (nodeNext m node)"
  then obtain i where i: "i < unat (uwBlkNum m)" "node = blk pool m i" "is_magic tskLimit (nodeNext m node)" by blast
  have S: "4 \<le> ?S" and fit: "unat pool + 16 + unat (uwBlkNum m) * unat ?S < 2 ^ 32"
    using g by (simp_all add: mb_geom_def)
  then have S0: "?S \<noteq> 0" "unat ?S \<noteq> 0" by (auto simp: word_le_nat_alt)
  have lt: "i * unat ?S < unat (uwBlkNum m) * unat ?S" using i(1) S0 by simp
  have lt32: "i * unat ?S < 2 ^ 32" using lt fit by linarith
  have off: "node - (pool + MEMBOX_INFO_SIZE) = of_nat (i * unat ?S)" using i(2) by (simp add: blk_def)
  have u: "unat (of_nat (i * unat ?S) :: u32) = i * unat ?S"
    using lt32 by (simp only: unsigned_of_nat of_nat_id) (simp add: take_bit_nat_eq_self_iff)
  have md: "(of_nat (i * unat ?S) :: u32) mod ?S = 0"
    using u by (simp add: word_arith_nat_mod)
  have "unat ((of_nat (i * unat ?S) :: u32) div ?S) = i"
    using u S0(2) by (simp only: unat_div_distrib) simp
  then have dv: "\<not> uwBlkNum m \<le> (of_nat (i * unat ?S) :: u32) div ?S"
    using i(1) by (simp only: word_le_nat_alt not_le)
  show "OsCheckBoxMem tskLimit pool node m = LOS_OK"
    unfolding OsCheckBoxMem_def Let_def off using S0(1) md dv i(3) check_magic_iff by simp
qed

text \<open>A change of a link outside a chain does not affect it.\<close>

lemma chain_upd: "a \<notin> set xs \<Longrightarrow> chain (nx(a := v)) b xs \<longleftrightarrow> chain nx b xs"
  by (induction xs arbitrary: b) auto

text \<open>The chain built by the initialisation.\<close>

lemma membox_link_frame [simp]:
  "uwBlkSize (membox_link n a m) = uwBlkSize m" "uwBlkNum (membox_link n a m) = uwBlkNum m"
  "uwBlkCnt (membox_link n a m) = uwBlkCnt m" "stFreeList (membox_link n a m) = stFreeList m"
  by (induction n arbitrary: a m) simp_all

lemma membox_link_other: "a \<notin> (\<lambda>k. b + of_nat k * uwBlkSize m) ` {..n} \<Longrightarrow> nodeNext (membox_link n b m) a = nodeNext m a"
proof (induction n arbitrary: b m)
  case 0
  then show ?case by auto
next
  case (Suc n)
  let ?m = "m\<lparr>nodeNext := (nodeNext m)(b := b + uwBlkSize m)\<rparr>"
  have ab: "a \<noteq> b" using Suc.prems by (force simp: image_iff)
  have "a \<notin> (\<lambda>k. (b + uwBlkSize m) + of_nat k * uwBlkSize ?m) ` {..n}"
  proof
    assume "a \<in> (\<lambda>k. (b + uwBlkSize m) + of_nat k * uwBlkSize ?m) ` {..n}"
    then obtain k where "k \<le> n" "a = b + of_nat (Suc k) * uwBlkSize m" by (auto simp: algebra_simps)
    then show False using Suc.prems by (metis (no_types, lifting) Suc_le_mono atMost_iff image_eqI)
  qed
  then show ?case using Suc.IH [of "b + uwBlkSize m" ?m] ab by simp
qed

lemma blk_cong [simp]: "blk pool (m\<lparr>nodeNext := x\<rparr>) = blk pool m" "blk pool (m\<lparr>stFreeList := y\<rparr>) = blk pool m"
  "blk pool (m\<lparr>uwBlkCnt := y\<rparr>) = blk pool m" "blk pool (membox_link n a m) = blk pool m"
  by (simp_all add: blk_def fun_eq_iff)

lemma mb_geom_cong [simp]: "mb_geom pool (m\<lparr>nodeNext := x\<rparr>) = mb_geom pool m"
  "mb_geom pool (m\<lparr>stFreeList := y\<rparr>) = mb_geom pool m" "mb_geom pool (m\<lparr>uwBlkCnt := y\<rparr>) = mb_geom pool m"
  "mb_geom pool (membox_link n a m) = mb_geom pool m"
  by (simp_all add: mb_geom_def)

lemma blk_Suc: "blk pool m i + uwBlkSize m = blk pool m (Suc i)"
  by (simp add: blk_def algebra_simps)

lemma blk_add: "blk pool m i + of_nat k * uwBlkSize m = blk pool m (i + k)"
  by (simp add: blk_def algebra_simps)

lemma membox_link_chain:
  "mb_geom pool m \<Longrightarrow> k + n < unat (uwBlkNum m) \<Longrightarrow>
   chain (nodeNext (membox_link n (blk pool m k) m)) (blk pool m k) (map (blk pool m) [k..<Suc (k + n)])"
proof (induction n arbitrary: k m)
  case 0
  then show ?case using blk_nonzero [of pool m k] by simp
next
  case (Suc n)
  let ?m = "m\<lparr>nodeNext := (nodeNext m)(blk pool m k := blk pool m (Suc k))\<rparr>"
  let ?r = "membox_link n (blk pool m (Suc k)) ?m"
  have ih: "chain (nodeNext ?r) (blk pool m (Suc k)) (map (blk pool m) [Suc k..<Suc (Suc k + n)])"
    using Suc.IH [of ?m "Suc k"] Suc.prems by simp
  have "blk pool m k \<notin> (\<lambda>j. blk pool m (Suc k) + of_nat j * uwBlkSize ?m) ` {..n}"
  proof
    assume "blk pool m k \<in> (\<lambda>j. blk pool m (Suc k) + of_nat j * uwBlkSize ?m) ` {..n}"
    then obtain j where "j \<le> n" "blk pool m k = blk pool m (Suc k + j)" by (auto simp: blk_add)
    then show False using blk_inj [OF Suc.prems(1), of k "Suc k + j"] Suc.prems(2) by simp
  qed
  then have "nodeNext ?r (blk pool m k) = blk pool m (Suc k)"
    using membox_link_other [of "blk pool m k" "blk pool m (Suc k)" ?m n] by simp
  moreover have "[k..<Suc (k + Suc n)] = k # [Suc k..<Suc (Suc k + n)]" by (simp add: upt_conv_Cons)
  moreover have "blk pool m k \<noteq> 0" using blk_nonzero [OF Suc.prems(1), of k] Suc.prems(2) by simp
  ultimately show ?case using ih by (simp add: blk_Suc)
qed

section \<open>The operations\<close>

lemma LOS_MemboxInit_inv:
  assumes r: "LOS_MemboxInit pool poolSize blkSize m = Some (LOS_OK, m')" and g: "mb_geom pool m'"
  shows "mb_inv tskLimit pool m' [0..<unat (uwBlkNum m')]"
proof -
  define m3 where "m3 = m\<lparr>uwBlkSize := LOS_MEMBOX_ALIGNED (blkSize + OS_MEMBOX_NODE_HEAD_SIZE),
      uwBlkNum := (poolSize - MEMBOX_INFO_SIZE) div LOS_MEMBOX_ALIGNED (blkSize + OS_MEMBOX_NODE_HEAD_SIZE),
      uwBlkCnt := 0, stFreeList := pool + MEMBOX_INFO_SIZE\<rparr>"
  have e: "m' = membox_link (unat (uwBlkNum m3 - 1)) (pool + MEMBOX_INFO_SIZE) m3" "uwBlkNum m3 \<noteq> 0"
    using r by (auto simp: LOS_MemboxInit_def Let_def m3_def split: if_splits)
  have f: "uwBlkNum m' = uwBlkNum m3" "uwBlkCnt m' = 0" "stFreeList m' = blk pool m3 0" "uwBlkSize m' = uwBlkSize m3"
    using e by (simp_all add: m3_def blk_def)
  have g3: "mb_geom pool m3" using g f by (simp add: mb_geom_def blk_def)
  have n: "unat (uwBlkNum m3 - 1) + 1 = unat (uwBlkNum m3)"
    using unat_dec [of "uwBlkNum m3"] e(2) by (simp add: word_gt_0 unat_gt_0)
  have e': "m' = membox_link (unat (uwBlkNum m3 - 1)) (blk pool m3 0) m3" using e by (simp add: blk_def)
  have "chain (nodeNext m') (blk pool m3 0) (map (blk pool m3) [0..<Suc (0 + unat (uwBlkNum m3 - 1))])"
    unfolding e' by (rule membox_link_chain [OF g3]) (use n in simp)
  moreover have "Suc (0 + unat (uwBlkNum m3 - 1)) = unat (uwBlkNum m3)" using n by simp
  moreover have "blk pool m' = blk pool m3" using f by (simp add: blk_def fun_eq_iff)
  ultimately show ?thesis using g f by (simp only: mb_inv_def) auto
qed

lemma mb_inv_geom: "mb_inv l pool m F \<Longrightarrow> mb_geom pool m"
  by (simp add: mb_inv_def)

lemma magic_of_task:
  fixes cur :: u32
  assumes "ucast (ucast cur :: u8) \<le> tskLimit + 1"
  shows "is_magic tskLimit (OS_MEMBOX_MAGIC OR ucast (ucast cur :: u8))"
proof -
  have "(ucast (ucast cur :: u8) :: u32) AND 0xFF = ucast (ucast cur :: u8)"
  proof -
    have "unat (ucast (ucast cur :: u8) :: u32) < 2 ^ 8"
      using unsigned_less [of "ucast cur :: u8", where ?'a = nat] by (simp add: unat_ucast_up)
    then have "unat (take_bit 8 (ucast (ucast cur :: u8) :: u32)) = unat (ucast (ucast cur :: u8) :: u32)"
      by (simp only: unsigned_take_bit_eq take_bit_nat_eq_self)
    then have "take_bit 8 (ucast (ucast cur :: u8) :: u32) = ucast (ucast cur :: u8)"
      by (metis unsigned_word_eqI)
    moreover have "(0xFF :: u32) = mask 8" by (simp add: mask_eq_exp_minus_1)
    ultimately show ?thesis by (simp add: take_bit_eq_mask)
  qed
  then show ?thesis using assms by (auto simp: is_magic_def)
qed

lemma LOS_MemboxAlloc_inv:
  assumes inv: "mb_inv tskLimit pool m F" and cur: "ucast (ucast cur :: u8) \<le> tskLimit + 1"
  shows "case F of
      [] \<Rightarrow> LOS_MemboxAlloc cur pool m = (0, m)
    | i # F' \<Rightarrow> fst (LOS_MemboxAlloc cur pool m) = blk pool m i + 4 \<and>
        mb_inv tskLimit pool (snd (LOS_MemboxAlloc cur pool m)) F'"
proof -
  have p: "pool \<noteq> 0" using mb_inv_geom [OF inv] by (simp add: mb_geom_def)
  show ?thesis
  proof (cases F)
    case Nil
    then have "stFreeList m = 0" using inv by (simp add: mb_inv_def)
    then show ?thesis using Nil p by (simp add: LOS_MemboxAlloc_def)
  next
    case (Cons i F')
    let ?a = "blk pool m i"
    have i: "i < unat (uwBlkNum m)" "i \<notin> set F'" "distinct F'" "set F' \<subseteq> {..<unat (uwBlkNum m)}"
      "stFreeList m = ?a" "?a \<noteq> 0" "chain (nodeNext m) (nodeNext m ?a) (map (blk pool m) F')"
      "unat (uwBlkCnt m) + length F' + 1 = unat (uwBlkNum m)"
      using inv Cons by (auto simp: mb_inv_def)
    have na: "?a \<notin> set (map (blk pool m) F')"
      using i(2,4) blk_inj [OF mb_inv_geom [OF inv] i(1)] by auto
    have cnt: "unat (uwBlkCnt m + 1) = unat (uwBlkCnt m) + 1"
      by (rule unat_inc [of _ "uwBlkNum m"]) (use i(8) in \<open>simp add: word_less_nat_alt\<close>)
    let ?m = "snd (LOS_MemboxAlloc cur pool m)"
    have m: "LOS_MemboxAlloc cur pool m = (?a + 4, m\<lparr>stFreeList := nodeNext m ?a,
        nodeNext := (nodeNext m)(?a := OS_MEMBOX_MAGIC OR ucast (ucast cur :: u8)), uwBlkCnt := uwBlkCnt m + 1\<rparr>)"
      using i(5,6) p by (simp add: LOS_MemboxAlloc_def OsMemBoxSetMagic_def Let_def OS_MEMBOX_USER_ADDR_def OS_MEMBOX_NODE_HEAD_SIZE_def)
    have "mb_inv tskLimit pool (m\<lparr>stFreeList := nodeNext m ?a,
        nodeNext := (nodeNext m)(?a := OS_MEMBOX_MAGIC OR ucast (ucast cur :: u8)), uwBlkCnt := uwBlkCnt m + 1\<rparr>) F'"
      unfolding mb_inv_def
      using mb_inv_geom [OF inv] i na cnt chain_upd [OF na] magic_of_task [OF cur] inv Cons by (auto simp: mb_inv_def)
    then show ?thesis using m Cons by simp
  qed
qed

lemma LOS_MemboxFree_inv:
  assumes inv: "mb_inv tskLimit pool m F"
  shows "if (\<exists>i < unat (uwBlkNum m). i \<notin> set F \<and> box = blk pool m i + 4)
     then (\<exists>i < unat (uwBlkNum m). i \<notin> set F \<and> box = blk pool m i + 4 \<and>
             fst (LOS_MemboxFree tskLimit pool box m) = LOS_OK \<and>
             mb_inv tskLimit pool (snd (LOS_MemboxFree tskLimit pool box m)) (i # F))
     else LOS_MemboxFree tskLimit pool box m = (LOS_NOK, m)"
proof -
  note g = mb_inv_geom [OF inv]
  have p: "pool \<noteq> 0" using g by (simp add: mb_geom_def)
  have magic: "is_magic tskLimit (nodeNext m (blk pool m i)) \<longleftrightarrow> i \<notin> set F" if i: "i < unat (uwBlkNum m)" for i
  proof
    assume mg: "is_magic tskLimit (nodeNext m (blk pool m i))"
    show "i \<notin> set F"
    proof
      assume "i \<in> set F"
      have "chain nx a xs \<Longrightarrow> x \<in> set xs \<Longrightarrow> nx x = 0 \<or> nx x \<in> set xs" for nx a x xs
        by (induction xs arbitrary: a) (auto elim: chain.elims)
      from this [of "nodeNext m" "stFreeList m" "map (blk pool m) F" "blk pool m i"]
      have "nodeNext m (blk pool m i) = 0 \<or> nodeNext m (blk pool m i) \<in> set (map (blk pool m) F)"
        using inv \<open>i \<in> set F\<close> by (simp add: mb_inv_def)
      moreover have "nodeNext m (blk pool m i) AND NOT 0xFF = OS_MEMBOX_MAGIC" using is_magic_high [OF mg] .
      moreover have "(0 :: u32) AND NOT 0xFF \<noteq> OS_MEMBOX_MAGIC" by (simp add: OS_MEMBOX_MAGIC_def)
      ultimately show False using g inv by (auto simp: mb_geom_def mb_inv_def)
    qed
  qed (use inv i in \<open>simp add: mb_inv_def\<close>)
  have chk: "OsCheckBoxMem tskLimit pool (box - 4) m = LOS_OK \<longleftrightarrow>
      (\<exists>i < unat (uwBlkNum m). i \<notin> set F \<and> box = blk pool m i + 4)"
    unfolding OsCheckBoxMem_iff [OF g] using magic by (auto simp: eq_diff_eq diff_eq_eq)
  show ?thesis
  proof (cases "\<exists>i < unat (uwBlkNum m). i \<notin> set F \<and> box = blk pool m i + 4")
    case True
    then obtain i where i: "i < unat (uwBlkNum m)" "i \<notin> set F" "box = blk pool m i + 4" by blast
    let ?a = "blk pool m i"
    have box: "box \<noteq> 0"
    proof
      assume "box = 0"
      then have "?a = - 4" using i(3) by (simp add: eq_neg_iff_add_eq_0)
      then have "unat ?a = 2 ^ 32 - 4" by simp
      moreover have "(i + 1) * unat (uwBlkSize m) \<le> unat (uwBlkNum m) * unat (uwBlkSize m)"
        using i(1) by (intro mult_le_mono1) simp
      moreover have "4 \<le> unat (uwBlkSize m)" using g by (simp add: mb_geom_def word_le_nat_alt)
      moreover have "unat pool + 16 + unat (uwBlkNum m) * unat (uwBlkSize m) < 2 ^ 32" using g by (simp add: mb_geom_def)
      ultimately show False using blk_unat [OF g i(1)] by simp
    qed
    have na: "?a \<notin> set (map (blk pool m) F)"
      using i(1,2) inv blk_inj [OF g i(1)] by (auto simp: mb_inv_def)
    have len: "length F < unat (uwBlkNum m)"
    proof -
      have "set (i # F) \<subseteq> {..<unat (uwBlkNum m)}" "distinct (i # F)" using i inv by (auto simp: mb_inv_def)
      then have "length (i # F) \<le> card {..<unat (uwBlkNum m)}" by (metis card_mono distinct_card finite_lessThan)
      then show ?thesis by simp
    qed
    then have cnt: "unat (uwBlkCnt m - 1) + 1 = unat (uwBlkCnt m)"
      using unat_dec [of "uwBlkCnt m"] inv by (simp add: mb_inv_def word_less_nat_alt)
    have f: "LOS_MemboxFree tskLimit pool box m = (LOS_OK, m\<lparr>nodeNext := (nodeNext m)(?a := stFreeList m), stFreeList := ?a,
        uwBlkCnt := uwBlkCnt m - 1\<rparr>)"
      using True chk p box i(3) by (simp add: LOS_MemboxFree_def Let_def OS_MEMBOX_NODE_ADDR_def OS_MEMBOX_NODE_HEAD_SIZE_def)
    have "mb_inv tskLimit pool (m\<lparr>nodeNext := (nodeNext m)(?a := stFreeList m), stFreeList := ?a,
        uwBlkCnt := uwBlkCnt m - 1\<rparr>) (i # F)"
      unfolding mb_inv_def
      using inv i na cnt chain_upd [OF na] blk_nonzero [OF g i(1)] blk_inj [OF g _ i(1)] by (auto simp: mb_inv_def)
    then show ?thesis using True i f by auto
  next
    case False
    then have "LOS_MemboxFree tskLimit pool box m = (LOS_NOK, m)"
      using chk by (auto simp: LOS_MemboxFree_def Let_def OS_MEMBOX_NODE_ADDR_def OS_MEMBOX_NODE_HEAD_SIZE_def)
    then show ?thesis using False by simp
  qed
qed

section \<open>The interface of a block pool\<close>

text \<open>
  What a client of a pool relies on: \<open>ok m A\<close> says that the blocks \<open>A\<close> of the pool, out of the blocks
  \<open>B\<close>, are in use.  Allocation delivers an unused block or fails when there is none; freeing a block
  in use succeeds, and freeing anything else is refused.
\<close>

locale block_pool =
  fixes ok :: "'m \<Rightarrow> 'b set \<Rightarrow> bool" and B :: "'b set"
    and alloc :: "'m \<Rightarrow> 'b option \<times> 'm" and free :: "'b \<Rightarrow> 'm \<Rightarrow> bool \<times> 'm"
  assumes finite_blocks: "finite B" and used_blocks: "ok m A \<Longrightarrow> A \<subseteq> B"
    and alloc_some: "ok m A \<Longrightarrow> alloc m = (Some b, m') \<Longrightarrow> b \<in> B - A \<and> ok m' (insert b A)"
    and alloc_none: "ok m A \<Longrightarrow> alloc m = (None, m') \<Longrightarrow> m' = m \<and> A = B"
    and free_used: "ok m A \<Longrightarrow> b \<in> A \<Longrightarrow> fst (free b m) \<and> ok (snd (free b m)) (A - {b})"
    and free_unused: "ok m A \<Longrightarrow> b \<notin> A \<Longrightarrow> free b m = (False, m)"
begin

text \<open>Repeated allocation: the blocks delivered.\<close>

fun allocs :: "nat \<Rightarrow> 'm \<Rightarrow> 'b option list \<times> 'm" where
  "allocs 0 m = ([], m)"
| "allocs (Suc n) m = (let (x, m1) = alloc m; (xs, m2) = allocs n m1 in (x # xs, m2))"

text \<open>As long as there are unused blocks, every allocation succeeds, and all blocks delivered differ.\<close>

lemma allocs_distinct:
  assumes "ok m A" and "n \<le> card (B - A)"
  shows "\<exists>bs m'. allocs n m = (map Some bs, m') \<and> length bs = n \<and> distinct bs \<and> set bs \<subseteq> B - A \<and>
    ok m' (A \<union> set bs)"
  using assms
proof (induction n arbitrary: m A)
  case 0
  then show ?case by simp
next
  case (Suc n)
  obtain x m1 where a: "alloc m = (x, m1)" by force
  have "A \<noteq> B" using Suc.prems(2) by auto
  then obtain b where x: "x = Some b" using alloc_none [OF Suc.prems(1)] a by (cases x) auto
  have b: "b \<in> B - A" "ok m1 (insert b A)" using alloc_some [OF Suc.prems(1)] a x by auto
  have "card (B - insert b A) = card (B - A) - 1"
    using b(1) finite_blocks by (metis Diff_insert card_Diff_singleton finite_Diff)
  then have "n \<le> card (B - insert b A)" using Suc.prems(2) by simp
  from Suc.IH [OF b(2) this] obtain bs m' where i: "allocs n m1 = (map Some bs, m')" "length bs = n"
    "distinct bs" "set bs \<subseteq> B - insert b A" "ok m' (insert b A \<union> set bs)" by blast
  have "allocs (Suc n) m = (map Some (b # bs), m')" using a x i(1) by simp
  moreover have "A \<union> set (b # bs) = insert b A \<union> set bs" by auto
  ultimately show ?case using i b(1) by (intro exI [of _ "b # bs"] exI [of _ m']) auto
qed

lemma alloc_fails_iff: "ok m A \<Longrightarrow> fst (alloc m) = None \<longleftrightarrow> A = B"
proof
  assume o: "ok m A" and "fst (alloc m) = None"
  then show "A = B" using alloc_none [OF o, of "snd (alloc m)"] by (metis prod.collapse)
next
  assume o: "ok m A" and "A = B"
  then show "fst (alloc m) = None"
    using alloc_some [OF o, of _ "snd (alloc m)"] by (cases "fst (alloc m)") (auto simp: prod_eq_iff)
qed

text \<open>A block that was freed can be allocated again, one that was freed twice is refused.\<close>

lemma free_then_alloc: "ok m A \<Longrightarrow> b \<in> A \<Longrightarrow> fst (alloc (snd (free b m))) \<noteq> None"
  using free_used [of m A b] alloc_fails_iff [of "snd (free b m)" "A - {b}"] used_blocks [of m A] by auto

lemma double_free: "ok m A \<Longrightarrow> b \<in> A \<Longrightarrow> free b (snd (free b m)) = (False, snd (free b m))"
  using free_used [of m A b] free_unused [of "snd (free b m)" "A - {b}" b] by auto

end

text \<open>The model's operations, with the result \<open>NULL\<close> as \<open>None\<close>.\<close>

definition mb_blocks :: "u32 \<Rightarrow> u32 \<Rightarrow> nat \<Rightarrow> u32 set" where
  "mb_blocks pool sz n = (\<lambda>i. pool + 20 + of_nat i * sz) ` {..<n}"

definition mb_ok :: "u32 \<Rightarrow> u32 \<Rightarrow> u32 \<Rightarrow> u32 \<Rightarrow> u32 \<Rightarrow> membox \<Rightarrow> u32 set \<Rightarrow> bool" where
  "mb_ok tskLimit cur pool sz num m A \<longleftrightarrow> ucast (ucast cur :: u8) \<le> tskLimit + 1 \<and> uwBlkSize m = sz \<and>
     uwBlkNum m = num \<and>
     (\<exists>F. mb_inv tskLimit pool m F \<and> A = (\<lambda>i. blk pool m i + 4) ` ({..<unat num} - set F))"

definition mb_alloc :: "u32 \<Rightarrow> u32 \<Rightarrow> membox \<Rightarrow> u32 option \<times> membox" where
  "mb_alloc cur pool m = (let (a, m') = LOS_MemboxAlloc cur pool m in (if a = 0 then None else Some a, m'))"

definition mb_free :: "u32 \<Rightarrow> u32 \<Rightarrow> u32 \<Rightarrow> membox \<Rightarrow> bool \<times> membox" where
  "mb_free tskLimit pool box m = (let (r, m') = LOS_MemboxFree tskLimit pool box m in (r = LOS_OK, m'))"

lemma user_nonzero:
  assumes "mb_geom pool m" and "i < unat (uwBlkNum m)"
  shows "blk pool m i + 4 \<noteq> 0"
proof
  assume "blk pool m i + 4 = 0"
  then have "blk pool m i = - 4" by (simp add: eq_neg_iff_add_eq_0)
  then have "unat (blk pool m i) = 2 ^ 32 - 4" by simp
  moreover have "(i + 1) * unat (uwBlkSize m) \<le> unat (uwBlkNum m) * unat (uwBlkSize m)"
    using assms(2) by (intro mult_le_mono1) simp
  moreover have "4 \<le> unat (uwBlkSize m)" using assms(1) by (simp add: mb_geom_def word_le_nat_alt)
  moreover have "unat pool + 16 + unat (uwBlkNum m) * unat (uwBlkSize m) < 2 ^ 32" using assms(1) by (simp add: mb_geom_def)
  ultimately show False using blk_unat [OF assms] by simp
qed

lemma blk_user: "blk pool m i + 4 = pool + 20 + of_nat i * uwBlkSize m"
  by (simp add: blk_def MEMBOX_INFO_SIZE_def)

interpretation mb: block_pool "mb_ok tskLimit cur pool sz num" "mb_blocks pool sz (unat num)"
  "mb_alloc cur pool" "mb_free tskLimit pool" for tskLimit cur pool sz num
proof unfold_locales
  fix m A
  show "finite (mb_blocks pool sz (unat num))" by (simp add: mb_blocks_def)
  assume ok: "mb_ok tskLimit cur pool sz num m A"
  then obtain F where f: "ucast (ucast cur :: u8) \<le> tskLimit + 1" "uwBlkSize m = sz" "uwBlkNum m = num"
    "mb_inv tskLimit pool m F" "A = (\<lambda>i. blk pool m i + 4) ` ({..<unat num} - set F)" by (auto simp: mb_ok_def)
  note g = mb_inv_geom [OF f(4)]
  show "A \<subseteq> mb_blocks pool sz (unat num)" using f by (auto simp: mb_blocks_def blk_user)
  have inj: "inj_on (\<lambda>i. blk pool m i + 4) {..<unat num}"
    using blk_inj [OF g] f(3) by (auto simp: inj_on_def)
  have F: "set F \<subseteq> {..<unat num}" using f(3,4) by (simp add: mb_inv_def)
  {
    fix b m'
    assume a: "mb_alloc cur pool m = (Some b, m')"
    show "b \<in> mb_blocks pool sz (unat num) - A \<and> mb_ok tskLimit cur pool sz num m' (insert b A)"
    proof (cases F)
      case Nil
      then show ?thesis using a LOS_MemboxAlloc_inv [OF f(4,1)] by (simp add: mb_alloc_def)
    next
      case (Cons i F')
      have i: "i < unat num" "i \<notin> set F'" using F f(4) Cons by (auto simp: mb_inv_def)
      have al: "LOS_MemboxAlloc cur pool m = (blk pool m i + 4, m')" and b: "b = blk pool m i + 4"
        and inv: "mb_inv tskLimit pool m' F'"
        using a LOS_MemboxAlloc_inv [OF f(4,1)] Cons
        by (auto simp: mb_alloc_def prod_eq_iff split: prod.splits if_splits)
      have sm: "uwBlkSize m' = sz" "uwBlkNum m' = num" "blk pool m' = blk pool m"
        using al f(2,3) by (auto simp: LOS_MemboxAlloc_def OsMemBoxSetMagic_def Let_def split: if_splits)
      have "b \<notin> A" using b i inj F Cons unfolding f(5) by (auto simp: inj_on_def)
      moreover have "b \<in> mb_blocks pool sz (unat num)" using b i f(2) by (auto simp: mb_blocks_def blk_user)
      moreover have "insert b A = (\<lambda>j. blk pool m j + 4) ` ({..<unat num} - set F')"
        using b i F Cons unfolding f(5) by auto
      ultimately show ?thesis using inv sm f(1) by (auto simp: mb_ok_def)
    qed
  }
  {
    fix m'
    assume a: "mb_alloc cur pool m = (None, m')"
    have "F = []"
    proof (rule ccontr)
      assume "F \<noteq> []"
      then obtain i F' where c: "F = i # F'" by (cases F) auto
      then show False
        using a LOS_MemboxAlloc_inv [OF f(4,1)] user_nonzero [OF g, of i] F f(3)
        by (auto simp: mb_alloc_def split: prod.splits if_splits)
    qed
    then show "m' = m \<and> A = mb_blocks pool sz (unat num)"
      using a LOS_MemboxAlloc_inv [OF f(4,1)] f(2,5) by (simp add: mb_alloc_def mb_blocks_def blk_user)
  }
  fix b
  note fr = LOS_MemboxFree_inv [OF f(4), of b]
  {
    assume bA: "b \<in> A"
    then have "\<exists>i < unat (uwBlkNum m). i \<notin> set F \<and> b = blk pool m i + 4" using f(3,5) by auto
    then obtain i where i: "i < unat num" "i \<notin> set F" "b = blk pool m i + 4"
      "fst (LOS_MemboxFree tskLimit pool b m) = LOS_OK"
      "mb_inv tskLimit pool (snd (LOS_MemboxFree tskLimit pool b m)) (i # F)"
      using fr f(3) by auto
    have sm: "uwBlkSize (snd (LOS_MemboxFree tskLimit pool b m)) = sz"
      "uwBlkNum (snd (LOS_MemboxFree tskLimit pool b m)) = num"
      "blk pool (snd (LOS_MemboxFree tskLimit pool b m)) = blk pool m"
      using f(2,3) by (auto simp: LOS_MemboxFree_def Let_def)
    have "A - {b} = (\<lambda>j. blk pool m j + 4) ` ({..<unat num} - set (i # F))"
      using i inj unfolding f(5) by (auto simp: inj_on_def)
    then show "fst (mb_free tskLimit pool b m) \<and> mb_ok tskLimit cur pool sz num (snd (mb_free tskLimit pool b m)) (A - {b})"
      using i(4,5) sm f(1) unfolding mb_free_def mb_ok_def
      by (auto split: prod.splits intro!: exI [of _ "i # F"])
  }
  {
    assume "b \<notin> A"
    then have "\<not> (\<exists>i < unat (uwBlkNum m). i \<notin> set F \<and> b = blk pool m i + 4)" using f(3,5) by auto
    then show "mb_free tskLimit pool b m = (False, m)" using fr by (auto simp: mb_free_def)
  }
qed

section \<open>Initialisation\<close>

lemma aligned_unat:
  assumes "unat x + 3 < 2 ^ 32"
  shows "unat (LOS_MEMBOX_ALIGNED x) = (unat x + 3) - (unat x + 3) mod 4"
proof -
  have "(4 - 1 :: u32) = mask 2" by (simp add: mask_eq_exp_minus_1)
  moreover have "unat (x + 4 - 1) = unat x + 3"
    using assms by (simp add: unat_word_ariths(1))
  ultimately show ?thesis
    unfolding LOS_MEMBOX_ALIGNED_def by (simp only: unat_and_not_mask) simp
qed

text \<open>A pool that was initialised with sizes that do not wrap around has all its blocks unused.\<close>

lemma LOS_MemboxInit_ok:
  assumes r: "LOS_MemboxInit pool poolSize blkSize m = Some (LOS_OK, m')"
    and blk: "unat blkSize + 7 < 2 ^ 32" and pool: "unat pool + unat poolSize < 2 ^ 32"
    and away: "\<forall>i < unat (uwBlkNum m'). blk pool m' i AND NOT 0xFF \<noteq> OS_MEMBOX_MAGIC"
    and cur: "ucast (ucast cur :: u8) \<le> tskLimit + 1"
  shows "mb_ok tskLimit cur pool (uwBlkSize m') (uwBlkNum m') m' {}" and "unat (uwBlkSize m') \<ge> unat blkSize + 4"
    and "uwBlkNum m' > 0"
proof -
  let ?S = "LOS_MEMBOX_ALIGNED (blkSize + OS_MEMBOX_NODE_HEAD_SIZE)"
  have u4: "unat (blkSize + 4) = unat blkSize + 4" using blk by (simp add: unat_word_ariths(1))
  have "unat (blkSize + 4) + 3 < 2 ^ 32" using blk u4 by simp
  from aligned_unat [OF this] have al: "unat ?S = (unat blkSize + 7) - (unat blkSize + 7) mod 4"
    using u4 by (simp add: OS_MEMBOX_NODE_HEAD_SIZE_def ac_simps)
  then have S: "unat ?S \<ge> unat blkSize + 4" by simp
  have f: "pool \<noteq> 0" "poolSize \<ge> 16" "uwBlkSize m' = ?S" "uwBlkNum m' = (poolSize - 16) div ?S" "uwBlkNum m' \<noteq> 0"
    using r by (auto simp: LOS_MemboxInit_def Let_def MEMBOX_INFO_SIZE_def not_less split: if_splits)
  show "unat (uwBlkSize m') \<ge> unat blkSize + 4" using S f(3) by simp
  show n: "uwBlkNum m' > 0" using f(5) by (simp add: word_gt_0)
  have "unat (uwBlkNum m') * unat ?S \<le> unat (poolSize - 16)"
    unfolding f(4) by (simp add: unat_div_distrib)
  moreover have "unat (poolSize - 16) = unat poolSize - 16" using f(2) by (simp add: unat_sub)
  moreover have "16 \<le> unat poolSize" using f(2) by (simp add: word_le_nat_alt)
  ultimately have fit: "unat pool + 16 + unat (uwBlkNum m') * unat (uwBlkSize m') < 2 ^ 32"
    using pool f(3) by simp
  have "4 \<le> uwBlkSize m'" using S f(3) by (simp add: word_le_nat_alt)
  then have g: "mb_geom pool m'" using f(1) n fit away by (simp add: mb_geom_def)
  have "{..<unat (uwBlkNum m')} - set [0..<unat (uwBlkNum m')] = {}" by auto
  then show "mb_ok tskLimit cur pool (uwBlkSize m') (uwBlkNum m') m' {}"
    using LOS_MemboxInit_inv [OF r g] cur unfolding mb_ok_def by (metis image_empty)
qed

section \<open>Properties\<close>

text \<open>C19: \<open>LOS_MemboxAlloc\<close> delivers a block that is not in use and lies completely inside the pool, and
  fails exactly when every block is in use; afterwards the block counts as used, and nothing else
  has changed hands.\<close>

theorem LOS_MemboxAlloc_fresh:
  assumes ok: "mb_ok tskLimit cur pool sz num m A"
  shows "if A = mb_blocks pool sz (unat num) then LOS_MemboxAlloc cur pool m = (0, m)
     else \<exists>a m'. LOS_MemboxAlloc cur pool m = (a, m') \<and> a \<noteq> 0 \<and> a \<in> mb_blocks pool sz (unat num) - A \<and>
        unat pool + 20 \<le> unat a \<and> unat a + (unat sz - 4) \<le> unat pool + 16 + unat num * unat sz \<and>
        mb_ok tskLimit cur pool sz num m' (insert a A)"
proof (cases "A = mb_blocks pool sz (unat num)")
  case True
  then have "fst (mb_alloc cur pool m) = None" using mb.alloc_fails_iff [OF ok] by simp
  then have "fst (LOS_MemboxAlloc cur pool m) = 0" by (auto simp: mb_alloc_def split: prod.splits if_splits)
  then show ?thesis
    using True mb.alloc_none [OF ok, of "snd (LOS_MemboxAlloc cur pool m)"]
    by (cases "LOS_MemboxAlloc cur pool m") (simp add: mb_alloc_def)
next
  case False
  then have "fst (mb_alloc cur pool m) \<noteq> None" using mb.alloc_fails_iff [OF ok] by simp
  then obtain a m' where a: "LOS_MemboxAlloc cur pool m = (a, m')" "a \<noteq> 0"
    by (cases "LOS_MemboxAlloc cur pool m") (auto simp: mb_alloc_def split: if_splits)
  then have s: "a \<in> mb_blocks pool sz (unat num) - A" "mb_ok tskLimit cur pool sz num m' (insert a A)"
    using mb.alloc_some [OF ok, of a m'] by (simp_all add: mb_alloc_def)
  obtain F where f: "mb_inv tskLimit pool m F" "uwBlkSize m = sz" "uwBlkNum m = num" using ok by (auto simp: mb_ok_def)
  note g = mb_inv_geom [OF f(1)]
  obtain i where i: "i < unat num" "a = blk pool m i + 4" using s(1) f by (auto simp: mb_blocks_def blk_user)
  have le: "(i + 1) * unat sz \<le> unat num * unat sz" using i(1) by (intro mult_le_mono1) simp
  have S: "4 \<le> unat sz" "unat pool + 16 + unat num * unat sz < 2 ^ 32"
    using g f by (simp_all add: mb_geom_def word_le_nat_alt)
  have ub: "unat (blk pool m i) = unat pool + 16 + i * unat sz" using blk_unat [OF g] i(1) f by simp
  have "unat a = unat (blk pool m i) + 4"
    unfolding i(2) using ub le S by (simp add: unat_word_ariths(1))
  then show ?thesis using False a s ub le S by simp
qed

text \<open>A small pool at address 0x1000.\<close>

definition demo_box :: membox where
  "demo_box = \<lparr>uwBlkSize = 12, uwBlkNum = 2, uwBlkCnt = 0, stFreeList = 0x1010,
     nodeNext = (\<lambda>_. 0)(0x1010 := 0x101C)\<rparr>"

lemma demo_box_ok: "mb_ok 16 3 0x1000 12 2 demo_box {}"
proof -
  have b: "blk 0x1000 demo_box 0 = 0x1010" "blk 0x1000 demo_box (Suc 0) = 0x101C"
    by (simp_all add: blk_def demo_box_def MEMBOX_INFO_SIZE_def)
  have n: "uwBlkNum demo_box = 2" "uwBlkSize demo_box = 12" "uwBlkCnt demo_box = 0" "stFreeList demo_box = 0x1010"
    "nodeNext demo_box = (\<lambda>_. 0)(0x1010 := 0x101C)"
    by (simp_all add: demo_box_def)
  have "mb_geom 0x1000 demo_box"
    by (auto simp: mb_geom_def n b less_2_cases_iff OS_MEMBOX_MAGIC_def)
  then have "mb_inv 16 0x1000 demo_box [0, Suc 0]"
    by (auto simp: mb_inv_def n b less_2_cases_iff)
  moreover have "{..<2} - set [0, Suc 0] = {}" by (auto simp: less_2_cases_iff)
  ultimately show ?thesis unfolding mb_ok_def n by (intro conjI exI [of _ "[0, Suc 0]"]) simp_all
qed

theorem LOS_MemboxAlloc_fresh_witness:
  "\<exists>a m'. LOS_MemboxAlloc 3 0x1000 demo_box = (a, m') \<and> a \<noteq> 0 \<and> mb_ok 16 3 0x1000 12 2 m' {a}"
proof -
  have "{} \<noteq> mb_blocks 0x1000 12 (unat (2 :: u32))" by (auto simp: mb_blocks_def lessThan_empty_iff)
  then show ?thesis using LOS_MemboxAlloc_fresh [OF demo_box_ok] by auto
qed



text \<open>C21: an initialised pool can be used up completely: the next \<open>num\<close> allocations all succeed and
  deliver pairwise different blocks, and the one after that returns \<open>NULL\<close>.\<close>

theorem membox_use_up:
  fixes tskLimit :: u32
  assumes r: "LOS_MemboxInit pool poolSize blkSize m = Some (LOS_OK, m')"
    and "unat blkSize + 7 < 2 ^ 32" and "unat pool + unat poolSize < 2 ^ 32"
    and "\<forall>i < unat (uwBlkNum m'). blk pool m' i AND NOT 0xFF \<noteq> OS_MEMBOX_MAGIC"
    and "ucast (ucast cur :: u8) \<le> tskLimit + 1"
  shows "\<exists>as. length as = unat (uwBlkNum m') \<and> distinct as \<and>
     (\<forall>k < length as. fst (LOS_MemboxAlloc cur pool (((\<lambda>x. snd (LOS_MemboxAlloc cur pool x)) ^^ k) m')) = as ! k \<and> as ! k \<noteq> 0) \<and>
     fst (LOS_MemboxAlloc cur pool (((\<lambda>x. snd (LOS_MemboxAlloc cur pool x)) ^^ length as) m')) = 0"
proof -
  let ?n = "unat (uwBlkNum m')" and ?step = "\<lambda>x. snd (LOS_MemboxAlloc cur pool x)"
  note ok = LOS_MemboxInit_ok [OF assms]
  let ?B = "mb_blocks pool (uwBlkSize m') ?n"
  obtain F where F: "mb_inv tskLimit pool m' F" using ok(1) by (auto simp: mb_ok_def)
  have "inj_on (\<lambda>i. blk pool m' i + 4) {..<?n}" using blk_inj [OF mb_inv_geom [OF F]] by (auto simp: inj_on_def)
  then have "card ?B = ?n" unfolding mb_blocks_def blk_user [symmetric] by (simp add: card_image)
  then obtain as m2 where as: "mb.allocs cur pool ?n m' = (map Some as, m2)" "length as = ?n" "distinct as"
    "set as \<subseteq> ?B - {}" "mb_ok tskLimit cur pool (uwBlkSize m') (uwBlkNum m') m2 ({} \<union> set as)"
    using mb.allocs_distinct [OF ok(1), of ?n] by auto
  have run: "mb.allocs cur pool n x = (map Some bs, y) \<Longrightarrow> y = (?step ^^ n) x \<and>
      (\<forall>k < length bs. fst (LOS_MemboxAlloc cur pool ((?step ^^ k) x)) = bs ! k \<and> bs ! k \<noteq> 0)" for n x bs y
  proof (induction n arbitrary: x bs)
    case 0
    then show ?case by simp
  next
    case (Suc n)
    obtain a x1 where a: "LOS_MemboxAlloc cur pool x = (a, x1)" by force
    have al: "mb_alloc cur pool x = (if a = 0 then None else Some a, x1)" using a by (simp add: mb_alloc_def)
    obtain ys where l: "mb.allocs cur pool n x1 = (ys, y)" "map Some bs = (if a = 0 then None else Some a) # ys"
      using Suc.prems al by (cases "mb.allocs cur pool n x1") (simp add: mb.allocs.simps)
    then obtain cs where cs: "bs = a # cs" "a \<noteq> 0" "ys = map Some cs" by (cases bs) (auto split: if_splits)
    have ih: "y = (?step ^^ n) x1" "\<And>k. k < length cs \<Longrightarrow> fst (LOS_MemboxAlloc cur pool ((?step ^^ k) x1)) = cs ! k \<and> cs ! k \<noteq> 0"
      using Suc.IH [of x1 cs] l cs by auto
    have "(?step ^^ Suc k) x = (?step ^^ k) x1" for k using a by (simp only: funpow_Suc_right o_def) simp
    then show ?case using ih cs a by (auto simp: less_Suc_eq_0_disj)
  qed
  have "card (set as) = card ?B" using as(2,3) \<open>card ?B = ?n\<close> by (simp add: distinct_card)
  then have "set as = ?B" using as(4) by (intro card_subset_eq) (auto simp: mb_blocks_def)
  then have "fst (mb_alloc cur pool m2) = None" using mb.alloc_fails_iff [OF as(5)] by simp
  then have "fst (LOS_MemboxAlloc cur pool m2) = 0" by (auto simp: mb_alloc_def split: prod.splits if_splits)
  then show ?thesis using run [OF as(1)] as(2,3) by (intro exI [of _ as]) auto
qed

definition demo_raw :: membox where
  "demo_raw = \<lparr>uwBlkSize = 0, uwBlkNum = 0, uwBlkCnt = 0, stFreeList = 0, nodeNext = (\<lambda>_. 0)\<rparr>"

definition demo_pool :: membox where
  "demo_pool = membox_link 1 0x1010 (demo_raw\<lparr>uwBlkSize := 12, uwBlkNum := 2, stFreeList := 0x1010\<rparr>)"

lemma demo_pool_init: "LOS_MemboxInit 0x1000 40 8 demo_raw = Some (LOS_OK, demo_pool)"
  by (simp add: LOS_MemboxInit_def demo_raw_def demo_pool_def Let_def LOS_MEMBOX_ALIGNED_def
      OS_MEMBOX_NODE_HEAD_SIZE_def MEMBOX_INFO_SIZE_def)

theorem membox_use_up_witness:
  "\<exists>as. length as = 2 \<and> distinct as \<and>
     (\<forall>k < 2. fst (LOS_MemboxAlloc 3 0x1000 (((\<lambda>x. snd (LOS_MemboxAlloc 3 0x1000 x)) ^^ k) demo_pool)) = as ! k \<and>
       as ! k \<noteq> 0) \<and>
     fst (LOS_MemboxAlloc 3 0x1000 (((\<lambda>x. snd (LOS_MemboxAlloc 3 0x1000 x)) ^^ 2) demo_pool)) = 0"
proof -
  have n: "uwBlkNum demo_pool = 2" "uwBlkSize demo_pool = 12" by (simp_all add: demo_pool_def)
  have "blk 0x1000 demo_pool i AND NOT 0xFF \<noteq> OS_MEMBOX_MAGIC" if "i < unat (uwBlkNum demo_pool)" for i
    using that n by (auto simp: less_2_cases_iff blk_def MEMBOX_INFO_SIZE_def OS_MEMBOX_MAGIC_def)
  then show ?thesis using membox_use_up [OF demo_pool_init, of 3 16] n by auto
qed

text \<open>C22: the block size is not checked for overflow.  For the largest block sizes the sum with the header
  wraps around: the pool is reported as initialised with blocks of four bytes, which hold nothing
  but their header; for the sizes just below, the aligned size is zero and the code divides by zero.\<close>

theorem LOS_MemboxInit_size_wraps:
  assumes "pool \<noteq> 0" and "20 \<le> poolSize" and "0xFFFFFFF9 \<le> blkSize"
  shows "if 0xFFFFFFFD \<le> blkSize
         then \<exists>m'. LOS_MemboxInit pool poolSize blkSize m = Some (LOS_OK, m') \<and> uwBlkSize m' = 4
         else LOS_MemboxInit pool poolSize blkSize m = None"
proof -
  let ?a = "LOS_MEMBOX_ALIGNED (blkSize + OS_MEMBOX_NODE_HEAD_SIZE)"
  have lt: "unat blkSize < 2 ^ LENGTH(32)" by (rule unsigned_less)
  have ge: "0xFFFFFFF9 \<le> unat blkSize" using assms(3) by (simp add: word_le_nat_alt)
  have "unat (blkSize + 7) = (unat blkSize + 7) mod 2 ^ 32"
    using unat_word_ariths(1) [of blkSize 7] by simp
  then have s: "unat (blkSize + 7) = unat blkSize - 0xFFFFFFF9" using lt ge by (simp add: le_mod_geq)
  have e: "?a = (blkSize + 7) AND NOT (mask 2)"
    by (simp add: LOS_MEMBOX_ALIGNED_def OS_MEMBOX_NODE_HEAD_SIZE_def mask_eq_exp_minus_1 ac_simps)
  have a: "unat ?a = unat blkSize - 0xFFFFFFF9 - (unat blkSize - 0xFFFFFFF9) mod 4"
    unfolding e by (simp add: unat_and_not_mask s)
  have nz: "blkSize \<noteq> 0" using assms(3) by auto
  have p20: "20 \<le> unat poolSize" using assms(2) by (simp add: word_le_nat_alt)
  then have p16: "16 \<le> poolSize" by (simp add: word_le_nat_alt)
  then have "unat ((poolSize - 16) div 4) = (unat poolSize - 16) div 4" by (simp add: unat_div_distrib unat_sub)
  then have "unat ((poolSize - 16) div 4) \<noteq> 0" using p20 by simp
  then have ps: "\<not> poolSize < MEMBOX_INFO_SIZE" "(poolSize - MEMBOX_INFO_SIZE) div 4 \<noteq> 0"
    using p16 by (auto simp: MEMBOX_INFO_SIZE_def not_less)
  show ?thesis
  proof (cases "0xFFFFFFFD \<le> blkSize")
    case True
    then have "0xFFFFFFFD \<le> unat blkSize" by (simp add: word_le_nat_alt)
    moreover obtain k where "unat blkSize = 0xFFFFFFFD + k" "k < 3"
      using calculation lt that [of "unat blkSize - 0xFFFFFFFD"] by simp
    ultimately have "unat ?a = unat (4::u32)" using a by simp
    then have "?a = 4" by (metis unsigned_word_eqI)
    then show ?thesis using True assms nz ps by (simp add: LOS_MemboxInit_def Let_def)
  next
    case False
    then have "unat blkSize < 0xFFFFFFFD" by (simp add: word_le_nat_alt)
    then have "unat ?a = unat (0::u32)" using a ge by simp
    then have "?a = 0" by (metis unsigned_word_eqI)
    then show ?thesis using False assms nz ps by (simp add: LOS_MemboxInit_def Let_def)
  qed
qed

theorem LOS_MemboxInit_size_wraps_witness:
  "(\<exists>m'. LOS_MemboxInit 0x1000 40 0xFFFFFFFF demo_raw = Some (LOS_OK, m') \<and> uwBlkSize m' = 4) \<and>
   LOS_MemboxInit 0x1000 40 0xFFFFFFFC demo_raw = None"
  using LOS_MemboxInit_size_wraps [of "0x1000" 40 "0xFFFFFFFF" demo_raw]
    LOS_MemboxInit_size_wraps [of "0x1000" 40 "0xFFFFFFFC" demo_raw] by simp

end
