(* ===== verification/Queue.thy ===== *)
theory Queue
  imports Wait_Queue Membox Bytes
begin

text \<open>
  Message queues, \<open>src/kernel/src/los_queue.c\<close>.  A queue is a ring buffer of \<open>queueLen\<close> nodes of
  \<open>queueSize\<close> bytes in memory; the last four bytes of a node hold the length of the message.  The
  messages are in the byte memory \<open>qmem\<close>, as are the buffers of the callers.

  The arrays \<open>g_allQueue\<close> and \<open>g_staticQueue\<close> are one function: element \<open>k\<close> of the second is at index
  \<open>LOSCFG_BASE_IPC_QUEUE_LIMIT + k\<close>, which is also its \<open>queueID\<close>.  The node
  \<open>readWriteList[OS_QUEUE_WRITE]\<close> is on a free list while the queue is unused and is the head of the
  waiting writers while it is used.

  A blocking call is in two parts: up to \<open>LOS_Schedule\<close> (the result is \<open>None\<close> when the task waits), and
  the part the task executes when it runs again.
\<close>

section \<open>Control blocks\<close>

record LosQueueCB =
  queue :: u32
  queueName :: u32
  queueState :: u16
  queueLen :: u16
  queueSize :: u16
  queueID :: u16
  queueHead :: u16
  queueTail :: u16
  readWriteableCnt :: "u32 \<Rightarrow> u16"

record queues =
  QUEUE_STATIC :: bool
  QUEUE_LIMIT :: u16
  STATIC_QUEUE_LIMIT :: u16
  g_allQueue :: "nat \<Rightarrow> LosQueueCB"
  g_freeQueueList :: "nat list"
  g_freeStaticQueueList :: "nat list"
  qmem :: mem8

type_synonym quest = "queues \<times> ksched"

abbreviation (input) OS_QUEUE_UNUSED :: u16 where "OS_QUEUE_UNUSED \<equiv> 0"
abbreviation (input) OS_QUEUE_INUSED :: u16 where "OS_QUEUE_INUSED \<equiv> 1"
abbreviation (input) OS_QUEUE_READ :: u32 where "OS_QUEUE_READ \<equiv> 0"
abbreviation (input) OS_QUEUE_WRITE :: u32 where "OS_QUEUE_WRITE \<equiv> 1"
abbreviation (input) OS_QUEUE_HEAD :: u32 where "OS_QUEUE_HEAD \<equiv> 0"
abbreviation (input) OS_QUEUE_TAIL :: u32 where "OS_QUEUE_TAIL \<equiv> 1"
abbreviation (input) OS_QUEUE_NOT_POINT :: u32 where "OS_QUEUE_NOT_POINT \<equiv> 0"
abbreviation (input) OS_QUEUE_POINT :: u32 where "OS_QUEUE_POINT \<equiv> 1"
abbreviation (input) OS_NULL_SHORT :: u16 where "OS_NULL_SHORT \<equiv> 0xFFFF"
abbreviation (input) LOS_NO_WAIT :: u32 where "LOS_NO_WAIT \<equiv> 0"

abbreviation (input) "LOS_ERRNO_QUEUE_MAXNUM_ZERO \<equiv> LOS_ERRNO_OS_ERROR LOS_MOD_QUE 0x00"
abbreviation (input) "LOS_ERRNO_QUEUE_NO_MEMORY \<equiv> LOS_ERRNO_OS_ERROR LOS_MOD_QUE 0x01"
abbreviation (input) "LOS_ERRNO_QUEUE_CREATE_NO_MEMORY \<equiv> LOS_ERRNO_OS_ERROR LOS_MOD_QUE 0x02"
abbreviation (input) "LOS_ERRNO_QUEUE_SIZE_TOO_BIG \<equiv> LOS_ERRNO_OS_ERROR LOS_MOD_QUE 0x03"
abbreviation (input) "LOS_ERRNO_QUEUE_CB_UNAVAILABLE \<equiv> LOS_ERRNO_OS_ERROR LOS_MOD_QUE 0x04"
abbreviation (input) "LOS_ERRNO_QUEUE_NOT_FOUND \<equiv> LOS_ERRNO_OS_ERROR LOS_MOD_QUE 0x05"
abbreviation (input) "LOS_ERRNO_QUEUE_PEND_IN_LOCK \<equiv> LOS_ERRNO_OS_ERROR LOS_MOD_QUE 0x06"
abbreviation (input) "LOS_ERRNO_QUEUE_TIMEOUT \<equiv> LOS_ERRNO_OS_ERROR LOS_MOD_QUE 0x07"
abbreviation (input) "LOS_ERRNO_QUEUE_IN_TSKUSE \<equiv> LOS_ERRNO_OS_ERROR LOS_MOD_QUE 0x08"
abbreviation (input) "LOS_ERRNO_QUEUE_WRITE_IN_INTERRUPT \<equiv> LOS_ERRNO_OS_ERROR LOS_MOD_QUE 0x09"
abbreviation (input) "LOS_ERRNO_QUEUE_NOT_CREATE \<equiv> LOS_ERRNO_OS_ERROR LOS_MOD_QUE 0x0a"
abbreviation (input) "LOS_ERRNO_QUEUE_IN_TSKWRITE \<equiv> LOS_ERRNO_OS_ERROR LOS_MOD_QUE 0x0b"
abbreviation (input) "LOS_ERRNO_QUEUE_CREAT_PTR_NULL \<equiv> LOS_ERRNO_OS_ERROR LOS_MOD_QUE 0x0c"
abbreviation (input) "LOS_ERRNO_QUEUE_PARA_ISZERO \<equiv> LOS_ERRNO_OS_ERROR LOS_MOD_QUE 0x0d"
abbreviation (input) "LOS_ERRNO_QUEUE_INVALID \<equiv> LOS_ERRNO_OS_ERROR LOS_MOD_QUE 0x0e"
abbreviation (input) "LOS_ERRNO_QUEUE_READ_PTR_NULL \<equiv> LOS_ERRNO_OS_ERROR LOS_MOD_QUE 0x0f"
abbreviation (input) "LOS_ERRNO_QUEUE_READSIZE_ISZERO \<equiv> LOS_ERRNO_OS_ERROR LOS_MOD_QUE 0x10"
abbreviation (input) "LOS_ERRNO_QUEUE_WRITE_PTR_NULL \<equiv> LOS_ERRNO_OS_ERROR LOS_MOD_QUE 0x12"
abbreviation (input) "LOS_ERRNO_QUEUE_WRITESIZE_ISZERO \<equiv> LOS_ERRNO_OS_ERROR LOS_MOD_QUE 0x13"
abbreviation (input) "LOS_ERRNO_QUEUE_WRITE_SIZE_TOO_BIG \<equiv> LOS_ERRNO_OS_ERROR LOS_MOD_QUE 0x15"
abbreviation (input) "LOS_ERRNO_QUEUE_ISFULL \<equiv> LOS_ERRNO_OS_ERROR LOS_MOD_QUE 0x16"
abbreviation (input) "LOS_ERRNO_QUEUE_PTR_NULL \<equiv> LOS_ERRNO_OS_ERROR LOS_MOD_QUE 0x17"
abbreviation (input) "LOS_ERRNO_QUEUE_READ_IN_INTERRUPT \<equiv> LOS_ERRNO_OS_ERROR LOS_MOD_QUE 0x18"
abbreviation (input) "LOS_ERRNO_QUEUE_MAIL_HANDLE_INVALID \<equiv> LOS_ERRNO_OS_ERROR LOS_MOD_QUE 0x19"
abbreviation (input) "LOS_ERRNO_QUEUE_MAIL_PTR_INVALID \<equiv> LOS_ERRNO_OS_ERROR LOS_MOD_QUE 0x1a"
abbreviation (input) "LOS_ERRNO_QUEUE_MAIL_FREE_ERROR \<equiv> LOS_ERRNO_OS_ERROR LOS_MOD_QUE 0x1b"
abbreviation (input) "LOS_ERRNO_QUEUE_ISEMPTY \<equiv> LOS_ERRNO_OS_ERROR LOS_MOD_QUE 0x1d"
abbreviation (input) "LOS_ERRNO_QUEUE_BUFFER_SIZE_TOO_BIG \<equiv> LOS_ERRNO_OS_ERROR LOS_MOD_QUE 0x20"

text \<open>The operation types.\<close>

definition OS_QUEUE_OPERATE_TYPE :: "u32 \<Rightarrow> u32 \<Rightarrow> u32 \<Rightarrow> u32" where
  "OS_QUEUE_OPERATE_TYPE readOrWrite headOrTail pointOrNot =
     push_bit 2 pointOrNot OR push_bit (Suc 0) headOrTail OR readOrWrite"

definition OS_QUEUE_READ_WRITE_GET :: "u32 \<Rightarrow> u32" where
  "OS_QUEUE_READ_WRITE_GET type = type AND 1"

definition OS_QUEUE_OPERATE_GET :: "u32 \<Rightarrow> u32" where
  "OS_QUEUE_OPERATE_GET type = type AND 3"

definition OS_QUEUE_IS_POINT :: "u32 \<Rightarrow> bool" where
  "OS_QUEUE_IS_POINT type \<longleftrightarrow> type AND 4 \<noteq> 0"

definition OS_QUEUE_IS_READ :: "u32 \<Rightarrow> bool" where
  "OS_QUEUE_IS_READ type \<longleftrightarrow> OS_QUEUE_READ_WRITE_GET type = OS_QUEUE_READ"

definition OS_QUEUE_IS_WRITE :: "u32 \<Rightarrow> bool" where
  "OS_QUEUE_IS_WRITE type \<longleftrightarrow> OS_QUEUE_READ_WRITE_GET type = OS_QUEUE_WRITE"

abbreviation (input) OS_QUEUE_READ_HEAD :: u32 where "OS_QUEUE_READ_HEAD \<equiv> 0"
abbreviation (input) OS_QUEUE_WRITE_HEAD :: u32 where "OS_QUEUE_WRITE_HEAD \<equiv> 1"
abbreviation (input) OS_QUEUE_WRITE_TAIL :: u32 where "OS_QUEUE_WRITE_TAIL \<equiv> 3"

text \<open>\<open>readWriteList[rw]\<close> of the queue at index \<open>i\<close>.\<close>

definition readWriteList :: "nat \<Rightarrow> u32 \<Rightarrow> lhead" where
  "readWriteList i rw = (if rw = OS_QUEUE_READ then QueReadList i else QueWriteList i)"

abbreviation mod_que :: "nat \<Rightarrow> (LosQueueCB \<Rightarrow> LosQueueCB) \<Rightarrow> queues \<Rightarrow> queues" where
  "mod_que i f q \<equiv> q\<lparr>g_allQueue := (g_allQueue q)(i := f (g_allQueue q i))\<rparr>"

definition OS_ALL_IPC_QUEUE_LIMIT :: "queues \<Rightarrow> u32" where
  "OS_ALL_IPC_QUEUE_LIMIT q =
     (if QUEUE_STATIC q then ucast (QUEUE_LIMIT q) + ucast (STATIC_QUEUE_LIMIT q) else ucast (QUEUE_LIMIT q))"

definition OsGetQueueHandle :: "u32 \<Rightarrow> queues \<Rightarrow> nat" where
  "OsGetQueueHandle qid q =
     (if QUEUE_STATIC q \<and> qid \<ge> ucast (QUEUE_LIMIT q) \<and> qid < OS_ALL_IPC_QUEUE_LIMIT q
      then unat (QUEUE_LIMIT q) + unat (qid - ucast (QUEUE_LIMIT q))
      else unat qid)"

section \<open>Initialisation and creation\<close>

definition zeroQueueCB :: LosQueueCB where
  "zeroQueueCB = \<lparr>queue = 0, queueName = 0, queueState = 0, queueLen = 0, queueSize = 0, queueID = 0,
     queueHead = 0, queueTail = 0, readWriteableCnt = (\<lambda>_. 0)\<rparr>"

text \<open>\<open>memOk\<close> and \<open>memOk2\<close> say whether \<open>LOS_MemAlloc\<close> delivers the two arrays.\<close>

definition OsQueueInit :: "bool \<Rightarrow> bool \<Rightarrow> queues \<Rightarrow> u32 \<times> queues" where
  "OsQueueInit memOk memOk2 q =
     (if OS_ALL_IPC_QUEUE_LIMIT q = 0 then (LOS_ERRNO_QUEUE_MAXNUM_ZERO, q)
      else if \<not> memOk then (LOS_ERRNO_QUEUE_NO_MEMORY, q)
      else let n = unat (QUEUE_LIMIT q);
               q1 = q\<lparr>g_allQueue := (\<lambda>i. if i < n then zeroQueueCB else g_allQueue q i), g_freeQueueList := []\<rparr>;
               q2 = foldl (\<lambda>a index.
                        let b = mod_que index (\<lambda>c. c\<lparr>queueID := of_nat index\<rparr>) a
                        in b\<lparr>g_freeQueueList := g_freeQueueList b @ [index]\<rparr>) q1 [0..<n]
           in if \<not> QUEUE_STATIC q then (LOS_OK, q2)
              else if \<not> memOk2 then (LOS_ERRNO_QUEUE_NO_MEMORY, q2)
              else let m = unat (STATIC_QUEUE_LIMIT q);
                       q3 = q2\<lparr>g_allQueue := (\<lambda>i. if n \<le> i \<and> i < n + m then zeroQueueCB else g_allQueue q2 i),
                               g_freeStaticQueueList := []\<rparr>
                   in (LOS_OK,
                       foldl (\<lambda>a index.
                          let b = mod_que (n + index) (\<lambda>c. c\<lparr>queueID := of_nat index + QUEUE_LIMIT q\<rparr>) a
                          in b\<lparr>g_freeStaticQueueList := g_freeStaticQueueList b @ [n + index]\<rparr>) q3 [0..<m]))"

text \<open>The assignments that make a control block a used queue.\<close>

definition queue_setup :: "u32 \<Rightarrow> u16 \<Rightarrow> u16 \<Rightarrow> u32 \<Rightarrow> LosQueueCB \<Rightarrow> LosQueueCB" where
  "queue_setup name len msgSize buf c =
     c\<lparr>queueName := name, queueLen := len, queueSize := msgSize, queue := buf,
       queueState := OS_QUEUE_INUSED,
       readWriteableCnt := (readWriteableCnt c)(OS_QUEUE_READ := 0, OS_QUEUE_WRITE := len),
       queueHead := 0, queueTail := 0\<rparr>"

definition queue_lists :: "nat \<Rightarrow> ksched \<Rightarrow> ksched" where
  "queue_lists i s =
     mod_lst (ls_init (QueMemList i)) (mod_lst (ls_init (readWriteList i OS_QUEUE_WRITE))
       (mod_lst (ls_init (readWriteList i OS_QUEUE_READ)) s))"

text \<open>
  \<open>alloc\<close> is what \<open>LOS_MemAlloc\<close> returns if it is called.  The results are the code, the identifier
  stored in \<open>*queueID\<close>, and the address given to \<open>LOS_MemFree\<close> if that is called.
\<close>

definition OsQueueCreate ::
  "u32 \<Rightarrow> u16 \<Rightarrow> bool \<Rightarrow> u32 \<Rightarrow> u16 \<Rightarrow> u32 \<Rightarrow> quest \<Rightarrow> (u32 \<times> u32 option \<times> u32 option) \<times> quest" where
  "OsQueueCreate name len notNull staticMem maxMsgSize alloc = (\<lambda>(q, s).
     if \<not> notNull then ((LOS_ERRNO_QUEUE_CREAT_PTR_NULL, None, None), (q, s))
     else if (ucast maxMsgSize :: u32) > ucast OS_NULL_SHORT - 4
          then ((LOS_ERRNO_QUEUE_SIZE_TOO_BIG, None, None), (q, s))
     else if len = 0 \<or> maxMsgSize = 0 then ((LOS_ERRNO_QUEUE_PARA_ISZERO, None, None), (q, s))
     else let msgSize = maxMsgSize + 4
          in if (0xFFFFFFFF :: u32) div ucast msgSize < ucast len
             then ((LOS_ERRNO_QUEUE_SIZE_TOO_BIG, None, None), (q, s))
             else if QUEUE_STATIC q \<and> staticMem \<noteq> 0
             then (case g_freeStaticQueueList q of
                     [] \<Rightarrow> ((LOS_ERRNO_QUEUE_CB_UNAVAILABLE, None, None), (q, s))
                   | i # _ \<Rightarrow>
                       (let q1 = q\<lparr>g_freeStaticQueueList := remove1 i (g_freeStaticQueueList q)\<rparr>;
                            q2 = mod_que i (queue_setup name len msgSize staticMem) q1
                        in ((LOS_OK, Some (ucast (queueID (g_allQueue q2 i))), None), (q2, queue_lists i s))))
             else if alloc = 0 then ((LOS_ERRNO_QUEUE_CREATE_NO_MEMORY, None, None), (q, s))
             else (case g_freeQueueList q of
                     [] \<Rightarrow> ((LOS_ERRNO_QUEUE_CB_UNAVAILABLE, None, Some alloc), (q, s))
                   | i # _ \<Rightarrow>
                       (let q1 = q\<lparr>g_freeQueueList := remove1 i (g_freeQueueList q)\<rparr>;
                            q2 = mod_que i (queue_setup name len msgSize alloc) q1
                        in ((LOS_OK, Some (ucast (queueID (g_allQueue q2 i))), None), (q2, queue_lists i s)))))"

definition LOS_QueueCreateStatic ::
  "u32 \<Rightarrow> u16 \<Rightarrow> bool \<Rightarrow> u32 \<Rightarrow> u16 \<Rightarrow> u32 \<Rightarrow> quest \<Rightarrow> (u32 \<times> u32 option \<times> u32 option) \<times> quest" where
  "LOS_QueueCreateStatic name len notNull staticMem maxMsgSize alloc =
     OsQueueCreate name len notNull staticMem maxMsgSize alloc"

definition LOS_QueueCreate ::
  "u32 \<Rightarrow> u16 \<Rightarrow> bool \<Rightarrow> u16 \<Rightarrow> u32 \<Rightarrow> quest \<Rightarrow> (u32 \<times> u32 option \<times> u32 option) \<times> quest" where
  "LOS_QueueCreate name len notNull maxMsgSize alloc = OsQueueCreate name len notNull 0 maxMsgSize alloc"

section \<open>Reading and writing\<close>

text \<open>\<open>bufferSize\<close> is \<open>None\<close> when the pointer to it is \<open>NULL\<close>.\<close>

definition OsQueueReadParameterCheck :: "u32 \<Rightarrow> u32 \<Rightarrow> u32 option \<Rightarrow> u32 \<Rightarrow> quest \<Rightarrow> u32" where
  "OsQueueReadParameterCheck qid bufferAddr bufferSize timeOut = (\<lambda>(q, s).
     if qid \<ge> OS_ALL_IPC_QUEUE_LIMIT q then LOS_ERRNO_QUEUE_INVALID
     else if bufferAddr = 0 \<or> bufferSize = None then LOS_ERRNO_QUEUE_READ_PTR_NULL
     else if the bufferSize = 0 then LOS_ERRNO_QUEUE_READSIZE_ISZERO
     else if timeOut \<noteq> LOS_NO_WAIT \<and> intActive s then LOS_ERRNO_QUEUE_READ_IN_INTERRUPT
     else LOS_OK)"

definition OsQueueWriteParameterCheck :: "u32 \<Rightarrow> u32 \<Rightarrow> u32 \<Rightarrow> u32 \<Rightarrow> quest \<Rightarrow> u32" where
  "OsQueueWriteParameterCheck qid bufferAddr bufferSize timeOut = (\<lambda>(q, s).
     if qid \<ge> OS_ALL_IPC_QUEUE_LIMIT q then LOS_ERRNO_QUEUE_INVALID
     else if bufferAddr = 0 then LOS_ERRNO_QUEUE_WRITE_PTR_NULL
     else if bufferSize = 0 then LOS_ERRNO_QUEUE_WRITESIZE_ISZERO
     else if timeOut \<noteq> LOS_NO_WAIT \<and> intActive s then LOS_ERRNO_QUEUE_WRITE_IN_INTERRUPT
     else LOS_OK)"

text \<open>
  The \<open>switch\<close> of \<open>OsQueueBufferOperate\<close>: the position of the node and the control block with its
  head or tail moved; \<open>None\<close> for the \<open>default\<close> branch.
\<close>

definition queue_position :: "u32 \<Rightarrow> LosQueueCB \<Rightarrow> (u16 \<times> LosQueueCB) option" where
  "queue_position operateType c =
     (if OS_QUEUE_OPERATE_GET operateType = OS_QUEUE_READ_HEAD
      then Some (queueHead c, if (ucast (queueHead c) + 1 :: u32) = ucast (queueLen c)
                              then c\<lparr>queueHead := 0\<rparr> else c\<lparr>queueHead := queueHead c + 1\<rparr>)
      else if OS_QUEUE_OPERATE_GET operateType = OS_QUEUE_WRITE_HEAD
      then let c1 = (if queueHead c = 0 then c\<lparr>queueHead := queueLen c - 1\<rparr>
                     else c\<lparr>queueHead := queueHead c - 1\<rparr>)
           in Some (queueHead c1, c1)
      else if OS_QUEUE_OPERATE_GET operateType = OS_QUEUE_WRITE_TAIL
      then Some (queueTail c, if (ucast (queueTail c) + 1 :: u32) = ucast (queueLen c)
                              then c\<lparr>queueTail := 0\<rparr> else c\<lparr>queueTail := queueTail c + 1\<rparr>)
      else None)"

text \<open>\<open>&(queueCB->queue[queuePosition * queueSize])\<close>.\<close>

definition queueNode :: "LosQueueCB \<Rightarrow> u16 \<Rightarrow> u32" where
  "queueNode c queuePosition = queue c + ucast queuePosition * ucast (queueSize c)"

text \<open>The results are the new \<open>*bufferSize\<close> and the state.\<close>

definition OsQueueBufferOperate :: "nat \<Rightarrow> u32 \<Rightarrow> u32 \<Rightarrow> u32 \<Rightarrow> queues \<Rightarrow> u32 \<times> queues" where
  "OsQueueBufferOperate i operateType bufferAddr bufferSize q =
     (case queue_position operateType (g_allQueue q i) of
        None \<Rightarrow> (bufferSize, q)
      | Some (pos, c) \<Rightarrow>
          (let q1 = mod_que i (\<lambda>_. c) q;
               node = queueNode c pos;
               lenAddr = (node + ucast (queueSize c)) - 4
           in if OS_QUEUE_IS_POINT operateType
              then if OS_QUEUE_IS_READ operateType
                   then (bufferSize, q1\<lparr>qmem := store32 bufferAddr (load32 (qmem q1) node) (qmem q1)\<rparr>)
                   else (bufferSize, q1\<lparr>qmem := store32 node (load32 (qmem q1) bufferAddr) (qmem q1)\<rparr>)
              else if OS_QUEUE_IS_READ operateType
                   then let size0 = load32 (qmem q1) lenAddr;
                            msgDataSize = (if bufferSize < size0 then bufferSize else size0);
                            (rc, m) = memcpy_s bufferAddr bufferSize node msgDataSize (qmem q1)
                        in (if rc \<noteq> EOK then bufferSize else msgDataSize, q1\<lparr>qmem := m\<rparr>)
                   else let m1 = store32 lenAddr bufferSize (qmem q1);
                            (rc, m2) = memcpy_s node (ucast (queueSize c)) bufferAddr bufferSize m1
                        in (bufferSize, q1\<lparr>qmem := m2\<rparr>)))"

definition OsQueueOperateParamCheck :: "LosQueueCB \<Rightarrow> u32 \<Rightarrow> u32 \<Rightarrow> u32" where
  "OsQueueOperateParamCheck c operateType bufferSize =
     (if queueState c = OS_QUEUE_UNUSED then LOS_ERRNO_QUEUE_NOT_CREATE
      else if OS_QUEUE_IS_WRITE operateType \<and> bufferSize > ucast (queueSize c) - 4
           then LOS_ERRNO_QUEUE_WRITE_SIZE_TOO_BIG
      else if bufferSize \<ge> SECUREC_MEM_MAX_LEN then LOS_ERRNO_QUEUE_BUFFER_SIZE_TOO_BIG
      else LOS_OK)"

text \<open>The end of \<open>OsQueueOperate\<close>: the transfer, and the wake-up of a task on the other side.\<close>

definition queue_transfer :: "nat \<Rightarrow> u32 \<Rightarrow> u32 \<Rightarrow> u32 \<Rightarrow> quest \<Rightarrow> u32 \<times> quest" where
  "queue_transfer i operateType bufferAddr bufferSize = (\<lambda>(q, s).
     let readWriteTmp = (if OS_QUEUE_READ_WRITE_GET operateType = 0 then 1 else 0);
         (size', q1) = OsQueueBufferOperate i operateType bufferAddr bufferSize q
     in case ls_nodes (lst s) (readWriteList i readWriteTmp) of
          t # _ \<Rightarrow> (size', (q1, LOS_Schedule (OsSchedTaskWake t s)))
        | [] \<Rightarrow> (size', (mod_que i (\<lambda>c. c\<lparr>readWriteableCnt :=
                    (readWriteableCnt c)(readWriteTmp := readWriteableCnt c readWriteTmp + 1)\<rparr>) q1, s)))"

definition OsQueueOperate ::
  "u32 \<Rightarrow> u32 \<Rightarrow> u32 \<Rightarrow> u32 \<Rightarrow> u32 \<Rightarrow> quest \<Rightarrow> (u32 option \<times> u32) \<times> quest" where
  "OsQueueOperate qid operateType bufferAddr bufferSize timeOut = (\<lambda>(q, s).
     let readWrite = OS_QUEUE_READ_WRITE_GET operateType;
         i = OsGetQueueHandle qid q;
         ret = OsQueueOperateParamCheck (g_allQueue q i) operateType bufferSize
     in if ret \<noteq> LOS_OK then ((Some ret, bufferSize), (q, s))
        else if readWriteableCnt (g_allQueue q i) readWrite = 0
        then if timeOut = LOS_NO_WAIT
             then ((Some (if OS_QUEUE_IS_READ operateType then LOS_ERRNO_QUEUE_ISEMPTY
                          else LOS_ERRNO_QUEUE_ISFULL), bufferSize), (q, s))
             else if g_losTaskLock s \<noteq> 0 then ((Some LOS_ERRNO_QUEUE_PEND_IN_LOCK, bufferSize), (q, s))
             else ((None, bufferSize), (q, LOS_Schedule (OsSchedTaskWait (readWriteList i readWrite) timeOut s)))
        else let q1 = mod_que i (\<lambda>c. c\<lparr>readWriteableCnt :=
                        (readWriteableCnt c)(readWrite := readWriteableCnt c readWrite - 1)\<rparr>) q;
                 (size', st) = queue_transfer i operateType bufferAddr bufferSize (q1, s)
             in ((Some LOS_OK, size'), st))"

definition OsQueueOperate_resume ::
  "nat \<Rightarrow> u32 \<Rightarrow> u32 \<Rightarrow> u32 \<Rightarrow> tptr \<Rightarrow> quest \<Rightarrow> (u32 \<times> u32) \<times> quest" where
  "OsQueueOperate_resume i operateType bufferAddr bufferSize runTsk = (\<lambda>(q, s).
     if hasFlag (status s runTsk) OS_TASK_STATUS_TIMEOUT
     then ((LOS_ERRNO_QUEUE_TIMEOUT, bufferSize), (q, clr_status runTsk OS_TASK_STATUS_TIMEOUT s))
     else let (size', st) = queue_transfer i operateType bufferAddr bufferSize (q, s)
          in ((LOS_OK, size'), st))"

definition LOS_QueueReadCopy :: "u32 \<Rightarrow> u32 \<Rightarrow> u32 option \<Rightarrow> u32 \<Rightarrow> quest \<Rightarrow> (u32 option \<times> u32 option) \<times> quest" where
  "LOS_QueueReadCopy qid bufferAddr bufferSize timeOut st =
     (let ret = OsQueueReadParameterCheck qid bufferAddr bufferSize timeOut st
      in if ret \<noteq> LOS_OK then ((Some ret, bufferSize), st)
         else let ((r, size'), st') = OsQueueOperate qid
                    (OS_QUEUE_OPERATE_TYPE OS_QUEUE_READ OS_QUEUE_HEAD OS_QUEUE_NOT_POINT)
                    bufferAddr (the bufferSize) timeOut st
              in ((r, Some size'), st'))"

definition LOS_QueueWriteHeadCopy :: "u32 \<Rightarrow> u32 \<Rightarrow> u32 \<Rightarrow> u32 \<Rightarrow> quest \<Rightarrow> u32 option \<times> quest" where
  "LOS_QueueWriteHeadCopy qid bufferAddr bufferSize timeOut st =
     (let ret = OsQueueWriteParameterCheck qid bufferAddr bufferSize timeOut st
      in if ret \<noteq> LOS_OK then (Some ret, st)
         else let ((r, _), st') = OsQueueOperate qid
                    (OS_QUEUE_OPERATE_TYPE OS_QUEUE_WRITE OS_QUEUE_HEAD OS_QUEUE_NOT_POINT)
                    bufferAddr bufferSize timeOut st
              in (r, st'))"

definition LOS_QueueWriteCopy :: "u32 \<Rightarrow> u32 \<Rightarrow> u32 \<Rightarrow> u32 \<Rightarrow> quest \<Rightarrow> u32 option \<times> quest" where
  "LOS_QueueWriteCopy qid bufferAddr bufferSize timeOut st =
     (let ret = OsQueueWriteParameterCheck qid bufferAddr bufferSize timeOut st
      in if ret \<noteq> LOS_OK then (Some ret, st)
         else let ((r, _), st') = OsQueueOperate qid
                    (OS_QUEUE_OPERATE_TYPE OS_QUEUE_WRITE OS_QUEUE_TAIL OS_QUEUE_NOT_POINT)
                    bufferAddr bufferSize timeOut st
              in (r, st'))"

definition LOS_QueueRead :: "u32 \<Rightarrow> u32 \<Rightarrow> u32 \<Rightarrow> u32 \<Rightarrow> quest \<Rightarrow> u32 option \<times> quest" where
  "LOS_QueueRead qid bufferAddr bufferSize timeOut st =
     (let ret = OsQueueReadParameterCheck qid bufferAddr (Some bufferSize) timeOut st
      in if ret \<noteq> LOS_OK then (Some ret, st)
         else let ((r, _), st') = OsQueueOperate qid
                    (OS_QUEUE_OPERATE_TYPE OS_QUEUE_READ OS_QUEUE_HEAD OS_QUEUE_POINT)
                    bufferAddr bufferSize timeOut st
              in (r, st'))"

text \<open>
  \<open>LOS_QueueWrite\<close> and \<open>LOS_QueueWriteHead\<close> pass on the address of their own parameter \<open>bufferAddr\<close>;
  \<open>slot\<close> is that address on the stack of the caller.
\<close>

definition LOS_QueueWrite :: "u32 \<Rightarrow> u32 \<Rightarrow> u32 \<Rightarrow> u32 \<Rightarrow> u32 \<Rightarrow> quest \<Rightarrow> u32 option \<times> quest" where
  "LOS_QueueWrite slot qid bufferAddr bufferSize timeOut = (\<lambda>(q, s).
     let st = (q\<lparr>qmem := store32 slot bufferAddr (qmem q)\<rparr>, s);
         ret = OsQueueWriteParameterCheck qid bufferAddr 4 timeOut st
     in if ret \<noteq> LOS_OK then (Some ret, st)
        else let ((r, _), st') = OsQueueOperate qid
                   (OS_QUEUE_OPERATE_TYPE OS_QUEUE_WRITE OS_QUEUE_TAIL OS_QUEUE_POINT) slot 4 timeOut st
             in (r, st'))"

definition LOS_QueueWriteHead :: "u32 \<Rightarrow> u32 \<Rightarrow> u32 \<Rightarrow> u32 \<Rightarrow> u32 \<Rightarrow> quest \<Rightarrow> u32 option \<times> quest" where
  "LOS_QueueWriteHead slot qid bufferAddr bufferSize timeOut = (\<lambda>(q, s).
     let st = (q\<lparr>qmem := store32 slot bufferAddr (qmem q)\<rparr>, s)
     in if bufferAddr = 0 then (Some LOS_ERRNO_QUEUE_WRITE_PTR_NULL, st)
        else LOS_QueueWriteHeadCopy qid slot 4 timeOut st)"

section \<open>Mail\<close>

text \<open>
  A mail is a block of a memory box; the boxes are indexed by their address.  A \<open>NULL\<close> pointer is 0.
  The identifier of the running task is what \<open>LOS_CurTaskIDGet\<close> returns in \<open>LOS_MemboxAlloc\<close>.
\<close>

type_synonym mailst = "(u32 \<Rightarrow> membox) \<times> quest"

definition OsQueueMailAlloc :: "u32 \<Rightarrow> u32 \<Rightarrow> u32 \<Rightarrow> mailst \<Rightarrow> u32 option \<times> mailst" where
  "OsQueueMailAlloc qid mailPool timeOut = (\<lambda>(b, q, s).
     if qid \<ge> OS_ALL_IPC_QUEUE_LIMIT q then (Some 0, (b, q, s))
     else if mailPool = 0 then (Some 0, (b, q, s))
     else if timeOut \<noteq> LOS_NO_WAIT \<and> intActive s then (Some 0, (b, q, s))
     else let i = OsGetQueueHandle qid q
          in if queueState (g_allQueue q i) = OS_QUEUE_UNUSED then (Some 0, (b, q, s))
             else let (mem, m') = LOS_MemboxAlloc (taskID (tcb s (runTask s))) mailPool (b mailPool);
                      b1 = b(mailPool := m')
                  in if mem = 0
                     then if timeOut = LOS_NO_WAIT then (Some mem, (b1, q, s))
                          else (None, (b1, q, LOS_Schedule (OsSchedTaskWait (QueMemList i) timeOut s)))
                     else (Some mem, (b1, q, s)))"

definition OsQueueMailAlloc_resume :: "tptr \<Rightarrow> mailst \<Rightarrow> u32 \<times> mailst" where
  "OsQueueMailAlloc_resume runTsk = (\<lambda>(b, q, s).
     if hasFlag (status s runTsk) OS_TASK_STATUS_TIMEOUT
     then (0, (b, q, clr_status runTsk OS_TASK_STATUS_TIMEOUT s))
     else (msg (tcb s runTsk), (b, q, mod_task runTsk (\<lambda>c. c\<lparr>msg := 0\<rparr>) s)))"

definition OsQueueMailFree :: "u32 \<Rightarrow> u32 \<Rightarrow> u32 \<Rightarrow> mailst \<Rightarrow> u32 \<times> mailst" where
  "OsQueueMailFree qid mailPool mailMem = (\<lambda>(b, q, s).
     if qid \<ge> OS_ALL_IPC_QUEUE_LIMIT q then (LOS_ERRNO_QUEUE_MAIL_HANDLE_INVALID, (b, q, s))
     else if mailPool = 0 then (LOS_ERRNO_QUEUE_MAIL_PTR_INVALID, (b, q, s))
     else let i = OsGetQueueHandle qid q
          in if queueState (g_allQueue q i) = OS_QUEUE_UNUSED then (LOS_ERRNO_QUEUE_NOT_CREATE, (b, q, s))
             else case ls_nodes (lst s) (QueMemList i) of
                    t # _ \<Rightarrow>
                      (let s1 = mod_task t (\<lambda>c. c\<lparr>msg := mailMem\<rparr>) s
                       in (LOS_OK, (b, q, LOS_Schedule (OsSchedTaskWake t s1))))
                  | [] \<Rightarrow>
                      (let (ret, m') = LOS_MemboxFree (TSK_LIMIT (conf s)) mailPool mailMem (b mailPool)
                       in (if ret \<noteq> LOS_OK then LOS_ERRNO_QUEUE_MAIL_FREE_ERROR else LOS_OK,
                           (b(mailPool := m'), q, s))))"

section \<open>Deletion and queries\<close>

text \<open>
  \<open>memFree\<close> is the result of \<open>LOS_MemFree\<close> for an address.  The results are the code and the address
  given to \<open>LOS_MemFree\<close>, if it is called.
\<close>

definition LOS_QueueDelete :: "u32 \<Rightarrow> (u32 \<Rightarrow> u32) \<Rightarrow> quest \<Rightarrow> (u32 \<times> u32 option) \<times> quest" where
  "LOS_QueueDelete qid memFree = (\<lambda>(q, s).
     if qid \<ge> OS_ALL_IPC_QUEUE_LIMIT q then ((LOS_ERRNO_QUEUE_NOT_FOUND, None), (q, s))
     else let i = OsGetQueueHandle qid q; c = g_allQueue q i
          in if queueState c = OS_QUEUE_UNUSED then ((LOS_ERRNO_QUEUE_NOT_CREATE, None), (q, s))
             else if ls_nodes (lst s) (readWriteList i OS_QUEUE_READ) \<noteq> []
                  then ((LOS_ERRNO_QUEUE_IN_TSKUSE, None), (q, s))
             else if ls_nodes (lst s) (readWriteList i OS_QUEUE_WRITE) \<noteq> []
                  then ((LOS_ERRNO_QUEUE_IN_TSKUSE, None), (q, s))
             else if ls_nodes (lst s) (QueMemList i) \<noteq> [] then ((LOS_ERRNO_QUEUE_IN_TSKUSE, None), (q, s))
             else if (ucast (readWriteableCnt c OS_QUEUE_WRITE) + ucast (readWriteableCnt c OS_QUEUE_READ) :: u32)
                     \<noteq> ucast (queueLen c)
                  then ((LOS_ERRNO_QUEUE_IN_TSKWRITE, None), (q, s))
             else let q1 = mod_que i (\<lambda>c. c\<lparr>queue := 0, queueName := 0, queueState := OS_QUEUE_UNUSED\<rparr>) q
                  in if QUEUE_STATIC q \<and> qid \<ge> ucast (QUEUE_LIMIT q) \<and> qid < OS_ALL_IPC_QUEUE_LIMIT q
                     then ((LOS_OK, None), (q1\<lparr>g_freeStaticQueueList := i # g_freeStaticQueueList q1\<rparr>, s))
                     else ((memFree (queue c), Some (queue c)),
                           (q1\<lparr>g_freeQueueList := i # g_freeQueueList q1\<rparr>, s)))"

record QUEUE_INFO_S =
  infoID :: u32
  infoLen :: u16
  infoSize :: u16
  infoHead :: u16
  infoTail :: u16
  writableCnt :: u16
  readableCnt :: u16
  waitReadTask :: "u32 \<Rightarrow> u32"
  waitWriteTask :: "u32 \<Rightarrow> u32"
  waitMemTask :: "u32 \<Rightarrow> u32"

text \<open>One bit per waiting task, in words of 32 bits.\<close>

definition wait_bits :: "ksched \<Rightarrow> lhead \<Rightarrow> u32 \<Rightarrow> u32" where
  "wait_bits s h =
     foldl (\<lambda>a t. let tid = taskID (tcb s t)
                  in a(drop_bit 5 tid := a (drop_bit 5 tid) OR push_bit (unat (tid AND 31)) 1))
           (\<lambda>_. 0) (ls_nodes (lst s) h)"

definition LOS_QueueInfoGet :: "u32 \<Rightarrow> bool \<Rightarrow> quest \<Rightarrow> u32 \<times> QUEUE_INFO_S option" where
  "LOS_QueueInfoGet qid notNull = (\<lambda>(q, s).
     if \<not> notNull then (LOS_ERRNO_QUEUE_PTR_NULL, None)
     else if qid \<ge> OS_ALL_IPC_QUEUE_LIMIT q then (LOS_ERRNO_QUEUE_INVALID, None)
     else let zero = \<lparr>infoID = 0, infoLen = 0, infoSize = 0, infoHead = 0, infoTail = 0, writableCnt = 0,
                      readableCnt = 0, waitReadTask = (\<lambda>_. 0), waitWriteTask = (\<lambda>_. 0), waitMemTask = (\<lambda>_. 0)\<rparr>;
              i = OsGetQueueHandle qid q; c = g_allQueue q i
          in if queueState c = OS_QUEUE_UNUSED then (LOS_ERRNO_QUEUE_NOT_CREATE, Some zero)
             else (LOS_OK, Some \<lparr>infoID = qid, infoLen = queueLen c, infoSize = queueSize c,
                     infoHead = queueHead c, infoTail = queueTail c,
                     writableCnt = readWriteableCnt c OS_QUEUE_WRITE,
                     readableCnt = readWriteableCnt c OS_QUEUE_READ,
                     waitReadTask = wait_bits s (readWriteList i OS_QUEUE_READ),
                     waitWriteTask = wait_bits s (readWriteList i OS_QUEUE_WRITE),
                     waitMemTask = wait_bits s (QueMemList i)\<rparr>))"

end
