(* ===== verification/Queue_Ring.thy ===== *)
theory Queue_Ring
  imports Queue
begin

text \<open>
  The ring buffer of a message queue implements a sequence of nodes: what
  \<open>OsQueueBufferOperate\<close> does to the bytes in memory is to append a node, to put one in front, or to
  take the first one.
\<close>

section \<open>Nodes\<close>

text \<open>A node as a list of bytes: the pointer it holds, the length field at its end, and the message.\<close>

definition le32 :: "u8 list \<Rightarrow> u32" where
  "le32 xs = ucast (xs ! 0) OR push_bit 8 (ucast (xs ! 1)) OR push_bit 16 (ucast (xs ! 2)) OR
     push_bit 24 (ucast (xs ! 3))"

definition msg_len :: "u8 list \<Rightarrow> u32" where
  "msg_len nb = le32 (drop (length nb - 4) nb)"

definition copy_msg :: "u8 list \<Rightarrow> u8 list" where
  "copy_msg nb = take (unat (msg_len nb)) nb"

definition point_msg :: "u8 list \<Rightarrow> u32" where
  "point_msg nb = le32 (take 4 nb)"

definition node_addr :: "LosQueueCB \<Rightarrow> nat \<Rightarrow> u32" where
  "node_addr c p = queue c + of_nat (p * unat (queueSize c))"

definition node_at :: "LosQueueCB \<Rightarrow> mem8 \<Rightarrow> nat \<Rightarrow> u8 list" where
  "node_at c m p = bytes m (node_addr c p) (unat (queueSize c))"

definition contents :: "LosQueueCB \<Rightarrow> mem8 \<Rightarrow> nat \<Rightarrow> u8 list list" where
  "contents c m n = map (\<lambda>j. node_at c m ((unat (queueHead c) + j) mod unat (queueLen c))) [0..<n]"

abbreviation area :: "LosQueueCB \<Rightarrow> nat" where
  "area c \<equiv> unat (queueLen c) * unat (queueSize c)"

text \<open>The control block describes a ring of \<open>n\<close> nodes.\<close>

definition geom_ok :: "LosQueueCB \<Rightarrow> bool" where
  "geom_ok c \<longleftrightarrow> queue c \<noteq> 0 \<and> no_wrap (queue c) (area c) \<and> 0 < unat (queueLen c) \<and> 4 < unat (queueSize c)"

definition ring_ok :: "LosQueueCB \<Rightarrow> nat \<Rightarrow> bool" where
  "ring_ok c n \<longleftrightarrow> geom_ok c \<and> n \<le> unat (queueLen c) \<and> unat (queueHead c) < unat (queueLen c) \<and>
     unat (queueTail c) = (unat (queueHead c) + n) mod unat (queueLen c)"

lemma load32_bytes: "load32 m a = le32 (bytes m a 4)"
  by (simp add: load32_def le32_def)

lemma queueNode_addr: "queueNode c p = node_addr c (unat p)"
  by (simp add: queueNode_def node_addr_def)

lemma node_unat:
  assumes "geom_ok c" and "p < unat (queueLen c)"
  shows "unat (node_addr c p) = unat (queue c) + p * unat (queueSize c)"
    and "unat (node_addr c p) + unat (queueSize c) \<le> unat (queue c) + area c"
    and "no_wrap (node_addr c p) (unat (queueSize c))"
proof -
  have "Suc p * unat (queueSize c) \<le> area c" using assms(2) by (intro mult_right_mono) simp_all
  then have le: "p * unat (queueSize c) + unat (queueSize c) \<le> area c" by simp
  moreover have "0 < unat (queueSize c)" using assms(1) by (simp add: geom_ok_def)
  ultimately have lt: "p * unat (queueSize c) < area c" by linarith
  show u: "unat (node_addr c p) = unat (queue c) + p * unat (queueSize c)"
    unfolding node_addr_def by (rule unat_off [OF _ lt]) (use assms(1) in \<open>simp add: geom_ok_def\<close>)
  show "unat (node_addr c p) + unat (queueSize c) \<le> unat (queue c) + area c" using u le by simp
  then show "no_wrap (node_addr c p) (unat (queueSize c))"
    using assms(1) by (simp add: geom_ok_def no_wrap_def)
qed

lemma node_apart:
  assumes "geom_ok c" and "p < unat (queueLen c)" and "r < unat (queueLen c)" and "p \<noteq> r"
  shows "apart (node_addr c p) (unat (queueSize c)) (node_addr c r) (unat (queueSize c))"
proof -
  have "Suc a * unat (queueSize c) \<le> b * unat (queueSize c)" if "a < b" for a b
    using that by (intro mult_right_mono) simp_all
  from this [of p r] this [of r p]
  have "p * unat (queueSize c) + unat (queueSize c) \<le> r * unat (queueSize c) \<or>
      r * unat (queueSize c) + unat (queueSize c) \<le> p * unat (queueSize c)"
    using assms(4) by (cases "p < r") (auto simp: add.commute)
  then show ?thesis
    using node_unat(1) [OF assms(1,2)] node_unat(1) [OF assms(1,3)] by (auto simp: apart_def)
qed

lemma node_nonzero: "geom_ok c \<Longrightarrow> p < unat (queueLen c) \<Longrightarrow> node_addr c p \<noteq> 0"
  using node_unat(1) [of c p] by (auto simp: geom_ok_def unat_eq_0)

lemma node_frame:
  assumes "geom_ok c" and "p < unat (queueLen c)" and "r < unat (queueLen c)" and "p \<noteq> r"
    and "\<And>x. unat x < unat (node_addr c p) \<or> unat (node_addr c p) + unat (queueSize c) \<le> unat x \<Longrightarrow> m' x = m x"
  shows "node_at c m' r = node_at c m r"
  unfolding node_at_def
proof (rule bytes_eqI)
  fix k
  assume k: "k < unat (queueSize c)"
  show "m' (node_addr c r + of_nat k) = m (node_addr c r + of_nat k)"
    using unat_off [OF node_unat(3) [OF assms(1,3)] k] node_apart [OF assms(1-4)] k
    by (intro assms(5)) (auto simp: apart_def)
qed

lemma area_frame:
  assumes "geom_ok c" and "r < unat (queueLen c)"
    and "\<And>x. unat (queue c) \<le> unat x \<Longrightarrow> unat x < unat (queue c) + area c \<Longrightarrow> m' x = m x"
  shows "node_at c m' r = node_at c m r"
  unfolding node_at_def
proof (rule bytes_eqI)
  fix k
  assume k: "k < unat (queueSize c)"
  show "m' (node_addr c r + of_nat k) = m (node_addr c r + of_nat k)"
    using unat_off [OF node_unat(3) [OF assms(1,2)] k] node_unat(1,2) [OF assms(1,2)] k
    by (intro assms(3)) auto
qed

lemma contents_frame:
  assumes "geom_ok c"
    and "\<And>x. unat (queue c) \<le> unat x \<Longrightarrow> unat x < unat (queue c) + area c \<Longrightarrow> m' x = m x"
  shows "contents c m' n = contents c m n"
  unfolding contents_def by (intro map_cong refl area_frame) (use assms in \<open>auto simp: geom_ok_def\<close>)

section \<open>Positions\<close>

lemma mod_neq:
  assumes "j < n" and "n < (l :: nat)"
  shows "(h + j) mod l \<noteq> (h + n) mod l"
proof
  assume "(h + j) mod l = (h + n) mod l"
  then have "l dvd (h + n) - (h + j)" using assms by (metis add_le_mono less_imp_le mod_eq_dvd_iff_nat order_refl)
  then have "l dvd n - j" by simp
  then show False using assms by (auto dest: dvd_imp_le)
qed

lemma u16_inc:
  assumes "unat (h :: u16) < unat (l :: u16)"
  shows "unat (if (ucast h + 1 :: u32) = ucast l then 0 else h + 1) = (unat h + 1) mod unat l"
proof -
  have l: "unat l < 2 ^ LENGTH(16)" by (rule unsigned_less)
  have u: "unat (ucast h :: u32) = unat h" "unat (ucast l :: u32) = unat l" by (rule unat_ucast_up, simp)+
  have "unat (ucast h + 1 :: u32) = unat h + 1"
    using assms l by (simp add: unat_word_ariths(1) u)
  then have e: "(ucast h + 1 :: u32) = ucast l \<longleftrightarrow> unat h + 1 = unat l"
    using u(2) by (simp add: word_unat_eq_iff)
  have "unat (h + 1) = unat h + 1" using assms by (intro unat_inc) (simp add: word_less_nat_alt)
  then show ?thesis using assms e by auto
qed

lemma u16_dec:
  assumes "unat (h :: u16) < unat (l :: u16)"
  shows "unat (if h = 0 then l - 1 else h - 1) = (unat h + (unat l - 1)) mod unat l"
proof (cases "h = 0")
  case True
  have "0 < l" using assms True by (simp add: word_less_nat_alt)
  then show ?thesis using True unat_dec [of l] assms by simp
next
  case False
  then have "unat (h - 1) = unat h - 1" by (intro unat_dec) (simp add: word_gt_0)
  moreover have "0 < unat h" using False by (simp add: unat_gt_0)
  then have "unat h + (unat l - 1) = unat l + (unat h - 1)" using assms by simp
  then have "(unat h + (unat l - 1)) mod unat l = unat h - 1" using assms by (simp only: mod_add_self1) simp
  ultimately show ?thesis using False by simp
qed

text \<open>The fields of a control block that a transfer does not change.\<close>

definition same_cb :: "LosQueueCB \<Rightarrow> LosQueueCB \<Rightarrow> bool" where
  "same_cb c c' \<longleftrightarrow> queue c' = queue c \<and> queueSize c' = queueSize c \<and> queueLen c' = queueLen c \<and>
     readWriteableCnt c' = readWriteableCnt c \<and> queueState c' = queueState c \<and> queueID c' = queueID c"

lemma same_cb_node: "same_cb c c' \<Longrightarrow> node_at c' m p = node_at c m p"
  by (simp add: same_cb_def node_at_def node_addr_def)

text \<open>Moving the head or the tail.\<close>

lemma position_read:
  assumes "ring_ok c (Suc n)" and "OS_QUEUE_OPERATE_GET ty = OS_QUEUE_READ_HEAD"
  obtains c' where "queue_position ty c = Some (queueHead c, c')" and "ring_ok c' n"
    and "contents c m (Suc n) = node_at c m (unat (queueHead c)) # contents c' m n"
    and "same_cb c c'"
proof -
  let ?h = "if (ucast (queueHead c) + 1 :: u32) = ucast (queueLen c) then 0 else queueHead c + 1"
  let ?c = "c\<lparr>queueHead := ?h\<rparr>"
  let ?l = "unat (queueLen c)"
  have r: "geom_ok c" "unat (queueHead c) < ?l" "Suc n \<le> ?l"
    "unat (queueTail c) = (unat (queueHead c) + Suc n) mod ?l"
    using assms(1) by (simp_all add: ring_ok_def)
  have h: "unat ?h = (unat (queueHead c) + 1) mod ?l" by (rule u16_inc [OF r(2)])
  have p: "queue_position ty c = Some (queueHead c, ?c)" using assms(2) by (simp add: queue_position_def)
  have k: "(unat ?h + j) mod ?l = (unat (queueHead c) + Suc j) mod ?l" for j
    unfolding h by (simp add: mod_add_left_eq)
  have "ring_ok ?c n"
    using r k [of n] h by (simp add: ring_ok_def geom_ok_def)
  moreover have "contents c m (Suc n) = node_at c m (unat (queueHead c)) # contents ?c m n"
  proof (rule nth_equalityI)
    fix j
    assume j: "j < length (contents c m (Suc n))"
    then show "contents c m (Suc n) ! j = (node_at c m (unat (queueHead c)) # contents ?c m n) ! j"
      using r(2) k by (cases j) (simp_all add: contents_def node_at_def node_addr_def del: upt_Suc)
  qed (simp add: contents_def)
  ultimately show ?thesis using that [OF p] by (simp add: same_cb_def)
qed

lemma position_write_tail:
  assumes "ring_ok c n" and "n < unat (queueLen c)" and "OS_QUEUE_OPERATE_GET ty = OS_QUEUE_WRITE_TAIL"
  obtains c' where "queue_position ty c = Some (queueTail c, c')" and "ring_ok c' (Suc n)"
    and "unat (queueTail c) < unat (queueLen c)"
    and "\<And>m m'. (\<And>r. r < unat (queueLen c) \<Longrightarrow> r \<noteq> unat (queueTail c) \<Longrightarrow> node_at c m' r = node_at c m r) \<Longrightarrow>
      contents c' m' (Suc n) = contents c m n @ [node_at c m' (unat (queueTail c))]"
    and "same_cb c c'"
proof -
  let ?h = "if (ucast (queueTail c) + 1 :: u32) = ucast (queueLen c) then 0 else queueTail c + 1"
  let ?c = "c\<lparr>queueTail := ?h\<rparr>"
  let ?l = "unat (queueLen c)"
  have r: "geom_ok c" "unat (queueHead c) < ?l" "unat (queueTail c) = (unat (queueHead c) + n) mod ?l"
    using assms(1) by (simp_all add: ring_ok_def)
  have tl: "unat (queueTail c) < ?l" using r by (simp add: geom_ok_def)
  have h: "unat ?h = (unat (queueTail c) + 1) mod ?l" by (rule u16_inc [OF tl])
  have p: "queue_position ty c = Some (queueTail c, ?c)" using assms(3) by (simp add: queue_position_def)
  have "ring_ok ?c (Suc n)"
    using r h assms(2) by (simp add: ring_ok_def geom_ok_def mod_Suc_eq)
  moreover have "contents ?c m' (Suc n) = contents c m n @ [node_at c m' (unat (queueTail c))]"
    if fr: "\<And>r. r < ?l \<Longrightarrow> r \<noteq> unat (queueTail c) \<Longrightarrow> node_at c m' r = node_at c m r" for m m'
  proof -
    have "node_at c m' ((unat (queueHead c) + j) mod ?l) = node_at c m ((unat (queueHead c) + j) mod ?l)"
      if "j < n" for j
      using mod_neq [OF that assms(2)] r by (intro fr) (auto simp: geom_ok_def)
    then show ?thesis using r(3) by (simp add: contents_def node_at_def node_addr_def)
  qed
  ultimately show ?thesis using that [OF p _ tl] by (simp add: same_cb_def)
qed

lemma position_write_head:
  assumes "ring_ok c n" and "n < unat (queueLen c)" and "OS_QUEUE_OPERATE_GET ty = OS_QUEUE_WRITE_HEAD"
  obtains c' where "queue_position ty c = Some (queueHead c', c')" and "ring_ok c' (Suc n)"
    and "unat (queueHead c') < unat (queueLen c)"
    and "\<And>m m'. (\<And>r. r < unat (queueLen c) \<Longrightarrow> r \<noteq> unat (queueHead c') \<Longrightarrow> node_at c m' r = node_at c m r) \<Longrightarrow>
      contents c' m' (Suc n) = node_at c m' (unat (queueHead c')) # contents c m n"
    and "same_cb c c'"
proof -
  let ?h = "if queueHead c = 0 then queueLen c - 1 else queueHead c - 1"
  let ?c = "c\<lparr>queueHead := ?h\<rparr>"
  let ?l = "unat (queueLen c)"
  have r: "geom_ok c" "unat (queueHead c) < ?l" "unat (queueTail c) = (unat (queueHead c) + n) mod ?l"
    using assms(1) by (simp_all add: ring_ok_def)
  have h: "unat ?h = (unat (queueHead c) + (?l - 1)) mod ?l" by (rule u16_dec [OF r(2)])
  have hl: "unat ?h < ?l" using h r by (simp add: geom_ok_def)
  have p: "queue_position ty c = Some (?h, ?c)" using assms(3) by (simp add: queue_position_def Let_def)
  have k: "(unat ?h + Suc j) mod ?l = (unat (queueHead c) + j) mod ?l" for j
  proof -
    have "(unat ?h + Suc j) mod ?l = (unat (queueHead c) + (?l - 1) + Suc j) mod ?l"
      unfolding h by (rule mod_add_left_eq)
    also have "unat (queueHead c) + (?l - 1) + Suc j = unat (queueHead c) + j + ?l" using r(2) by simp
    finally show ?thesis by simp
  qed
  have "ring_ok ?c (Suc n)"
    using r(1,3) hl k [of n] assms(2) by (simp add: ring_ok_def geom_ok_def)
  moreover have "contents ?c m' (Suc n) = node_at c m' (unat ?h) # contents c m n"
    if fr: "\<And>r. r < ?l \<Longrightarrow> r \<noteq> unat ?h \<Longrightarrow> node_at c m' r = node_at c m r" for m m'
  proof -
    have f: "node_at c m' ((unat (queueHead c) + j) mod ?l) = node_at c m ((unat (queueHead c) + j) mod ?l)"
      if "j < n" for j
      using mod_neq [of j "?l - 1" ?l "unat (queueHead c)"] that assms(2) h r
      by (intro fr) (auto simp: geom_ok_def)
    show ?thesis
    proof (rule nth_equalityI)
      fix j
      assume j: "j < length (contents ?c m' (Suc n))"
      then show "contents ?c m' (Suc n) ! j = (node_at c m' (unat ?h) # contents c m n) ! j"
        using hl k f by (cases j) (simp_all add: contents_def node_at_def node_addr_def del: upt_Suc)
    qed (simp add: contents_def)
  qed
  ultimately show ?thesis using that [of ?c] p hl by (simp add: same_cb_def)
qed

section \<open>Transfers\<close>

lemma drop_bytes: "drop k (bytes m a n) = bytes m (a + of_nat k) (n - k)"
  by (rule nth_equalityI) (simp_all add: add.assoc)

lemma msg_len_node:
  assumes "4 < unat (queueSize c)"
  shows "msg_len (node_at c m p) = load32 m ((node_addr c p + ucast (queueSize c)) - 4)"
proof -
  have "(of_nat (unat (queueSize c) - 4) :: u32) = ucast (queueSize c) - 4"
    using assms by (simp add: of_nat_diff)
  then have e: "node_addr c p + of_nat (unat (queueSize c) - 4) = (node_addr c p + ucast (queueSize c)) - 4" by simp
  have "unat (queueSize c) - (unat (queueSize c) - 4) = 4" using assms by simp
  then show ?thesis
    by (simp only: msg_len_def node_at_def load32_bytes drop_bytes bytes_length e)
qed

text \<open>What a write puts in a node and what a read delivers.\<close>

definition wrote :: "u32 \<Rightarrow> mem8 \<Rightarrow> u32 \<Rightarrow> u32 \<Rightarrow> u8 list \<Rightarrow> bool" where
  "wrote ty m buf sz nb \<longleftrightarrow>
     (if OS_QUEUE_IS_POINT ty then point_msg nb = load32 m buf
      else msg_len nb = sz \<and> copy_msg nb = bytes m buf (unat sz))"

definition got :: "u32 \<Rightarrow> u8 list \<Rightarrow> mem8 \<Rightarrow> u32 \<Rightarrow> u32 \<Rightarrow> u32 \<Rightarrow> bool" where
  "got ty nb m' buf sz sz' \<longleftrightarrow>
     (if OS_QUEUE_IS_POINT ty then load32 m' buf = point_msg nb
      else sz' = min sz (msg_len nb) \<and> bytes m' buf (unat sz') = take (unat sz') nb)"

text \<open>The buffer of the caller, as the operation uses it, lies apart from the queue.\<close>

definition buf_len :: "u32 \<Rightarrow> u32 \<Rightarrow> nat" where
  "buf_len ty sz = (if OS_QUEUE_IS_POINT ty then 4 else unat sz)"

definition buf_ok :: "LosQueueCB \<Rightarrow> u32 \<Rightarrow> u32 \<Rightarrow> u32 \<Rightarrow> bool" where
  "buf_ok c ty buf sz \<longleftrightarrow> buf \<noteq> 0 \<and> no_wrap buf (buf_len ty sz) \<and> apart buf (buf_len ty sz) (queue c) (area c)"

lemma unat_size [simp]: "unat (ucast (x :: u16) :: u32) = unat x"
  by (rule unat_ucast_up) simp

lemma len_addr:
  assumes "geom_ok c" and "p < unat (queueLen c)"
  shows "unat ((node_addr c p + ucast (queueSize c)) - 4) = unat (node_addr c p) + unat (queueSize c) - 4"
    and "no_wrap ((node_addr c p + ucast (queueSize c)) - 4) 4"
proof -
  have g: "4 < unat (queueSize c)" using assms(1) by (simp add: geom_ok_def)
  have "(of_nat (unat (queueSize c) - 4) :: u32) = ucast (queueSize c) - 4" using g by (simp add: of_nat_diff)
  then have e: "(node_addr c p + ucast (queueSize c)) - 4 = node_addr c p + of_nat (unat (queueSize c) - 4)" by simp
  show u: "unat ((node_addr c p + ucast (queueSize c)) - 4) = unat (node_addr c p) + unat (queueSize c) - 4"
    unfolding e using unat_off [OF node_unat(3) [OF assms], of "unat (queueSize c) - 4"] g by linarith
  show "no_wrap ((node_addr c p + ucast (queueSize c)) - 4) 4"
    using u node_unat(3) [OF assms] g by (simp add: no_wrap_def)
qed

lemma write_copy:
  fixes m :: mem8
  assumes g: "geom_ok c" and p: "p < unat (queueLen c)" and b: "buf_ok c ty buf sz" and pt: "\<not> OS_QUEUE_IS_POINT ty"
    and sz: "0 < sz" "unat sz + 4 \<le> unat (queueSize c)"
  defines "m1 \<equiv> store32 ((node_addr c p + ucast (queueSize c)) - 4) sz m"
  shows "\<exists>m2. memcpy_s (node_addr c p) (ucast (queueSize c)) buf sz m1 = (EOK, m2) \<and>
     wrote ty m buf sz (node_at c m2 p) \<and>
     (\<forall>x. unat x < unat (node_addr c p) \<or> unat (node_addr c p) + unat (queueSize c) \<le> unat x \<longrightarrow> m2 x = m x)"
proof -
  let ?n = "node_addr c p" and ?S = "unat (queueSize c)" and ?la = "(node_addr c p + ucast (queueSize c)) - 4"
  let ?m2 = "memcpy ?n buf sz m1"
  note nu = node_unat [OF g p]
  note la = len_addr [OF g p]
  have bw: "no_wrap buf (unat sz)" "buf \<noteq> 0" "apart buf (unat sz) (queue c) (area c)"
    using b pt by (simp_all add: buf_ok_def buf_len_def)
  then have ap: "unat buf + unat sz \<le> unat ?n \<or> unat ?n + ?S \<le> unat buf"
    using nu(1,2) by (auto simp: apart_def)
  have w: "no_wrap ?n (unat sz)" using nu(3) sz by (simp add: no_wrap_def)
  have "ucast (queueSize c) \<le> SECUREC_MEM_MAX_LEN"
  proof -
    have "?S < 2 ^ LENGTH(16)" by (rule unsigned_less)
    then show ?thesis by (simp add: word_le_nat_alt SECUREC_MEM_MAX_LEN_def)
  qed
  then have r: "memcpy_s ?n (ucast (queueSize c)) buf sz m1 = (EOK, ?m2)"
    using w bw sz ap node_nonzero [OF g p]
    by (intro memcpy_s_apart) (auto simp: apart_def word_le_nat_alt)
  have out: "?m2 x = m x" if "unat x < unat ?n \<or> unat ?n + ?S \<le> unat x" for x
  proof -
    have "?m2 x = m1 x" using that sz(2) by (intro memcpy_outside [OF w]) auto
    also have "\<dots> = m x"
      unfolding m1_def using that la(1) g by (intro store32_outside [OF la(2)]) (auto simp: geom_ok_def)
    finally show ?thesis .
  qed
  have "load32 ?m2 ?la = load32 m1 ?la"
  proof (rule load32_cong)
    fix k :: nat
    assume "k < 4"
    then show "?m2 (?la + of_nat k) = m1 (?la + of_nat k)"
      using unat_off [OF la(2), of k] la(1) sz(2) by (intro memcpy_outside [OF w] disjI2) linarith
  qed
  then have ml: "msg_len (node_at c ?m2 p) = sz"
    using msg_len_node [of c ?m2 p] g by (simp add: geom_ok_def m1_def)
  have "copy_msg (node_at c ?m2 p) = bytes ?m2 ?n (unat sz)"
    unfolding copy_msg_def ml using sz(2) by (simp add: node_at_def take_bytes)
  also have "\<dots> = bytes m buf (unat sz)"
  proof (rule bytes_eqI)
    fix k
    assume k: "k < unat sz"
    have "?m2 (?n + of_nat k) = m1 (buf + of_nat k)" by (rule memcpy_inside [OF k])
    also have "\<dots> = m (buf + of_nat k)"
      unfolding m1_def using unat_off [OF bw(1) k] ap k la(1) sz(2) g
      by (intro store32_outside [OF la(2)]) (auto simp: geom_ok_def)
    finally show "?m2 (?n + of_nat k) = m (buf + of_nat k)" .
  qed
  finally show ?thesis using r out ml pt by (intro exI [of _ ?m2]) (simp add: wrote_def)
qed

lemma write_point:
  fixes m :: mem8 and buf :: u32
  assumes g: "geom_ok c" and p: "p < unat (queueLen c)" and pt: "OS_QUEUE_IS_POINT ty"
  defines "m2 \<equiv> store32 (node_addr c p) (load32 m buf) m"
  shows "wrote ty m buf sz (node_at c m2 p)"
    and "\<And>x. unat x < unat (node_addr c p) \<or> unat (node_addr c p) + unat (queueSize c) \<le> unat x \<Longrightarrow> m2 x = m x"
proof -
  have s: "4 < unat (queueSize c)" using g by (simp add: geom_ok_def)
  have "point_msg (node_at c m2 p) = load32 m2 (node_addr c p)"
    using s by (simp add: point_msg_def node_at_def take_bytes load32_bytes)
  then show "wrote ty m buf sz (node_at c m2 p)" using pt by (simp add: wrote_def m2_def)
  have w: "no_wrap (node_addr c p) 4" using node_unat(3) [OF g p] s by (simp add: no_wrap_def)
  show "m2 x = m x" if "unat x < unat (node_addr c p) \<or> unat (node_addr c p) + unat (queueSize c) \<le> unat x" for x
    unfolding m2_def using that s by (intro store32_outside [OF w]) auto
qed

lemma memcpy_s_apart0:
  assumes "no_wrap d (unat count)" and "no_wrap s (unat count)" and "apart d (unat count) s (unat count)"
    and "s \<noteq> 0" and "d \<noteq> 0" and "count \<le> destMax" and "destMax \<le> SECUREC_MEM_MAX_LEN" and "0 < destMax"
  shows "memcpy_s d destMax s count m = (EOK, memcpy d s count m)"
proof (cases "count = 0")
  case True
  then have "memcpy d s count m = m" by (auto simp: memcpy_def)
  then show ?thesis
    using True assms by (auto simp: memcpy_s_def SECUREC_MEMCPY_PARAM_OK_def SecMemcpyError_def
        SECUREC_MEMORY_IS_OVERLAP_def not_less)
next
  case False
  then show ?thesis using memcpy_s_apart assms by (simp add: word_gt_0)
qed

lemma read_copy:
  fixes m :: mem8
  assumes g: "geom_ok c" and p: "p < unat (queueLen c)" and b: "buf_ok c ty buf sz" and pt: "\<not> OS_QUEUE_IS_POINT ty"
    and sz: "0 < sz" "sz < SECUREC_MEM_MAX_LEN" and ml: "unat (msg_len (node_at c m p)) \<le> unat (queueSize c)"
  defines "d \<equiv> min sz (msg_len (node_at c m p))"
  shows "\<exists>m2. memcpy_s buf sz (node_addr c p) d m = (EOK, m2) \<and> got ty (node_at c m p) m2 buf sz d \<and>
     (\<forall>x. unat x < unat buf \<or> unat buf + buf_len ty sz \<le> unat x \<longrightarrow> m2 x = m x)"
proof -
  let ?n = "node_addr c p" and ?m2 = "memcpy buf (node_addr c p) d m"
  note nu = node_unat [OF g p]
  have d: "unat d \<le> unat sz" "unat d \<le> unat (queueSize c)"
    using ml by (simp_all add: d_def min_def word_le_nat_alt)
  have bw: "no_wrap buf (unat sz)" "buf \<noteq> 0" "apart buf (unat sz) (queue c) (area c)"
    using b pt by (simp_all add: buf_ok_def buf_len_def)
  have w: "no_wrap buf (unat d)" "no_wrap ?n (unat d)" using bw(1) nu(3) d by (simp_all add: no_wrap_def)
  have ap: "apart buf (unat d) ?n (unat d)" using bw(3) nu(1,2) d by (auto simp: apart_def)
  have r: "memcpy_s buf sz ?n d m = (EOK, ?m2)"
    using w ap bw(2) node_nonzero [OF g p] d(1) sz(1) less_imp_le [OF sz(2)]
    by (intro memcpy_s_apart0) (simp_all add: word_le_nat_alt)
  have "bytes ?m2 buf (unat d) = bytes m ?n (unat d)" by (rule bytes_eqI) (rule memcpy_inside)
  also have "\<dots> = take (unat d) (node_at c m p)" using d(2) by (simp add: node_at_def take_bytes)
  finally have "got ty (node_at c m p) ?m2 buf sz d" using pt by (simp add: got_def d_def)
  moreover have "?m2 x = m x" if "unat x < unat buf \<or> unat buf + buf_len ty sz \<le> unat x" for x
    using that d(1) pt by (intro memcpy_outside [OF w(1)]) (auto simp: buf_len_def)
  ultimately show ?thesis using r by blast
qed

text \<open>The types of operation the interface functions use.\<close>

definition valid_type :: "u32 \<Rightarrow> bool" where
  "valid_type ty \<longleftrightarrow> ty \<in> {0, 1, 3, 4, 7}"

definition put :: "u32 \<Rightarrow> 'a \<Rightarrow> 'a list \<Rightarrow> 'a list" where
  "put ty x xs = (if OS_QUEUE_OPERATE_GET ty = OS_QUEUE_WRITE_HEAD then x # xs else xs @ [x])"

lemma BufferOperate_write:
  assumes r: "ring_ok (g_allQueue q i) n" and n: "n < unat (queueLen (g_allQueue q i))"
    and ty: "valid_type ty" "OS_QUEUE_IS_WRITE ty" and b: "buf_ok (g_allQueue q i) ty buf sz"
    and sz: "\<not> OS_QUEUE_IS_POINT ty \<Longrightarrow> 0 < sz \<and> unat sz + 4 \<le> unat (queueSize (g_allQueue q i))"
  obtains c' m' nb where "OsQueueBufferOperate i ty buf sz q = (sz, (mod_que i (\<lambda>_. c') q)\<lparr>qmem := m'\<rparr>)"
    and "same_cb (g_allQueue q i) c'" and "ring_ok c' (Suc n)"
    and "contents c' m' (Suc n) = put ty nb (contents (g_allQueue q i) (qmem q) n)"
    and "wrote ty (qmem q) buf sz nb"
    and "\<And>x. unat x < unat (queue (g_allQueue q i)) \<or>
           unat (queue (g_allQueue q i)) + area (g_allQueue q i) \<le> unat x \<Longrightarrow> m' x = qmem q x"
proof -
  let ?c = "g_allQueue q i" and ?m = "qmem q"
  have g: "geom_ok ?c" using r by (simp add: ring_ok_def)
  have W: "\<not> OS_QUEUE_IS_READ ty" using ty(2) by (simp add: OS_QUEUE_IS_READ_def OS_QUEUE_IS_WRITE_def)
  have "OS_QUEUE_OPERATE_GET ty = OS_QUEUE_WRITE_HEAD \<or> OS_QUEUE_OPERATE_GET ty = OS_QUEUE_WRITE_TAIL"
    using ty by (auto simp: valid_type_def OS_QUEUE_IS_WRITE_def OS_QUEUE_READ_WRITE_GET_def OS_QUEUE_OPERATE_GET_def)
  then obtain pos c' where pos: "queue_position ty ?c = Some (pos, c')" "ring_ok c' (Suc n)"
      "unat pos < unat (queueLen ?c)" "same_cb ?c c'"
    and cont: "\<And>m'. (\<And>r. r < unat (queueLen ?c) \<Longrightarrow> r \<noteq> unat pos \<Longrightarrow> node_at ?c m' r = node_at ?c ?m r) \<Longrightarrow>
      contents c' m' (Suc n) = put ty (node_at ?c m' (unat pos)) (contents ?c ?m n)"
  proof
    assume h: "OS_QUEUE_OPERATE_GET ty = OS_QUEUE_WRITE_HEAD"
    obtain c1 where a: "queue_position ty ?c = Some (queueHead c1, c1)" "ring_ok c1 (Suc n)"
      "unat (queueHead c1) < unat (queueLen ?c)" "same_cb ?c c1"
      "\<And>m'. (\<And>r. r < unat (queueLen ?c) \<Longrightarrow> r \<noteq> unat (queueHead c1) \<Longrightarrow> node_at ?c m' r = node_at ?c ?m r) \<Longrightarrow>
        contents c1 m' (Suc n) = node_at ?c m' (unat (queueHead c1)) # contents ?c ?m n"
      by (rule position_write_head [OF r n h]) blast
    show thesis by (rule that [OF a(1-4)]) (simp add: put_def h, rule a(5), blast)
  next
    assume h: "OS_QUEUE_OPERATE_GET ty = OS_QUEUE_WRITE_TAIL"
    obtain c1 where a: "queue_position ty ?c = Some (queueTail ?c, c1)" "ring_ok c1 (Suc n)"
      "unat (queueTail ?c) < unat (queueLen ?c)" "same_cb ?c c1"
      "\<And>m'. (\<And>r. r < unat (queueLen ?c) \<Longrightarrow> r \<noteq> unat (queueTail ?c) \<Longrightarrow> node_at ?c m' r = node_at ?c ?m r) \<Longrightarrow>
        contents c1 m' (Suc n) = contents ?c ?m n @ [node_at ?c m' (unat (queueTail ?c))]"
      by (rule position_write_tail [OF r n h]) blast
    show thesis by (rule that [OF a(1-4)]) (simp add: put_def h, rule a(5), blast)
  qed
  let ?n = "node_addr ?c (unat pos)"
  have node: "queueNode c' pos = ?n" using pos(4) by (simp add: queueNode_addr same_cb_def node_addr_def)
  have size: "queueSize c' = queueSize ?c" using pos(4) by (simp add: same_cb_def)
  obtain m' where op: "OsQueueBufferOperate i ty buf sz q = (sz, (mod_que i (\<lambda>_. c') q)\<lparr>qmem := m'\<rparr>)"
    and w: "wrote ty ?m buf sz (node_at ?c m' (unat pos))"
    and out: "\<And>x. unat x < unat ?n \<or> unat ?n + unat (queueSize ?c) \<le> unat x \<Longrightarrow> m' x = ?m x"
  proof (cases "OS_QUEUE_IS_POINT ty")
    case True
    then show thesis
      using that [of "store32 ?n (load32 ?m buf) ?m"] write_point [OF g pos(3) True, where m = ?m and buf = buf]
      by (simp add: OsQueueBufferOperate_def pos(1) node W Let_def)
  next
    case False
    obtain m2 where "memcpy_s ?n (ucast (queueSize ?c)) buf sz (store32 ((?n + ucast (queueSize ?c)) - 4) sz ?m) = (EOK, m2)"
      "wrote ty ?m buf sz (node_at ?c m2 (unat pos))"
      "\<And>x. unat x < unat ?n \<or> unat ?n + unat (queueSize ?c) \<le> unat x \<Longrightarrow> m2 x = ?m x"
      using write_copy [OF g pos(3) b False, where m = ?m] sz [OF False] by blast
    then show thesis
      by (intro that [of m2]) (simp_all add: OsQueueBufferOperate_def pos(1) node size W False Let_def)
  qed
  have nu: "unat (queue ?c) \<le> unat ?n" "unat ?n + unat (queueSize ?c) \<le> unat (queue ?c) + area ?c"
    using node_unat [OF g pos(3)] by simp_all
  show thesis
  proof (rule that [OF op pos(4,2) cont w])
    show "node_at ?c m' r = node_at ?c ?m r" if "r < unat (queueLen ?c)" "r \<noteq> unat pos" for r
      by (rule node_frame [OF g pos(3) that(1)]) (use that out in auto)
    show "m' x = ?m x" if "unat x < unat (queue ?c) \<or> unat (queue ?c) + area ?c \<le> unat x" for x
      using that nu by (intro out) auto
  qed
qed

lemma BufferOperate_read:
  assumes r: "ring_ok (g_allQueue q i) (Suc n)"
    and ty: "valid_type ty" "OS_QUEUE_IS_READ ty" and b: "buf_ok (g_allQueue q i) ty buf sz"
    and sz: "\<not> OS_QUEUE_IS_POINT ty \<Longrightarrow> 0 < sz \<and> sz < SECUREC_MEM_MAX_LEN"
  obtains c' m' nb sz' where "OsQueueBufferOperate i ty buf sz q = (sz', (mod_que i (\<lambda>_. c') q)\<lparr>qmem := m'\<rparr>)"
    and "same_cb (g_allQueue q i) c'" and "ring_ok c' n"
    and "contents (g_allQueue q i) (qmem q) (Suc n) = nb # contents c' m' n"
    and "OS_QUEUE_IS_POINT ty \<or> unat (msg_len nb) \<le> unat (queueSize (g_allQueue q i)) \<Longrightarrow> got ty nb m' buf sz sz'"
    and "\<And>x. unat x < unat buf \<or> unat buf + buf_len ty sz \<le> unat x \<Longrightarrow> m' x = qmem q x"
proof -
  let ?c = "g_allQueue q i" and ?m = "qmem q"
  let ?h = "unat (queueHead ?c)"
  have g: "geom_ok ?c" and h: "?h < unat (queueLen ?c)" using r by (simp_all add: ring_ok_def)
  have R: "OS_QUEUE_OPERATE_GET ty = OS_QUEUE_READ_HEAD"
    using ty by (auto simp: valid_type_def OS_QUEUE_IS_READ_def OS_QUEUE_READ_WRITE_GET_def OS_QUEUE_OPERATE_GET_def)
  obtain c' where pos: "queue_position ty ?c = Some (queueHead ?c, c')" "ring_ok c' n"
      "contents ?c ?m (Suc n) = node_at ?c ?m ?h # contents c' ?m n" "same_cb ?c c'"
    by (rule position_read [OF r R, of ?m])
  have node: "queueNode c' (queueHead ?c) = node_addr ?c ?h"
    using pos(4) by (simp add: queueNode_addr same_cb_def node_addr_def)
  have size: "queueSize c' = queueSize ?c" using pos(4) by (simp add: same_cb_def)
  obtain m' sz' where op: "OsQueueBufferOperate i ty buf sz q = (sz', (mod_que i (\<lambda>_. c') q)\<lparr>qmem := m'\<rparr>)"
    and gt: "OS_QUEUE_IS_POINT ty \<or> unat (msg_len (node_at ?c ?m ?h)) \<le> unat (queueSize ?c) \<Longrightarrow>
      got ty (node_at ?c ?m ?h) m' buf sz sz'"
    and out: "\<And>x. unat x < unat buf \<or> unat buf + buf_len ty sz \<le> unat x \<Longrightarrow> m' x = ?m x"
  proof (cases "OS_QUEUE_IS_POINT ty")
    case True
    have "no_wrap buf 4" using b True by (simp add: buf_ok_def buf_len_def)
    then show thesis
      using that [of sz "store32 buf (load32 ?m (node_addr ?c ?h)) ?m"] True g
      by (simp add: OsQueueBufferOperate_def pos(1) node ty(2) Let_def got_def buf_len_def store32_outside
          point_msg_def node_at_def take_bytes load32_bytes [of ?m] geom_ok_def)
  next
    case False
    have la: "load32 ?m ((node_addr ?c ?h + ucast (queueSize ?c)) - 4) = msg_len (node_at ?c ?m ?h)"
      using msg_len_node [of ?c ?m ?h] g by (simp add: geom_ok_def)
    have mn: "(if sz < l then sz else l) = min sz l" for l :: u32 by (auto simp: min_def)
    let ?d = "min sz (msg_len (node_at ?c ?m ?h))"
    obtain rc m' where cp: "memcpy_s buf sz (node_addr ?c ?h) ?d ?m = (rc, m')" by force
    have w: "no_wrap buf (unat sz)" using b False by (simp add: buf_ok_def buf_len_def)
    have out: "m' x = ?m x" if "unat x < unat buf \<or> unat buf + buf_len ty sz \<le> unat x" for x
      using memcpy_s_outside [OF w cp] that False by (simp add: buf_len_def)
    have "rc = EOK \<and> got ty (node_at ?c ?m ?h) m' buf sz ?d"
      if "unat (msg_len (node_at ?c ?m ?h)) \<le> unat (queueSize ?c)"
      using read_copy [OF g h b False _ _ that] sz [OF False] cp by auto
    then show thesis
      using out cp False by (intro that [of "if rc \<noteq> EOK then sz else ?d" m'])
        (auto simp: OsQueueBufferOperate_def pos(1) node size ty(2) Let_def la mn)
  qed
  have "m' x = ?m x" if "unat (queue ?c) \<le> unat x" "unat x < unat (queue ?c) + area ?c" for x
    using that b by (intro out) (auto simp: buf_ok_def apart_def)
  then have "contents c' m' n = contents c' ?m n"
    using pos(2,4) by (intro contents_frame) (auto simp: ring_ok_def same_cb_def)
  then show thesis using that [OF op pos(4,2) _ gt out] pos(3) by simp
qed

end
