(* ===== verification/Queue_Inv.thy ===== *)
theory Queue_Inv
  imports Queue_Ring
begin

text \<open>
  The invariant of the message queues.  The counters of a queue do not account for the tasks that
  have been woken and have not run yet: such a task owns a node that neither counter shows.  The
  state of a history therefore includes, for each task inside a blocking call, what it will do when
  it continues.
\<close>

section \<open>Histories\<close>

record qcont =
  kQue :: nat
  kType :: u32
  kBuf :: u32
  kSize :: u32

type_synonym qhist = "queues \<times> ksched \<times> (tptr \<Rightarrow> qcont option)"

abbreviation kSide :: "qcont \<Rightarrow> u32" where
  "kSide c \<equiv> OS_QUEUE_READ_WRITE_GET (kType c)"

abbreviation que_wait :: "ksched \<Rightarrow> nat \<Rightarrow> u32 \<Rightarrow> tptr list" where
  "que_wait s i rw \<equiv> ls_nodes (lst s) (readWriteList i rw)"

text \<open>The task is inside the call and has not timed out; it has been given a node.\<close>

definition live :: "ksched \<Rightarrow> (tptr \<Rightarrow> qcont option) \<Rightarrow> tptr \<Rightarrow> qcont \<Rightarrow> bool" where
  "live s k t c \<longleftrightarrow> k t = Some c \<and> \<not> hasFlag (status s t) OS_TASK_STATUS_TIMEOUT"

definition granted :: "ksched \<Rightarrow> (tptr \<Rightarrow> qcont option) \<Rightarrow> nat \<Rightarrow> u32 \<Rightarrow> tptr set" where
  "granted s k i rw = {t. \<exists>c. live s k t c \<and> kQue c = i \<and> kSide c = rw \<and> t \<notin> set (que_wait s i rw)}"

definition cnt :: "qhist \<Rightarrow> nat \<Rightarrow> u32 \<Rightarrow> nat" where
  "cnt = (\<lambda>(q, s, k) i rw. unat (readWriteableCnt (g_allQueue q i) rw) + card (granted s k i rw))"

definition all_queues :: "queues \<Rightarrow> nat" where
  "all_queues q = unat (QUEUE_LIMIT q) + (if QUEUE_STATIC q then unat (STATIC_QUEUE_LIMIT q) else 0)"

definition used :: "queues \<Rightarrow> nat \<Rightarrow> bool" where
  "used q i \<longleftrightarrow> i < all_queues q \<and> queueState (g_allQueue q i) \<noteq> OS_QUEUE_UNUSED"

text \<open>
  In the middle of an operation one node of a queue has been taken on one side and not been given
  back on the other side yet: a debt.
\<close>

definition owed :: "(nat \<times> u32) option \<Rightarrow> nat \<Rightarrow> u32 \<Rightarrow> nat" where
  "owed d i rw = (if d = Some (i, rw) then 1 else 0)"

definition msgs :: "(nat \<times> u32) option \<Rightarrow> qhist \<Rightarrow> nat \<Rightarrow> u8 list list" where
  "msgs d = (\<lambda>(q, s, k) i. contents (g_allQueue q i) (qmem q) (cnt (q, s, k) i 0 + owed d i 0))"

section \<open>Invariant\<close>

definition q_free :: "queues \<Rightarrow> bool" where
  "q_free q \<longleftrightarrow> all_queues q < 65536 \<and> distinct (g_freeQueueList q) \<and>
     (QUEUE_STATIC q \<longrightarrow> distinct (g_freeStaticQueueList q)) \<and>
     (\<forall>i. i \<in> set (g_freeQueueList q) \<longleftrightarrow>
        i < unat (QUEUE_LIMIT q) \<and> queueState (g_allQueue q i) = OS_QUEUE_UNUSED) \<and>
     (\<forall>i. QUEUE_STATIC q \<longrightarrow> (i \<in> set (g_freeStaticQueueList q) \<longleftrightarrow>
        unat (QUEUE_LIMIT q) \<le> i \<and> i < all_queues q \<and> queueState (g_allQueue q i) = OS_QUEUE_UNUSED)) \<and>
     (\<forall>i < all_queues q. queueID (g_allQueue q i) = of_nat i)"

definition q_count :: "(nat \<times> u32) option \<Rightarrow> qhist \<Rightarrow> bool" where
  "q_count d = (\<lambda>(q, s, k). \<forall>i. used q i \<longrightarrow>
     ring_ok (g_allQueue q i) (cnt (q, s, k) i 0 + owed d i 0) \<and>
     cnt (q, s, k) i 0 + cnt (q, s, k) i 1 + owed d i 0 + owed d i 1 = unat (queueLen (g_allQueue q i)) \<and>
     (\<forall>rw \<in> {0, 1}. readWriteableCnt (g_allQueue q i) rw \<noteq> 0 \<longrightarrow> que_wait s i rw = []))"

definition op_ok :: "queues \<Rightarrow> qcont \<Rightarrow> bool" where
  "op_ok q c \<longleftrightarrow> used q (kQue c) \<and> valid_type (kType c) \<and>
     (\<forall>j. used q j \<longrightarrow> buf_ok (g_allQueue q j) (kType c) (kBuf c) (kSize c)) \<and>
     (\<not> OS_QUEUE_IS_POINT (kType c) \<longrightarrow> 0 < kSize c \<and> kSize c < SECUREC_MEM_MAX_LEN \<and>
        (OS_QUEUE_IS_WRITE (kType c) \<longrightarrow> unat (kSize c) + 4 \<le> unat (queueSize (g_allQueue q (kQue c)))))"

definition q_conts :: "qhist \<Rightarrow> bool" where
  "q_conts = (\<lambda>(q, s, k). finite (dom k) \<and> (\<forall>t c. live s k t c \<longrightarrow> op_ok q c) \<and>
     (\<forall>i. \<forall>rw \<in> {0, 1}. \<forall>t \<in> set (que_wait s i rw). \<exists>c. live s k t c \<and> kQue c = i \<and> kSide c = rw) \<and>
     (\<forall>i. \<not> used q i \<longrightarrow> ls_nodes (lst s) (QueMemList i) = []))"

definition q_apart :: "queues \<Rightarrow> bool" where
  "q_apart q \<longleftrightarrow> (\<forall>i j. used q i \<and> used q j \<and> i \<noteq> j \<longrightarrow>
     apart (queue (g_allQueue q i)) (area (g_allQueue q i)) (queue (g_allQueue q j)) (area (g_allQueue q j)))"

definition que_inv :: "(nat \<times> u32) option \<Rightarrow> qhist \<Rightarrow> bool" where
  "que_inv d = (\<lambda>(q, s, k). sched_inv s \<and> q_free q \<and> q_count d (q, s, k) \<and> q_conts (q, s, k) \<and> q_apart q)"

lemma que_invD:
  assumes "que_inv d (q, s, k)"
  shows "sched_inv s" "q_free q" "q_count d (q, s, k)" "q_conts (q, s, k)" "q_apart q"
  using assms by (simp_all add: que_inv_def)

lemma que_invI:
  "sched_inv s \<Longrightarrow> q_free q \<Longrightarrow> q_count d (q, s, k) \<Longrightarrow> q_conts (q, s, k) \<Longrightarrow> q_apart q \<Longrightarrow> que_inv d (q, s, k)"
  by (simp add: que_inv_def)

lemma q_countD:
  assumes "q_count d (q, s, k)" and "used q i"
  shows "ring_ok (g_allQueue q i) (cnt (q, s, k) i 0 + owed d i 0)"
    "cnt (q, s, k) i 0 + cnt (q, s, k) i 1 + owed d i 0 + owed d i 1 = unat (queueLen (g_allQueue q i))"
    "rw \<in> {0, 1} \<Longrightarrow> readWriteableCnt (g_allQueue q i) rw \<noteq> 0 \<Longrightarrow> que_wait s i rw = []"
  using assms by (auto simp: q_count_def)

lemma q_contsD:
  assumes "q_conts (q, s, k)"
  shows "finite (dom k)" "live s k t c \<Longrightarrow> op_ok q c"
    "rw \<in> {0, 1} \<Longrightarrow> t \<in> set (que_wait s i rw) \<Longrightarrow> \<exists>c. live s k t c \<and> kQue c = i \<and> kSide c = rw"
    "\<not> used q i \<Longrightarrow> ls_nodes (lst s) (QueMemList i) = []"
  using assms by (auto simp: q_conts_def)

section \<open>The tasks that have been given a node\<close>

lemma finite_granted: "finite (dom k) \<Longrightarrow> finite (granted s k i rw)"
  by (rule finite_subset [of _ "dom k"]) (auto simp: granted_def live_def)

lemma side_cases: "OS_QUEUE_READ_WRITE_GET ty = 0 \<or> OS_QUEUE_READ_WRITE_GET ty = 1"
  by (auto simp: OS_QUEUE_READ_WRITE_GET_def and_one_eq odd_iff_mod_2_eq_one)

lemma readWriteList_wait [simp]: "is_wait (readWriteList i rw)"
  by (simp add: readWriteList_def)

lemma readWriteList_eq: "rw \<in> {0, 1} \<Longrightarrow> rw' \<in> {0, 1} \<Longrightarrow> readWriteList i rw = readWriteList j rw' \<longleftrightarrow> i = j \<and> rw = rw'"
  by (auto simp: readWriteList_def)

lemma readWriteList_mem [simp]: "readWriteList i rw \<noteq> QueMemList j" "QueMemList j \<noteq> readWriteList i rw"
  by (simp_all add: readWriteList_def)

text \<open>
  A change that keeps the time-out flags and, for the tasks inside a call, the wait lists, keeps
  what has been granted.
\<close>

lemma granted_cong:
  assumes "\<And>t. k t \<noteq> None \<Longrightarrow> hasFlag (status s' t) OS_TASK_STATUS_TIMEOUT = hasFlag (status s t) OS_TASK_STATUS_TIMEOUT"
    and "\<And>t. k t \<noteq> None \<Longrightarrow> t \<in> set (que_wait s' i rw) \<longleftrightarrow> t \<in> set (que_wait s i rw)"
  shows "granted s' k i rw = granted s k i rw"
  using assms unfolding granted_def live_def by (auto; metis option.distinct(1))

lemma woken_timeout [simp]:
  "hasFlag (woken_status st) OS_TASK_STATUS_TIMEOUT = hasFlag st OS_TASK_STATUS_TIMEOUT"
  by (auto simp: woken_status_def Let_def)

lemma wake_timeout [simp]:
  "hasFlag (status (OsSchedTaskWake t s) u) OS_TASK_STATUS_TIMEOUT = hasFlag (status s u) OS_TASK_STATUS_TIMEOUT"
  by (simp add: TaskWake_status_at)

lemma wait_timeout [simp]:
  "hasFlag (status (OsSchedTaskWait h n s) u) OS_TASK_STATUS_TIMEOUT = hasFlag (status s u) OS_TASK_STATUS_TIMEOUT"
  by (simp add: TaskWait_tcb)

lemma live_cong:
  "(\<And>t. hasFlag (status s' t) OS_TASK_STATUS_TIMEOUT = hasFlag (status s t) OS_TASK_STATUS_TIMEOUT) \<Longrightarrow>
   live s' k = live s k"
  by (simp add: live_def fun_eq_iff)

text \<open>Waking the first task on a side of a queue gives it a node.\<close>

lemma wake_grants:
  assumes inv: "sched_inv s" and k: "q_conts (q, s, k)" and rw: "rw \<in> {0, 1}" and w: "que_wait s i rw = t # ts"
  defines "s' \<equiv> LOS_Schedule (OsSchedTaskWake t s)"
  shows "sched_inv s'" and "que_wait s' i rw = ts"
    and "\<And>h. is_wait h \<Longrightarrow> h \<noteq> readWriteList i rw \<Longrightarrow> ls_nodes (lst s') h = ls_nodes (lst s) h"
    and "card (granted s' k i rw) = Suc (card (granted s k i rw))"
    and "\<And>j rw'. rw' \<in> {0, 1} \<Longrightarrow> (j, rw') \<noteq> (i, rw) \<Longrightarrow> granted s' k j rw' = granted s k j rw'"
proof -
  note wf = wq.wake_first [OF inv readWriteList_wait w]
  show "sched_inv s'" using wf(1) by (simp add: s'_def)
  show w': "que_wait s' i rw = ts" using wf(2) by (simp add: s'_def)
  show o: "is_wait h \<Longrightarrow> h \<noteq> readWriteList i rw \<Longrightarrow> ls_nodes (lst s') h = ls_nodes (lst s) h" for h
    using wf(3) by (simp add: s'_def)
  have to: "hasFlag (status s' u) OS_TASK_STATUS_TIMEOUT = hasFlag (status s u) OS_TASK_STATUS_TIMEOUT" for u
    by (simp add: s'_def)
  obtain c where c: "live s k t c" "kQue c = i" "kSide c = rw" using q_contsD(3) [OF k rw, of t i] w by auto
  have d: "t \<notin> set ts" using wq.distinct_waiters [OF inv, of "readWriteList i rw"] w by simp
  have "granted s' k i rw = insert t (granted s k i rw)"
    using c d w w' live_cong [of s' s k, OF to] by (auto simp: granted_def live_def)
  moreover have "t \<notin> granted s k i rw" using w by (simp add: granted_def)
  ultimately show "card (granted s' k i rw) = Suc (card (granted s k i rw))"
    using finite_granted [OF q_contsD(1) [OF k]] by simp
  show "granted s' k j rw' = granted s k j rw'" if "rw' \<in> {0, 1}" "(j, rw') \<noteq> (i, rw)" for j rw'
    using that rw o readWriteList_eq [of rw' rw j i] to by (intro granted_cong) auto
qed

text \<open>An operation that changes one queue only.\<close>

lemma que_inv_update:
  assumes inv: "que_inv d (q, s, k)" and s': "sched_inv s'"
    and cb: "\<And>j. j \<noteq> i \<Longrightarrow> g_allQueue q' j = g_allQueue q j"
    and geo: "queue (g_allQueue q' i) = queue (g_allQueue q i)" "queueSize (g_allQueue q' i) = queueSize (g_allQueue q i)"
      "queueLen (g_allQueue q' i) = queueLen (g_allQueue q i)" "queueState (g_allQueue q' i) = queueState (g_allQueue q i)"
      "queueID (g_allQueue q' i) = queueID (g_allQueue q i)"
    and conf: "QUEUE_STATIC q' = QUEUE_STATIC q" "QUEUE_LIMIT q' = QUEUE_LIMIT q"
      "STATIC_QUEUE_LIMIT q' = STATIC_QUEUE_LIMIT q" "g_freeQueueList q' = g_freeQueueList q"
      "g_freeStaticQueueList q' = g_freeStaticQueueList q"
    and wt: "\<And>j rw. rw \<in> {0, 1} \<Longrightarrow> j \<noteq> i \<Longrightarrow> que_wait s' j rw = que_wait s j rw"
      "\<And>rw. rw \<in> {0, 1} \<Longrightarrow> set (que_wait s' i rw) \<subseteq> set (que_wait s i rw)"
      "\<And>j. ls_nodes (lst s') (QueMemList j) = ls_nodes (lst s) (QueMemList j)"
    and to: "\<And>t. hasFlag (status s' t) OS_TASK_STATUS_TIMEOUT = hasFlag (status s t) OS_TASK_STATUS_TIMEOUT"
    and dd: "\<And>j rw. j \<noteq> i \<Longrightarrow> d \<noteq> Some (j, rw) \<and> d' \<noteq> Some (j, rw)"
    and own: "used q i \<Longrightarrow> ring_ok (g_allQueue q' i) (cnt (q', s', k) i 0 + owed d' i 0)"
      "used q i \<Longrightarrow> cnt (q', s', k) i 0 + cnt (q', s', k) i 1 + owed d' i 0 + owed d' i 1 = unat (queueLen (g_allQueue q i))"
      "\<And>rw. used q i \<Longrightarrow> rw \<in> {0, 1} \<Longrightarrow> readWriteableCnt (g_allQueue q' i) rw \<noteq> 0 \<Longrightarrow> que_wait s' i rw = []"
  shows "que_inv d' (q', s', k)" and "\<And>j. j \<noteq> i \<Longrightarrow> cnt (q', s', k) j 0 + owed d' j 0 = cnt (q, s, k) j 0 + owed d j 0"
proof -
  note D = que_invD [OF inv]
  have all: "all_queues q' = all_queues q" using conf by (simp add: all_queues_def)
  have us: "used q' j = used q j" for j using cb geo all by (cases "j = i") (simp_all add: used_def)
  have gr: "granted s' k j rw = granted s k j rw" if "j \<noteq> i" "rw \<in> {0, 1}" for j rw
    using that wt(1) to by (intro granted_cong) auto
  then have ct: "cnt (q', s', k) j rw = cnt (q, s, k) j rw" if "j \<noteq> i" "rw \<in> {0, 1}" for j rw
    using that cb by (simp add: cnt_def)
  have ow: "owed d' j rw = owed d j rw" if "j \<noteq> i" for j rw using dd [OF that] by (simp add: owed_def)
  show "cnt (q', s', k) j 0 + owed d' j 0 = cnt (q, s, k) j 0 + owed d j 0" if "j \<noteq> i" for j
    using ct [OF that] ow [OF that] by simp
  have gs: "queue (g_allQueue q' j) = queue (g_allQueue q j)" "queueSize (g_allQueue q' j) = queueSize (g_allQueue q j)"
    "queueLen (g_allQueue q' j) = queueLen (g_allQueue q j)" "queueState (g_allQueue q' j) = queueState (g_allQueue q j)"
    "queueID (g_allQueue q' j) = queueID (g_allQueue q j)" for j
    using cb geo by (cases "j = i"; simp)+
  show "que_inv d' (q', s', k)"
  proof (rule que_invI [OF s'])
    show "q_free q'" using D(2) by (simp add: q_free_def all conf gs)
    show "q_count d' (q', s', k)"
      unfolding q_count_def prod.case
    proof (intro allI impI)
      fix j
      assume u: "used q' j"
      show "ring_ok (g_allQueue q' j) (cnt (q', s', k) j 0 + owed d' j 0) \<and>
        cnt (q', s', k) j 0 + cnt (q', s', k) j 1 + owed d' j 0 + owed d' j 1 = unat (queueLen (g_allQueue q' j)) \<and>
        (\<forall>rw\<in>{0, 1}. readWriteableCnt (g_allQueue q' j) rw \<noteq> 0 \<longrightarrow> que_wait s' j rw = [])"
      proof (cases "j = i")
        case True
        then show ?thesis using u own us geo(3) by auto
      next
        case False
        then show ?thesis
          using q_countD [OF D(3), of j] u us ct ow cb wt(1) by auto
      qed
    qed
    have "live s' k = live s k" using to by (rule live_cong)
    moreover have "op_ok q' c = op_ok q c" for c
      by (simp add: op_ok_def us gs buf_ok_def)
    moreover have "t \<in> set (que_wait s j rw)" if "rw \<in> {0, 1}" "t \<in> set (que_wait s' j rw)" for t j rw
      using that wt(1) [OF that(1)] wt(2) [OF that(1)] by (cases "j = i") auto
    ultimately show "q_conts (q', s', k)"
      using D(4) wt(3) us unfolding q_conts_def prod.case by metis
    show "q_apart q'" using D(5) by (simp add: q_apart_def us gs)
  qed
qed

section \<open>A transfer pays the debt\<close>

lemma contents_cnt [simp]: "contents (c\<lparr>readWriteableCnt := f\<rparr>) m n = contents c m n"
  by (simp add: contents_def node_at_def node_addr_def)

lemma ring_ok_cnt [simp]: "ring_ok (c\<lparr>readWriteableCnt := f\<rparr>) n = ring_ok c n"
  by (simp add: ring_ok_def geom_ok_def)

lemma contents_length: "nb \<in> set (contents c m n) \<Longrightarrow> length nb = unat (queueSize c)"
  by (auto simp: contents_def node_at_def)

text \<open>
  The effect of a transfer on the sequence of messages: a read delivers the first one (in copy mode
  as much of it as the buffer holds, provided that its length field is sound), a write puts the
  contents of the buffer at the end or in front.
\<close>

definition moved :: "u32 \<Rightarrow> u32 \<Rightarrow> u32 \<Rightarrow> u32 \<Rightarrow> mem8 \<Rightarrow> mem8 \<Rightarrow> u8 list list \<Rightarrow> u8 list list \<Rightarrow> bool" where
  "moved ty buf sz sz' m m' xs xs' \<longleftrightarrow>
     (if OS_QUEUE_IS_READ ty
      then \<exists>nb. xs = nb # xs' \<and>
             (OS_QUEUE_IS_POINT ty \<or> unat (msg_len nb) \<le> length nb \<longrightarrow> got ty nb m' buf sz sz')
      else \<exists>nb. xs' = put ty nb xs \<and> wrote ty m buf sz nb \<and> sz' = sz)"

text \<open>The part of \<open>queue_transfer\<close> on the control block and the memory.\<close>

lemma transfer_buffer:
  assumes inv: "que_inv (Some (i, OS_QUEUE_READ_WRITE_GET ty)) (q, s, k)"
    and op: "op_ok q \<lparr>kQue = i, kType = ty, kBuf = buf, kSize = sz\<rparr>"
  defines "n \<equiv> cnt (q, s, k) i 0"
  obtains sz' c' m' where "OsQueueBufferOperate i ty buf sz q = (sz', (mod_que i (\<lambda>_. c') q)\<lparr>qmem := m'\<rparr>)"
    and "same_cb (g_allQueue q i) c'" and "ring_ok c' (if OS_QUEUE_IS_READ ty then n else Suc n)"
    and "moved ty buf sz sz' (qmem q) m'
       (contents (g_allQueue q i) (qmem q) (if OS_QUEUE_IS_READ ty then Suc n else n))
       (contents c' m' (if OS_QUEUE_IS_READ ty then n else Suc n))"
    and "\<And>j m. used q j \<Longrightarrow> j \<noteq> i \<Longrightarrow> contents (g_allQueue q j) m' m = contents (g_allQueue q j) (qmem q) m"
proof -
  let ?c = "g_allQueue q i"
  have u: "used q i" and ty: "valid_type ty" and bj: "\<And>j. used q j \<Longrightarrow> buf_ok (g_allQueue q j) ty buf sz"
    and sz: "\<not> OS_QUEUE_IS_POINT ty \<Longrightarrow> 0 < sz \<and> sz < SECUREC_MEM_MAX_LEN \<and>
        (OS_QUEUE_IS_WRITE ty \<longrightarrow> unat sz + 4 \<le> unat (queueSize ?c))"
    using op by (auto simp: op_ok_def)
  note D = que_invD [OF inv]
  note C = q_countD [OF D(3) u]
  have g: "geom_ok (g_allQueue q j)" if "used q j" for j
    using q_countD(1) [OF D(3) that] by (simp add: ring_ok_def)
  show thesis
  proof (cases "OS_QUEUE_IS_READ ty")
    case True
    then have rw: "OS_QUEUE_READ_WRITE_GET ty = 0" by (simp add: OS_QUEUE_IS_READ_def)
    have "ring_ok ?c (Suc n)" using C(1) rw by (simp add: n_def owed_def)
    then obtain c' m' nb sz' where r: "OsQueueBufferOperate i ty buf sz q = (sz', (mod_que i (\<lambda>_. c') q)\<lparr>qmem := m'\<rparr>)"
      "same_cb ?c c'" "ring_ok c' n" "contents ?c (qmem q) (Suc n) = nb # contents c' m' n"
      "OS_QUEUE_IS_POINT ty \<or> unat (msg_len nb) \<le> unat (queueSize ?c) \<Longrightarrow> got ty nb m' buf sz sz'"
      "\<And>x. unat x < unat buf \<or> unat buf + buf_len ty sz \<le> unat x \<Longrightarrow> m' x = qmem q x"
      using BufferOperate_read [of q i n ty buf sz] ty True bj [OF u] sz by metis
    have "length nb = unat (queueSize ?c)" using contents_length [of nb ?c "qmem q" "Suc n"] r(4) by simp
    moreover have "contents (g_allQueue q j) m' m = contents (g_allQueue q j) (qmem q) m" if "used q j" for j m
      using bj [OF that] by (intro contents_frame [OF g [OF that]] r(6)) (auto simp: buf_ok_def apart_def)
    ultimately show thesis using that [OF r(1,2)] r(3-5) True by (simp add: moved_def)
  next
    case False
    then have rw: "OS_QUEUE_READ_WRITE_GET ty = 1" using side_cases [of ty] by (auto simp: OS_QUEUE_IS_READ_def)
    then have W: "OS_QUEUE_IS_WRITE ty" by (simp add: OS_QUEUE_IS_WRITE_def)
    have n: "ring_ok ?c n" "n < unat (queueLen ?c)" using C(1,2) rw by (simp_all add: n_def owed_def)
    obtain c' m' nb where r: "OsQueueBufferOperate i ty buf sz q = (sz, (mod_que i (\<lambda>_. c') q)\<lparr>qmem := m'\<rparr>)"
      "same_cb ?c c'" "ring_ok c' (Suc n)" "contents c' m' (Suc n) = put ty nb (contents ?c (qmem q) n)"
      "wrote ty (qmem q) buf sz nb"
      "\<And>x. unat x < unat (queue ?c) \<or> unat (queue ?c) + area ?c \<le> unat x \<Longrightarrow> m' x = qmem q x"
      using BufferOperate_write [OF n ty W bj [OF u]] sz W by metis
    have "contents (g_allQueue q j) m' m = contents (g_allQueue q j) (qmem q) m" if "used q j" "j \<noteq> i" for j m
    proof -
      have "apart (queue ?c) (area ?c) (queue (g_allQueue q j)) (area (g_allQueue q j))"
        using D(5) u that unfolding q_apart_def by blast
      then show ?thesis by (intro contents_frame [OF g [OF that(1)]] r(6)) (auto simp: apart_def)
    qed
    then show thesis using that [OF r(1,2)] r(3-5) False by (auto simp: moved_def)
  qed
qed

lemma queue_transfer_ok:
  assumes inv: "que_inv (Some (i, OS_QUEUE_READ_WRITE_GET ty)) (q, s, k)"
    and op: "op_ok q \<lparr>kQue = i, kType = ty, kBuf = buf, kSize = sz\<rparr>"
  obtains sz' q' s' where "queue_transfer i ty buf sz (q, s) = (sz', (q', s'))" and "que_inv None (q', s', k)"
    and "moved ty buf sz sz' (qmem q) (qmem q') (msgs (Some (i, OS_QUEUE_READ_WRITE_GET ty)) (q, s, k) i) (msgs None (q', s', k) i)"
    and "\<And>j. used q j \<Longrightarrow> j \<noteq> i \<Longrightarrow> msgs None (q', s', k) j = msgs None (q, s, k) j"
proof -
  let ?rw = "OS_QUEUE_READ_WRITE_GET ty" and ?n = "cnt (q, s, k) i 0"
  let ?tmp = "if ?rw = 0 then 1 else 0 :: u32"
  have u: "used q i" using op by (simp add: op_ok_def)
  note D = que_invD [OF inv]
  note C = q_countD [OF D(3) u]
  have tmp: "?tmp \<in> {0, 1}" "?rw \<in> {0, 1}" "?tmp \<noteq> ?rw" "OS_QUEUE_IS_READ ty \<longleftrightarrow> ?rw = 0"
    using side_cases [of ty] by (auto simp: OS_QUEUE_IS_READ_def)
  obtain sz' c' m' where b: "OsQueueBufferOperate i ty buf sz q = (sz', (mod_que i (\<lambda>_. c') q)\<lparr>qmem := m'\<rparr>)"
    "same_cb (g_allQueue q i) c'" "ring_ok c' (if OS_QUEUE_IS_READ ty then ?n else Suc ?n)"
    "moved ty buf sz sz' (qmem q) m'
       (contents (g_allQueue q i) (qmem q) (if OS_QUEUE_IS_READ ty then Suc ?n else ?n))
       (contents c' m' (if OS_QUEUE_IS_READ ty then ?n else Suc ?n))"
    "\<And>j m. used q j \<Longrightarrow> j \<noteq> i \<Longrightarrow> contents (g_allQueue q j) m' m = contents (g_allQueue q j) (qmem q) m"
    by (rule transfer_buffer [OF inv op]) blast
  let ?q1 = "(mod_que i (\<lambda>_. c') q)\<lparr>qmem := m'\<rparr>"
  let ?f = "(readWriteableCnt c')(?tmp := readWriteableCnt c' ?tmp + 1)"
  obtain q' s' where t: "queue_transfer i ty buf sz (q, s) = (sz', (q', s'))" "sched_inv s'"
    and qq: "q' = (mod_que i (\<lambda>_. c'\<lparr>readWriteableCnt := readWriteableCnt (g_allQueue q' i)\<rparr>) q)\<lparr>qmem := m'\<rparr>"
    and ct: "cnt (q', s', k) i ?tmp = Suc (cnt (q, s, k) i ?tmp)" "cnt (q', s', k) i ?rw = cnt (q, s, k) i ?rw"
    and wt: "\<And>rw. rw \<in> {0, 1} \<Longrightarrow> readWriteableCnt (g_allQueue q' i) rw \<noteq> 0 \<Longrightarrow> que_wait s' i rw = []"
      "\<And>j rw. rw \<in> {0, 1} \<Longrightarrow> j \<noteq> i \<Longrightarrow> que_wait s' j rw = que_wait s j rw"
      "\<And>rw. rw \<in> {0, 1} \<Longrightarrow> set (que_wait s' i rw) \<subseteq> set (que_wait s i rw)"
      "\<And>j. ls_nodes (lst s') (QueMemList j) = ls_nodes (lst s) (QueMemList j)"
    and to: "\<And>t. hasFlag (status s' t) OS_TASK_STATUS_TIMEOUT = hasFlag (status s t) OS_TASK_STATUS_TIMEOUT"
  proof (cases "que_wait s i ?tmp")
    case Nil
    have "unat (readWriteableCnt c' ?tmp) < unat (queueLen (g_allQueue q i))"
      using C(2) tmp b(2) by (auto simp: same_cb_def cnt_def owed_def)
    then have "unat (readWriteableCnt c' ?tmp + 1) = Suc (unat (readWriteableCnt c' ?tmp))"
      using unat_inc [of "readWriteableCnt c' ?tmp" "queueLen (g_allQueue q i)"] by (simp add: word_less_nat_alt)
    then show thesis
      using Nil tmp b(1,2) D(1) C(3)
      by (intro that [of "mod_que i (\<lambda>c. c\<lparr>readWriteableCnt := ?f\<rparr>) ?q1" s])
        (auto simp: queue_transfer_def Let_def cnt_def same_cb_def split: if_splits)
  next
    case (Cons t ts)
    note w = wake_grants [OF D(1) D(4) tmp(1) Cons]
    have cb: "readWriteableCnt c' = readWriteableCnt (g_allQueue q i)" using b(2) by (simp add: same_cb_def)
    have z: "readWriteableCnt (g_allQueue q i) ?tmp = 0"
      by (rule ccontr) (use C(3) [OF tmp(1)] Cons in simp)
    have oth: "que_wait (LOS_Schedule (OsSchedTaskWake t s)) j rw = que_wait s j rw"
      if "rw \<in> {0, 1}" "(j, rw) \<noteq> (i, ?tmp)" for j rw
      using that w(3) [of "readWriteList j rw"] tmp(1) readWriteList_eq [of rw ?tmp j i] by auto
    show thesis
    proof (rule that [of ?q1 "LOS_Schedule (OsSchedTaskWake t s)"])
      show "queue_transfer i ty buf sz (q, s) = (sz', (?q1, LOS_Schedule (OsSchedTaskWake t s)))"
        using Cons b(1) by (simp add: queue_transfer_def Let_def)
      show "sched_inv (LOS_Schedule (OsSchedTaskWake t s))" by (rule w(1))
      show "cnt (?q1, LOS_Schedule (OsSchedTaskWake t s), k) i ?tmp = Suc (cnt (q, s, k) i ?tmp)"
        using w(4) by (simp add: cnt_def cb)
      show "cnt (?q1, LOS_Schedule (OsSchedTaskWake t s), k) i ?rw = cnt (q, s, k) i ?rw"
        using w(5) [OF tmp(2)] tmp(3) by (simp add: cnt_def cb)
      show "que_wait (LOS_Schedule (OsSchedTaskWake t s)) i rw = []"
        if "rw \<in> {0, 1}" "readWriteableCnt (g_allQueue ?q1 i) rw \<noteq> 0" for rw
      proof -
        have "rw \<noteq> ?tmp" "readWriteableCnt (g_allQueue q i) rw \<noteq> 0" using that(2) z cb by auto
        then show ?thesis using oth [OF that(1)] C(3) [OF that(1)] by auto
      qed
      show "set (que_wait (LOS_Schedule (OsSchedTaskWake t s)) i rw) \<subseteq> set (que_wait s i rw)"
        if "rw \<in> {0, 1}" for rw
        using oth [OF that, of i] w(2) Cons by (cases "rw = ?tmp") auto
      show "que_wait (LOS_Schedule (OsSchedTaskWake t s)) j rw = que_wait s j rw" if "rw \<in> {0, 1}" "j \<noteq> i" for j rw
        using oth that by auto
      show "ls_nodes (lst (LOS_Schedule (OsSchedTaskWake t s))) (QueMemList j) = ls_nodes (lst s) (QueMemList j)" for j
        by (rule w(3)) simp_all
    qed simp_all
  qed
  have n': "cnt (q', s', k) i 0 = (if OS_QUEUE_IS_READ ty then ?n else Suc ?n)" using ct tmp by (auto split: if_splits)
  have ci: "g_allQueue q' i = c'\<lparr>readWriteableCnt := readWriteableCnt (g_allQueue q' i)\<rparr>" "qmem q' = m'"
    by (subst qq, simp)+
  have sc: "queue (g_allQueue q' i) = queue (g_allQueue q i)" "queueSize (g_allQueue q' i) = queueSize (g_allQueue q i)"
      "queueLen (g_allQueue q' i) = queueLen (g_allQueue q i)" "queueState (g_allQueue q' i) = queueState (g_allQueue q i)"
      "queueID (g_allQueue q' i) = queueID (g_allQueue q i)"
    using b(2) by (subst ci(1), simp add: same_cb_def)+
  have cj: "g_allQueue q' j = g_allQueue q j" if "j \<noteq> i" for j by (subst qq, simp add: that)
  have cf: "QUEUE_STATIC q' = QUEUE_STATIC q" "QUEUE_LIMIT q' = QUEUE_LIMIT q"
      "STATIC_QUEUE_LIMIT q' = STATIC_QUEUE_LIMIT q" "g_freeQueueList q' = g_freeQueueList q"
      "g_freeStaticQueueList q' = g_freeStaticQueueList q"
    by (subst qq, simp)+
  have rg: "ring_ok (g_allQueue q' i) (cnt (q', s', k) i 0 + owed None i 0)"
    unfolding n' by (subst ci(1)) (simp add: b(3) owed_def)
  have sum: "cnt (q', s', k) i 0 + cnt (q', s', k) i 1 + owed None i 0 + owed None i 1 = unat (queueLen (g_allQueue q i))"
    using C(2) ct tmp by (auto simp: owed_def split: if_splits)
  have i2: "que_inv None (q', s', k)"
    by (rule que_inv_update(1) [OF inv t(2), where i = i])
      (assumption | rule cj sc cf wt(2) wt(3) wt(4) to rg sum wt(1) | simp)+
  have mi: "msgs (Some (i, ?rw)) (q, s, k) i =
      contents (g_allQueue q i) (qmem q) (if OS_QUEUE_IS_READ ty then Suc ?n else ?n)"
    using tmp(4) by (simp add: msgs_def owed_def)
  have mi': "msgs None (q', s', k) i = contents c' m' (if OS_QUEUE_IS_READ ty then ?n else Suc ?n)"
    unfolding msgs_def prod.case n' by (subst ci(1)) (simp add: owed_def ci(2))
  have "msgs None (q', s', k) j = msgs None (q, s, k) j" if "used q j" "j \<noteq> i" for j
  proof -
    have "cnt (q', s', k) j 0 + owed None j 0 = cnt (q, s, k) j 0 + owed (Some (i, ?rw)) j 0"
      by (rule que_inv_update(2) [OF inv t(2), where i = i])
        (assumption | rule cj sc cf wt(2) wt(3) wt(4) to rg sum wt(1) that | simp)+
    then show ?thesis using b(5) [OF that] cj [OF that(2)] that by (simp add: msgs_def owed_def ci(2))
  qed
  then show thesis using that [OF t(1) i2] b(4) mi mi' ci(2) by simp
qed

section \<open>Operations\<close>

lemma unat_all: "unat (OS_ALL_IPC_QUEUE_LIMIT q) = all_queues q"
proof -
  have "unat (QUEUE_LIMIT q) < 2 ^ LENGTH(16)" "unat (STATIC_QUEUE_LIMIT q) < 2 ^ LENGTH(16)"
    by (rule unsigned_less)+
  then show ?thesis by (simp add: OS_ALL_IPC_QUEUE_LIMIT_def all_queues_def unat_word_ariths(1))
qed

lemma handle_index:
  assumes "qid < OS_ALL_IPC_QUEUE_LIMIT q"
  shows "OsGetQueueHandle qid q = unat qid" and "unat qid < all_queues q"
proof -
  have "unat (QUEUE_LIMIT q) + unat (qid - ucast (QUEUE_LIMIT q)) = unat qid" if "ucast (QUEUE_LIMIT q) \<le> qid"
    using that unat_sub [OF that] by (simp add: word_le_nat_alt)
  then show "OsGetQueueHandle qid q = unat qid" using assms by (simp add: OsGetQueueHandle_def)
  show "unat qid < all_queues q" using assms by (simp add: unat_all [symmetric] word_less_nat_alt)
qed

lemma take_debt:
  assumes inv: "que_inv None (q, s, k)" and u: "used q i" and rw: "rw \<in> {0, 1}"
    and nz: "readWriteableCnt (g_allQueue q i) rw \<noteq> 0"
  defines "q' \<equiv> mod_que i (\<lambda>c. c\<lparr>readWriteableCnt := (readWriteableCnt c)(rw := readWriteableCnt c rw - 1)\<rparr>) q"
  shows "que_inv (Some (i, rw)) (q', s, k)" and "msgs (Some (i, rw)) (q', s, k) i = msgs None (q, s, k) i"
    and "\<And>j. j \<noteq> i \<Longrightarrow> msgs None (q', s, k) j = msgs None (q, s, k) j"
proof -
  note D = que_invD [OF inv]
  note C = q_countD [OF D(3) u]
  have "0 < readWriteableCnt (g_allQueue q i) rw" using nz by (simp add: word_gt_0)
  then have dec: "unat (readWriteableCnt (g_allQueue q i) rw - 1) = unat (readWriteableCnt (g_allQueue q i) rw) - 1"
    by (rule unat_dec)
  moreover have "0 < unat (readWriteableCnt (g_allQueue q i) rw)" using nz by (simp add: unat_gt_0)
  ultimately have ct: "Suc (cnt (q', s, k) i rw) = cnt (q, s, k) i rw" by (simp add: cnt_def q'_def)
  have ct': "cnt (q', s, k) j rw' = cnt (q, s, k) j rw'" if "(j, rw') \<noteq> (i, rw)" for j rw'
    using that by (auto simp: cnt_def q'_def)
  have n0: "cnt (q', s, k) i 0 + owed (Some (i, rw)) i 0 = cnt (q, s, k) i 0"
    using ct ct' [of i 0] rw by (auto simp: owed_def)
  have n1: "cnt (q', s, k) i 1 + owed (Some (i, rw)) i 1 = cnt (q, s, k) i 1"
    using ct ct' [of i 1] rw by (auto simp: owed_def)
  have rg: "ring_ok (g_allQueue q' i) (cnt (q', s, k) i 0 + owed (Some (i, rw)) i 0)"
    unfolding n0 using C(1) by (simp add: q'_def owed_def)
  have sum: "cnt (q', s, k) i 0 + cnt (q', s, k) i 1 + owed (Some (i, rw)) i 0 + owed (Some (i, rw)) i 1 =
      unat (queueLen (g_allQueue q i))"
    using C(2) n0 n1 by (simp add: owed_def)
  have wt: "que_wait s i r = []" if "r \<in> {0, 1}" "readWriteableCnt (g_allQueue q' i) r \<noteq> 0" for r
  proof -
    have "readWriteableCnt (g_allQueue q i) r \<noteq> 0" using that(2) nz by (auto simp: q'_def split: if_splits)
    then show ?thesis using C(3) [OF that(1)] by simp
  qed
  show "que_inv (Some (i, rw)) (q', s, k)"
    by (rule que_inv_update(1) [OF inv D(1), where i = i])
      (assumption | rule rg sum wt refl | simp add: q'_def)+
  show "msgs (Some (i, rw)) (q', s, k) i = msgs None (q, s, k) i"
    unfolding msgs_def prod.case n0 by (simp add: q'_def owed_def)
  show "msgs None (q', s, k) j = msgs None (q, s, k) j" if "j \<noteq> i" for j
    using that ct' [of j 0] by (simp add: msgs_def owed_def) (simp add: q'_def)
qed

text \<open>The task that continues gives up its claim on a node and uses it.\<close>

lemma resume_debt:
  assumes inv: "que_inv None (q, s, k)" and c: "live s k t c" and p: "\<not> hasFlag (status s t) OS_TASK_STATUS_PEND"
  shows "que_inv (Some (kQue c, kSide c)) (q, s, k(t := None))"
    and "msgs (Some (kQue c, kSide c)) (q, s, k(t := None)) (kQue c) = msgs None (q, s, k) (kQue c)"
    and "\<And>j. j \<noteq> kQue c \<Longrightarrow> msgs None (q, s, k(t := None)) j = msgs None (q, s, k) j"
proof -
  note D = que_invD [OF inv]
  let ?i = "kQue c" and ?rw = "kSide c" and ?k = "k(t := None)"
  have kt: "k t = Some c" using c by (simp add: live_def)
  have nw: "t \<notin> set (que_wait s j rw)" for j rw
    using waiter_pend [OF D(1), of "readWriteList j rw" t] p by auto
  have g: "granted s ?k ?i ?rw = granted s k ?i ?rw - {t}" "t \<in> granted s k ?i ?rw"
    using c nw by (auto simp: granted_def live_def)
  have ct: "Suc (cnt (q, s, ?k) ?i ?rw) = cnt (q, s, k) ?i ?rw"
    using card_Suc_Diff1 [OF finite_granted [OF q_contsD(1) [OF D(4)]] g(2)] g(1) by (simp add: cnt_def)
  have "granted s ?k j r = granted s k j r" if "(j, r) \<noteq> (?i, ?rw)" for j r
    using that kt by (auto simp: granted_def live_def split: if_splits)
  then have ct': "cnt (q, s, ?k) j r = cnt (q, s, k) j r" if "(j, r) \<noteq> (?i, ?rw)" for j r
    using that by (simp add: cnt_def)
  have rw: "?rw \<in> {0, 1}" using side_cases by simp
  have n: "cnt (q, s, ?k) j r + owed (Some (?i, ?rw)) j r = cnt (q, s, k) j r" for j r
    using ct ct' [of j r] by (cases "(j, r) = (?i, ?rw)") (auto simp: owed_def)
  have "q_count (Some (?i, ?rw)) (q, s, ?k)"
    unfolding q_count_def prod.case
  proof (intro allI impI conjI)
    fix j
    assume u: "used q j"
    note C = q_countD [OF D(3) u]
    show "ring_ok (g_allQueue q j) (cnt (q, s, ?k) j 0 + owed (Some (?i, ?rw)) j 0)"
      using C(1) by (simp add: n) (simp add: owed_def)
    show "cnt (q, s, ?k) j 0 + cnt (q, s, ?k) j 1 + owed (Some (?i, ?rw)) j 0 + owed (Some (?i, ?rw)) j 1 =
        unat (queueLen (g_allQueue q j))"
      using C(2) n [of j 0] n [of j 1] by (simp add: owed_def)
    show "\<forall>r\<in>{0, 1}. readWriteableCnt (g_allQueue q j) r \<noteq> 0 \<longrightarrow> que_wait s j r = []" using C(3) by auto
  qed
  moreover have "q_conts (q, s, ?k)"
  proof -
    have "live s ?k u e \<Longrightarrow> live s k u e" for u e by (auto simp: live_def split: if_splits)
    moreover have "live s k u e \<Longrightarrow> u \<noteq> t \<Longrightarrow> live s ?k u e" for u e by (simp add: live_def)
    ultimately show ?thesis using D(4) nw unfolding q_conts_def prod.case by (auto; metis)
  qed
  ultimately show "que_inv (Some (?i, ?rw)) (q, s, ?k)" using D by (simp add: que_inv_def)
  show "msgs (Some (?i, ?rw)) (q, s, ?k) ?i = msgs None (q, s, k) ?i"
    using n [of ?i 0] by (simp add: msgs_def) (simp add: owed_def)
  show "msgs None (q, s, ?k) j = msgs None (q, s, k) j" if "j \<noteq> ?i" for j
    using ct' [of j 0] that by (simp add: msgs_def)
qed

lemma wait_ok:
  fixes n :: u32
  assumes inv: "que_inv None (q, s, k)" and cb: "can_block s" and kr: "k (runTask s) = None"
    and to: "\<not> hasFlag (status s (runTask s)) OS_TASK_STATUS_TIMEOUT"
    and op: "op_ok q c" and z: "readWriteableCnt (g_allQueue q (kQue c)) (kSide c) = 0"
  defines "s' \<equiv> LOS_Schedule (OsSchedTaskWait (readWriteList (kQue c) (kSide c)) n s)"
  defines "k' \<equiv> k(runTask s := Some c)"
  shows "que_inv None (q, s', k')" and "\<And>j. msgs None (q, s', k') j = msgs None (q, s, k) j"
proof -
  note D = que_invD [OF inv]
  let ?r = "runTask s" and ?i = "kQue c" and ?rw = "kSide c"
  have w: "ls_nodes (lst s') h = (if h = readWriteList ?i ?rw then que_wait s ?i ?rw @ [?r] else ls_nodes (lst s) h)"
    if "is_wait h" for h
    using wq.wait_waiters [OF D(1) cb readWriteList_wait that, of ?i ?rw n] by (simp add: s'_def del: TaskWait_frame)
  have rw: "?rw \<in> {0, 1}" using side_cases by simp
  have wj: "que_wait s' j r = (if j = ?i \<and> r = ?rw then que_wait s ?i ?rw @ [?r] else que_wait s j r)"
    if "r \<in> {0, 1}" for j r
    using w [of "readWriteList j r"] readWriteList_eq [OF that rw] by simp
  have to': "hasFlag (status s' u) OS_TASK_STATUS_TIMEOUT = hasFlag (status s u) OS_TASK_STATUS_TIMEOUT" for u
    by (simp add: s'_def)
  have lv: "live s' k' u e \<longleftrightarrow> (if u = ?r then e = c else live s k u e)" for u e
    using to' to by (auto simp: live_def k'_def)
  have g: "granted s' k' j r = granted s k j r" if r: "r \<in> {0, 1}" for j r
  proof -
    have "live s k ?r e \<longleftrightarrow> False" for e using kr by (simp add: live_def)
    then show ?thesis unfolding granted_def lv wj [OF r] by auto
  qed
  then have ct: "cnt (q, s', k') j r = cnt (q, s, k) j r" if "r \<in> {0, 1}" for j r
    using that by (simp add: cnt_def)
  have "q_count None (q, s', k')"
    unfolding q_count_def prod.case
  proof (intro allI impI conjI)
    fix j
    assume "used q j"
    note C = q_countD [OF D(3) this]
    show "ring_ok (g_allQueue q j) (cnt (q, s', k') j 0 + owed None j 0)" using C(1) ct by simp
    show "cnt (q, s', k') j 0 + cnt (q, s', k') j 1 + owed None j 0 + owed None j 1 = unat (queueLen (g_allQueue q j))"
      using C(2) ct by simp
    show "\<forall>r\<in>{0, 1}. readWriteableCnt (g_allQueue q j) r \<noteq> 0 \<longrightarrow> que_wait s' j r = []"
      using C(3) wj z by auto
  qed
  moreover have "q_conts (q, s', k')"
    unfolding q_conts_def prod.case
  proof (intro conjI allI impI ballI)
    show "finite (dom k')" using q_contsD(1) [OF D(4)] by (simp add: k'_def)
    show "op_ok q e" if "live s' k' u e" for u e
      using that lv op q_contsD(2) [OF D(4)] by (auto split: if_splits)
    show "\<exists>e. live s' k' u e \<and> kQue e = j \<and> kSide e = r" if r: "r \<in> {0, 1}" and u: "u \<in> set (que_wait s' j r)" for j r u
    proof (cases "u = ?r")
      case True
      have "?r \<notin> set (que_wait s j r)"
        using waiter_pend [OF D(1), of "readWriteList j r" ?r] cb by (auto simp: can_block_def)
      then show ?thesis using True u wj [OF r] lv by (auto split: if_splits)
    next
      case False
      then have "u \<in> set (que_wait s j r)" using u wj [OF r] by (auto split: if_splits)
      then show ?thesis using q_contsD(3) [OF D(4) r] lv False by simp
    qed
    show "ls_nodes (lst s') (QueMemList j) = []" if "\<not> used q j" for j
      using w [of "QueMemList j"] q_contsD(4) [OF D(4) that] by simp
  qed
  moreover have "sched_inv s'" using wq.wait_ok [OF D(1) cb, of "readWriteList ?i ?rw" n] by (simp add: s'_def)
  ultimately show "que_inv None (q, s', k')" using D by (simp add: que_inv_def)
  show "msgs None (q, s', k') j = msgs None (q, s, k) j" for j using ct [of 0 j] by (simp add: msgs_def)
qed

text \<open>The caller of an operation: the buffer is apart from all queues, and a call that may block comes from a task.\<close>

definition caller_ok :: "u32 \<Rightarrow> u32 \<Rightarrow> u32 \<Rightarrow> u32 \<Rightarrow> qhist \<Rightarrow> bool" where
  "caller_ok ty buf sz timeOut = (\<lambda>(q, s, k). valid_type ty \<and> sz \<noteq> 0 \<and>
     (\<forall>j. used q j \<longrightarrow> buf_ok (g_allQueue q j) ty buf sz) \<and>
     (timeOut \<noteq> LOS_NO_WAIT \<longrightarrow> can_block s \<and> k (runTask s) = None \<and>
        \<not> hasFlag (status s (runTask s)) OS_TASK_STATUS_TIMEOUT))"

definition hist_operate :: "u32 \<Rightarrow> u32 \<Rightarrow> u32 \<Rightarrow> u32 \<Rightarrow> u32 \<Rightarrow> qhist \<Rightarrow> (u32 option \<times> u32) \<times> qhist" where
  "hist_operate qid ty buf sz timeOut = (\<lambda>(q, s, k).
     let ((r, sz'), (q', s')) = OsQueueOperate qid ty buf sz timeOut (q, s)
     in ((r, sz'), (q', s', if r = None then k(runTask s := Some \<lparr>kQue = unat qid, kType = ty, kBuf = buf, kSize = sz\<rparr>) else k)))"

text \<open>
  What an operation on queue \<open>i\<close> promises: the invariant, the transfer if it reports success and
  nothing otherwise, and the messages of the other queues as they were.
\<close>

definition op_result :: "nat \<Rightarrow> u32 \<Rightarrow> u32 \<Rightarrow> u32 \<Rightarrow> qhist \<Rightarrow> bool \<Rightarrow> u32 \<Rightarrow> qhist \<Rightarrow> bool" where
  "op_result i ty buf sz h success sz' h' \<longleftrightarrow> que_inv None h' \<and>
     (if success then moved ty buf sz sz' (qmem (fst h)) (qmem (fst h')) (msgs None h i) (msgs None h' i)
      else qmem (fst h') = qmem (fst h) \<and> msgs None h' i = msgs None h i) \<and>
     (\<forall>j. used (fst h) j \<and> j \<noteq> i \<longrightarrow> msgs None h' j = msgs None h j)"

lemma op_result_stay: "que_inv None h \<Longrightarrow> op_result i ty buf sz h False sz' h"
  by (simp add: op_result_def)

lemma op_okI:
  assumes inv: "que_inv None (q, s, k)" and i: "i < all_queues q" and c: "caller_ok ty buf sz timeOut (q, s, k)"
    and chk: "OsQueueOperateParamCheck (g_allQueue q i) ty sz = LOS_OK"
  shows "op_ok q \<lparr>kQue = i, kType = ty, kBuf = buf, kSize = sz\<rparr>"
proof -
  have u: "used q i" using chk i by (auto simp: used_def OsQueueOperateParamCheck_def split: if_splits)
  have "4 < unat (queueSize (g_allQueue q i))"
    using q_countD(1) [OF que_invD(3) [OF inv] u] by (simp add: ring_ok_def geom_ok_def)
  then have "unat (ucast (queueSize (g_allQueue q i)) - 4 :: u32) = unat (queueSize (g_allQueue q i)) - 4"
    using unat_sub [of 4 "ucast (queueSize (g_allQueue q i)) :: u32"] by (simp add: word_le_nat_alt)
  moreover have "sz < SECUREC_MEM_MAX_LEN" "OS_QUEUE_IS_WRITE ty \<Longrightarrow> sz \<le> ucast (queueSize (g_allQueue q i)) - 4"
    using chk by (auto simp: OsQueueOperateParamCheck_def not_le not_less split: if_splits)
  ultimately show ?thesis
    using u c \<open>4 < unat (queueSize (g_allQueue q i))\<close>
    by (auto simp: op_ok_def caller_ok_def word_le_nat_alt word_gt_0)
qed

lemma hist_operate_ok:
  assumes inv: "que_inv None (q, s, k)" and h: "qid < OS_ALL_IPC_QUEUE_LIMIT q"
    and c: "caller_ok ty buf sz timeOut (q, s, k)"
  shows "case hist_operate qid ty buf sz timeOut (q, s, k) of
     ((r, sz'), h') \<Rightarrow> op_result (unat qid) ty buf sz (q, s, k) (r = Some LOS_OK) sz' h'"
proof -
  let ?i = "unat qid" and ?rw = "OS_QUEUE_READ_WRITE_GET ty" and ?c = "\<lparr>kQue = unat qid, kType = ty, kBuf = buf, kSize = sz\<rparr>"
  let ?chk = "OsQueueOperateParamCheck (g_allQueue q ?i) ty sz"
  note hi = handle_index [OF h]
  note D = que_invD [OF inv]
  show ?thesis
  proof (cases "?chk = LOS_OK")
    case False
    then have "hist_operate qid ty buf sz timeOut (q, s, k) = ((Some ?chk, sz), (q, s, k))"
      by (simp add: hist_operate_def OsQueueOperate_def hi Let_def)
    then show ?thesis using False op_result_stay [OF inv] by simp
  next
    case chk: True
    have op: "op_ok q ?c" by (rule op_okI [OF inv hi(2) c chk])
    then have u: "used q ?i" by (simp add: op_ok_def)
    show ?thesis
    proof (cases "readWriteableCnt (g_allQueue q ?i) ?rw = 0")
      case True
      have e: "LOS_ERRNO_QUEUE_ISEMPTY \<noteq> LOS_OK" "LOS_ERRNO_QUEUE_ISFULL \<noteq> LOS_OK" "LOS_ERRNO_QUEUE_PEND_IN_LOCK \<noteq> LOS_OK"
        by (simp_all add: errno_defs)
      show ?thesis
      proof (cases "timeOut = LOS_NO_WAIT \<or> g_losTaskLock s \<noteq> 0")
        case err: True
        let ?x = "if timeOut = LOS_NO_WAIT then if OS_QUEUE_IS_READ ty then LOS_ERRNO_QUEUE_ISEMPTY
          else LOS_ERRNO_QUEUE_ISFULL else LOS_ERRNO_QUEUE_PEND_IN_LOCK"
        have "hist_operate qid ty buf sz timeOut (q, s, k) = ((Some ?x, sz), (q, s, k))"
          using chk True err by (cases "timeOut = LOS_NO_WAIT") (simp_all add: hist_operate_def OsQueueOperate_def hi Let_def)
        moreover have "?x \<noteq> LOS_OK" using e by simp
        ultimately show ?thesis using op_result_stay [OF inv] by simp
      next
        case False
        have w: "can_block s" "k (runTask s) = None" "\<not> hasFlag (status s (runTask s)) OS_TASK_STATUS_TIMEOUT"
          using c False by (auto simp: caller_ok_def)
        have z: "readWriteableCnt (g_allQueue q (kQue ?c)) (kSide ?c) = 0" using True by simp
        have "hist_operate qid ty buf sz timeOut (q, s, k) = ((None, sz), (q,
            LOS_Schedule (OsSchedTaskWait (readWriteList (kQue ?c) (kSide ?c)) timeOut s), k(runTask s := Some ?c)))"
          using chk True False by (simp add: hist_operate_def OsQueueOperate_def hi Let_def)
        then show ?thesis using wait_ok [OF inv w op z, of timeOut] by (simp add: op_result_def)
      qed
    next
      case False
      have rw: "?rw \<in> {0, 1}" using side_cases by simp
      let ?q = "mod_que ?i (\<lambda>c. c\<lparr>readWriteableCnt := (readWriteableCnt c)(?rw := readWriteableCnt c ?rw - 1)\<rparr>) q"
      note td = take_debt [OF inv u rw False]
      have us: "used ?q j = used q j" for j by (simp add: used_def all_queues_def)
      have op': "op_ok ?q ?c" using op by (auto simp: op_ok_def us buf_ok_def)
      obtain sz' q' s' where t: "queue_transfer ?i ty buf sz (?q, s) = (sz', (q', s'))" "que_inv None (q', s', k)"
        "moved ty buf sz sz' (qmem ?q) (qmem q') (msgs (Some (?i, ?rw)) (?q, s, k) ?i) (msgs None (q', s', k) ?i)"
        "\<And>j. used ?q j \<Longrightarrow> j \<noteq> ?i \<Longrightarrow> msgs None (q', s', k) j = msgs None (?q, s, k) j"
        by (rule queue_transfer_ok [OF td(1) op']) blast
      have "hist_operate qid ty buf sz timeOut (q, s, k) = ((Some LOS_OK, sz'), (q', s', k))"
        using chk False t(1) by (simp add: hist_operate_def OsQueueOperate_def hi Let_def)
      moreover have "op_result ?i ty buf sz (q, s, k) True sz' (q', s', k)"
        unfolding op_result_def using t(2,3) t(4) td(2,3) us by (auto simp: td(2))
      ultimately show ?thesis by simp
    qed
  qed
qed

definition hist_resume :: "qhist \<Rightarrow> (u32 \<times> u32) \<times> qhist" where
  "hist_resume = (\<lambda>(q, s, k). case k (runTask s) of
     None \<Rightarrow> ((LOS_OK, 0), (q, s, k))
   | Some c \<Rightarrow> (let (r, (q', s')) = OsQueueOperate_resume (kQue c) (kType c) (kBuf c) (kSize c) (runTask s) (q, s)
                in (r, (q', s', k(runTask s := None)))))"

lemma clear_timeout_ok:
  assumes inv: "que_inv None (q, s, k)" and kt: "k t = Some c" and to: "hasFlag (status s t) OS_TASK_STATUS_TIMEOUT"
  defines "s' \<equiv> clr_status t OS_TASK_STATUS_TIMEOUT s"
  shows "que_inv None (q, s', k(t := None))" and "\<And>j. msgs None (q, s', k(t := None)) j = msgs None (q, s, k) j"
proof -
  note D = que_invD [OF inv]
  have s': "sched_inv s'" unfolding s'_def by (rule sched_inv_flags [OF D(1)]) auto
  have lv: "live s' (k(t := None)) u e = live s k u e" for u e
    using kt to by (auto simp: live_def s'_def)
  then have g: "granted s' (k(t := None)) j r = granted s k j r" for j r by (simp add: granted_def s'_def)
  then have ct: "cnt (q, s', k(t := None)) j r = cnt (q, s, k) j r" for j r by (simp add: cnt_def)
  have "q_count None (q, s', k(t := None))"
    using D(3) ct by (simp add: q_count_def) (simp add: s'_def)
  moreover have "q_conts (q, s', k(t := None))"
    using D(4) lv by (simp add: q_conts_def) (simp add: s'_def)
  ultimately show "que_inv None (q, s', k(t := None))" using D s' by (simp add: que_inv_def)
  show "msgs None (q, s', k(t := None)) j = msgs None (q, s, k) j" for j using ct by (simp add: msgs_def)
qed

lemma hist_resume_ok:
  assumes inv: "que_inv None (q, s, k)" and kt: "k (runTask s) = Some c"
    and p: "\<not> hasFlag (status s (runTask s)) OS_TASK_STATUS_PEND"
  shows "case hist_resume (q, s, k) of
     ((r, sz'), h') \<Rightarrow> op_result (kQue c) (kType c) (kBuf c) (kSize c) (q, s, k) (r = LOS_OK) sz' h'"
proof (cases "hasFlag (status s (runTask s)) OS_TASK_STATUS_TIMEOUT")
  case True
  then show ?thesis
    using clear_timeout_ok [OF inv kt True] kt
    by (simp add: hist_resume_def OsQueueOperate_resume_def op_result_def errno_defs)
next
  case False
  then have l: "live s k (runTask s) c" using kt by (simp add: live_def)
  note rd = resume_debt [OF inv l p]
  have "op_ok q c" using q_contsD(2) [OF que_invD(4) [OF inv] l] .
  then have op: "op_ok q \<lparr>kQue = kQue c, kType = kType c, kBuf = kBuf c, kSize = kSize c\<rparr>" by (cases c) simp
  obtain sz' q' s' where t: "queue_transfer (kQue c) (kType c) (kBuf c) (kSize c) (q, s) = (sz', (q', s'))"
    "que_inv None (q', s', k(runTask s := None))"
    "moved (kType c) (kBuf c) (kSize c) sz' (qmem q) (qmem q')
       (msgs (Some (kQue c, kSide c)) (q, s, k(runTask s := None)) (kQue c)) (msgs None (q', s', k(runTask s := None)) (kQue c))"
    "\<And>j. used q j \<Longrightarrow> j \<noteq> kQue c \<Longrightarrow> msgs None (q', s', k(runTask s := None)) j = msgs None (q, s, k(runTask s := None)) j"
    by (rule queue_transfer_ok [OF rd(1) op]) blast
  have "hist_resume (q, s, k) = ((LOS_OK, sz'), (q', s', k(runTask s := None)))"
    using kt False t(1) by (simp add: hist_resume_def OsQueueOperate_resume_def)
  then show ?thesis using t(2-4) rd(2,3) by (simp add: op_result_def)
qed

end
