(* ===== verification/Queue_Props.thy ===== *)
theory Queue_Props
  imports Queue_Inv
begin

text \<open>Histories of the message queues and their properties.\<close>

section \<open>Creation, deletion, mail\<close>

text \<open>
  The memory of a new queue, from \<open>LOS_MemAlloc\<close> or from the caller, is apart from the memory of the
  other queues and from the buffers of the tasks inside a call.
\<close>

definition fresh_area :: "u32 \<Rightarrow> nat \<Rightarrow> qhist \<Rightarrow> bool" where
  "fresh_area a n = (\<lambda>(q, s, k). no_wrap a n \<and>
     (\<forall>j. used q j \<longrightarrow> apart a n (queue (g_allQueue q j)) (area (g_allQueue q j))) \<and>
     (\<forall>t c. live s k t c \<longrightarrow> apart (kBuf c) (buf_len (kType c) (kSize c)) a n))"

lemma apart_sym: "apart a n b m = apart b m a n"
  by (auto simp: apart_def)

lemma queue_lists_same:
  assumes "que_wait s i 0 = []" and "que_wait s i 1 = []" and "ls_nodes (lst s) (QueMemList i) = []"
  shows "queue_lists i s = s"
  using assms by (simp add: queue_lists_def ls_init_def fun_upd_idem)

text \<open>Turning an unused control block into a used one.\<close>

lemma setup_ok:
  assumes inv: "que_inv None (q, s, k)" and i: "i < all_queues q" "\<not> used q i"
    and a: "a \<noteq> 0" "fresh_area a (unat len * unat sz) (q, s, k)" and l: "len \<noteq> 0" "4 < unat sz"
    and c: "g_allQueue q' = (g_allQueue q)(i := queue_setup name len sz a (g_allQueue q i))"
    and qq: "QUEUE_STATIC q' = QUEUE_STATIC q" "QUEUE_LIMIT q' = QUEUE_LIMIT q" "STATIC_QUEUE_LIMIT q' = STATIC_QUEUE_LIMIT q"
      "qmem q' = qmem q" and f: "q_free q'"
  shows "que_inv None (q', s, k)" and "queue_lists i s = s" and "msgs None (q', s, k) i = []"
    and "\<And>j. j \<noteq> i \<Longrightarrow> msgs None (q', s, k) j = msgs None (q, s, k) j"
proof -
  note D = que_invD [OF inv]
  let ?c = "queue_setup name len sz a (g_allQueue q i)"
  have nl: "\<not> (live s k t e \<and> kQue e = i)" for t e
    using q_contsD(2) [OF D(4), of t e] i(2) by (auto simp: op_ok_def)
  have w: "que_wait s i rw = []" if "rw \<in> {0, 1}" for rw
    using q_contsD(3) [OF D(4) that, of _ i] nl by (cases "que_wait s i rw") auto
  show "queue_lists i s = s"
    using w q_contsD(4) [OF D(4) i(2)] by (intro queue_lists_same) simp_all
  have g0: "granted s k i rw = {}" for rw using nl by (auto simp: granted_def)
  have us: "used q' j \<longleftrightarrow> j = i \<or> used q j" for j
    using i by (auto simp: used_def all_queues_def c qq queue_setup_def)
  have ct: "cnt (q', s, k) i 0 = 0" "cnt (q', s, k) i 1 = unat len"
    by (simp_all add: cnt_def g0 c queue_setup_def)
  have ct': "cnt (q', s, k) j rw = cnt (q, s, k) j rw" if "j \<noteq> i" for j rw
    using that by (simp add: cnt_def c)
  have lp: "0 < unat len" using l(1) by (simp add: unat_gt_0)
  have geo: "queue ?c = a" "queueLen ?c = len" "queueSize ?c = sz" "queueHead ?c = 0" "queueTail ?c = 0"
    by (simp_all add: queue_setup_def)
  have rg: "ring_ok ?c 0" using a l(2) lp by (simp add: ring_ok_def geom_ok_def geo fresh_area_def)
  have "q_count None (q', s, k)"
    unfolding q_count_def prod.case
  proof (intro allI impI conjI)
    fix j
    assume "used q' j"
    then have j: "j = i \<or> j \<noteq> i \<and> used q j" using us by auto
    show "ring_ok (g_allQueue q' j) (cnt (q', s, k) j 0 + owed None j 0)"
      using j rg ct ct' [of j 0] q_countD(1) [OF D(3), of j] by (auto simp: c owed_def)
    show "cnt (q', s, k) j 0 + cnt (q', s, k) j 1 + owed None j 0 + owed None j 1 = unat (queueLen (g_allQueue q' j))"
      using j ct ct' [of j 0] ct' [of j 1] q_countD(2) [OF D(3), of j] by (auto simp: c owed_def geo)
    show "\<forall>r\<in>{0, 1}. readWriteableCnt (g_allQueue q' j) r \<noteq> 0 \<longrightarrow> que_wait s j r = []"
      using j w q_countD(3) [OF D(3), of j] by (auto simp: c)
  qed
  moreover have "q_conts (q', s, k)"
    unfolding q_conts_def prod.case
  proof (intro conjI allI impI)
    show "finite (dom k)" by (rule q_contsD(1) [OF D(4)])
    show "op_ok q' e" if "live s k t e" for t e
    proof -
      have o: "op_ok q e" using q_contsD(2) [OF D(4) that] .
      have "kQue e \<noteq> i" using nl that by blast
      moreover have "no_wrap (kBuf e) (buf_len (kType e) (kSize e)) \<and> kBuf e \<noteq> 0"
        using o by (auto simp: op_ok_def buf_ok_def)
      then have "buf_ok ?c (kType e) (kBuf e) (kSize e)"
        using a(2) that by (auto simp: buf_ok_def geo fresh_area_def)
      ultimately show ?thesis using o us by (auto simp: op_ok_def c)
    qed
    show "\<forall>r\<in>{0, 1}. \<forall>t\<in>set (que_wait s j r). \<exists>e. live s k t e \<and> kQue e = j \<and> kSide e = r" for j
      using q_contsD(3) [OF D(4)] by blast
    show "ls_nodes (lst s) (QueMemList j) = []" if "\<not> used q' j" for j using q_contsD(4) [OF D(4), of j] that us by simp
  qed
  moreover have "q_apart q'"
    using D(5) a(2) us by (auto simp: q_apart_def c geo fresh_area_def apart_sym)
  ultimately show "que_inv None (q', s, k)" using D(1) f by (simp add: que_inv_def)
  show "msgs None (q', s, k) i = []" using ct(1) by (simp add: msgs_def owed_def contents_def)
  show "msgs None (q', s, k) j = msgs None (q, s, k) j" if "j \<noteq> i" for j
    using ct' [OF that] that by (simp add: msgs_def c qq)
qed

lemma q_free_take:
  assumes f: "q_free q" and l: "g_freeQueueList q = i # js"
  shows "i < all_queues q" "\<not> used q i"
    "q_free (mod_que i (queue_setup name len sz a) (q\<lparr>g_freeQueueList := js\<rparr>))"
proof -
  have i: "i < unat (QUEUE_LIMIT q)" "queueState (g_allQueue q i) = OS_QUEUE_UNUSED" "i \<notin> set js"
    using f l unfolding q_free_def by (metis list.set_intros(1), metis list.set_intros(1), auto)
  then show "i < all_queues q" "\<not> used q i" by (simp_all add: all_queues_def used_def)
  show "q_free (mod_que i (queue_setup name len sz a) (q\<lparr>g_freeQueueList := js\<rparr>))"
    using f i unfolding q_free_def by (auto simp: l all_queues_def queue_setup_def)
qed

lemma q_free_take_static:
  assumes f: "q_free q" and s: "QUEUE_STATIC q" and l: "g_freeStaticQueueList q = i # js"
  shows "i < all_queues q" "\<not> used q i"
    "q_free (mod_que i (queue_setup name len sz a) (q\<lparr>g_freeStaticQueueList := js\<rparr>))"
proof -
  have "i \<in> set (g_freeStaticQueueList q)" using l by simp
  then have i: "unat (QUEUE_LIMIT q) \<le> i" "i < all_queues q" "queueState (g_allQueue q i) = OS_QUEUE_UNUSED"
    using f s unfolding q_free_def by blast+
  have d: "i \<notin> set js" "distinct js" using f s l by (auto simp: q_free_def)
  show "i < all_queues q" "\<not> used q i" using i by (simp_all add: used_def)
  show "q_free (mod_que i (queue_setup name len sz a) (q\<lparr>g_freeStaticQueueList := js\<rparr>))"
    using f s i d unfolding q_free_def by (auto simp: l all_queues_def queue_setup_def)
qed

lemma OsQueueCreate_ok:
  assumes inv: "que_inv None (q, s, k)"
    and fr: "fresh_area (if QUEUE_STATIC q \<and> sm \<noteq> 0 then sm else alloc) (unat len * unat (mx + 4)) (q, s, k)"
  shows "case OsQueueCreate name len nn sm mx alloc (q, s) of ((r, qid, freed), (q', s')) \<Rightarrow>
     que_inv None (q', s', k) \<and>
     (if r = LOS_OK then freed = None \<and> (\<exists>i. qid = Some (of_nat i) \<and> i < all_queues q \<and> \<not> used q i \<and> used q' i \<and>
          queueLen (g_allQueue q' i) = len \<and> queueSize (g_allQueue q' i) = mx + 4 \<and>
          queue (g_allQueue q' i) = (if QUEUE_STATIC q \<and> sm \<noteq> 0 then sm else alloc) \<and>
          msgs None (q', s', k) i = [] \<and> (\<forall>j. j \<noteq> i \<longrightarrow> msgs None (q', s', k) j = msgs None (q, s, k) j))
      else q' = q \<and> s' = s \<and> qid = None)"
proof (cases "fst (fst (OsQueueCreate name len nn sm mx alloc (q, s))) = LOS_OK")
  case False
  then show ?thesis using inv
    by (auto simp: OsQueueCreate_def Let_def split: if_splits list.splits)
next
  case True
  note D = que_invD [OF inv]
  have c: "nn" "\<not> (ucast mx :: u32) > ucast OS_NULL_SHORT - 4" "len \<noteq> 0" "mx \<noteq> 0"
    "\<not> (0xFFFFFFFF :: u32) div ucast (mx + 4) < ucast len"
    using True by (auto simp: OsQueueCreate_def Let_def errno_defs split: if_splits)
  have "unat mx \<le> 0xFFFB" using c(2) by (simp add: word_less_nat_alt not_less)
  then have m4: "unat (mx + 4) = unat mx + 4" by (simp add: unat_word_ariths(1))
  have "0 < unat mx" using c(4) by (simp add: unat_gt_0)
  then have sz: "4 < unat (mx + 4)" using m4 by simp
  have idx: "queueID (g_allQueue q i) = of_nat i" "(ucast (of_nat i :: u16) :: u32) = of_nat i" if "i < all_queues q" for i
  proof -
    show "queueID (g_allQueue q i) = of_nat i" using D(2) that by (simp add: q_free_def)
    have "i < 65536" using D(2) that by (simp add: q_free_def)
    then have "unat (of_nat i :: u16) = i" "unat (of_nat i :: u32) = i"
      by (simp_all add: unsigned_of_nat take_bit_nat_eq_self)
    then show "(ucast (of_nat i :: u16) :: u32) = of_nat i" by (simp add: word_unat_eq_iff)
  qed
  show ?thesis
  proof (cases "QUEUE_STATIC q \<and> sm \<noteq> 0")
    case st: True
    obtain i js where l: "g_freeStaticQueueList q = i # js"
      using True c st by (auto simp: OsQueueCreate_def Let_def errno_defs split: list.splits)
    let ?q = "mod_que i (queue_setup name len (mx + 4) sm) (q\<lparr>g_freeStaticQueueList := js\<rparr>)"
    note ft = q_free_take_static [OF D(2) conjunct1 [OF st] l]
    have "fresh_area sm (unat len * unat (mx + 4)) (q, s, k)" using fr st by simp
    note su = setup_ok [OF inv ft(1,2) conjunct2 [OF st] this c(3) sz, of ?q name, OF _ _ _ _ _ ft(3)]
    have r: "OsQueueCreate name len nn sm mx alloc (q, s) = ((LOS_OK, Some (of_nat i), None), (?q, s))"
      using c st l su(2) idx [OF ft(1)] by (simp add: OsQueueCreate_def Let_def queue_setup_def)
    have "used ?q i" using ft(1) by (auto simp: used_def all_queues_def queue_setup_def split: if_splits)
    then show ?thesis using r su(1,3,4) ft(1,2) st by (auto simp: queue_setup_def)
  next
    case dy: False
    have al: "alloc \<noteq> 0" using True c dy by (auto simp: OsQueueCreate_def Let_def errno_defs)
    obtain i js where l: "g_freeQueueList q = i # js"
      using True c dy al by (auto simp: OsQueueCreate_def Let_def errno_defs split: list.splits)
    let ?q = "mod_que i (queue_setup name len (mx + 4) alloc) (q\<lparr>g_freeQueueList := js\<rparr>)"
    note ft = q_free_take [OF D(2) l]
    have "fresh_area alloc (unat len * unat (mx + 4)) (q, s, k)" using fr dy by auto
    note su = setup_ok [OF inv ft(1,2) al this c(3) sz, of ?q name, OF _ _ _ _ _ ft(3)]
    have r: "OsQueueCreate name len nn sm mx alloc (q, s) = ((LOS_OK, Some (of_nat i), None), (?q, s))"
      using c dy al l su(2) idx [OF ft(1)] by (auto simp: OsQueueCreate_def Let_def queue_setup_def)
    have "used ?q i" using ft(1) by (auto simp: used_def all_queues_def queue_setup_def split: if_splits)
    then show ?thesis using r su(1,3,4) ft(1,2) dy by (auto simp: queue_setup_def)
  qed
qed

text \<open>The check of \<open>LOS_QueueDelete\<close> says that no task is inside a call on the queue.\<close>

lemma no_task_inside:
  assumes inv: "que_inv None (q, s, k)" and u: "used q i"
  shows "(\<forall>t c. live s k t c \<longrightarrow> kQue c \<noteq> i) \<longleftrightarrow> que_wait s i 0 = [] \<and> que_wait s i 1 = [] \<and>
     (ucast (readWriteableCnt (g_allQueue q i) 1) + ucast (readWriteableCnt (g_allQueue q i) 0) :: u32) =
       ucast (queueLen (g_allQueue q i))" (is "?L \<longleftrightarrow> ?W \<and> ?E \<and> ?S")
proof -
  let ?c = "g_allQueue q i"
  note D = que_invD [OF inv]
  note C = q_countD [OF D(3) u]
  have fin: "finite (granted s k i rw)" for rw by (rule finite_granted [OF q_contsD(1) [OF D(4)]])
  have "unat (readWriteableCnt ?c 1) < 2 ^ LENGTH(16)" "unat (readWriteableCnt ?c 0) < 2 ^ LENGTH(16)"
    by (rule unsigned_less)+
  then have S: "?S \<longleftrightarrow> unat (readWriteableCnt ?c 1) + unat (readWriteableCnt ?c 0) = unat (queueLen ?c)"
    by (simp add: word_unat_eq_iff unat_word_ariths(1))
  have "unat (readWriteableCnt ?c 0) + card (granted s k i 0) + (unat (readWriteableCnt ?c 1) + card (granted s k i 1)) =
      unat (queueLen ?c)"
    using C(2) by (simp add: cnt_def owed_def)
  then have "?S \<longleftrightarrow> card (granted s k i 0) = 0 \<and> card (granted s k i 1) = 0" unfolding S by linarith
  then have g: "?S \<longleftrightarrow> granted s k i 0 = {} \<and> granted s k i 1 = {}" using fin by (simp add: card_eq_0_iff)
  show ?thesis
  proof
    assume L: ?L
    have "que_wait s i rw = []" if "rw \<in> {0, 1}" for rw
      using q_contsD(3) [OF D(4) that, of _ i] L by (cases "que_wait s i rw") auto
    moreover have "granted s k i rw = {}" for rw using L by (auto simp: granted_def)
    ultimately show "?W \<and> ?E \<and> ?S" using g by simp
  next
    assume R: "?W \<and> ?E \<and> ?S"
    then have e: "granted s k i 0 = {}" "granted s k i 1 = {}" using g by blast+
    have "kQue c \<noteq> i" if l: "live s k t c" for t c
    proof
      assume "kQue c = i"
      then have "t \<in> set (que_wait s i (kSide c)) \<or> t \<in> granted s k i (kSide c)" using l by (auto simp: granted_def)
      moreover have "kSide c = 0 \<or> kSide c = 1" by (rule side_cases)
      ultimately show False using R e by auto
    qed
    then show ?L by blast
  qed
qed

lemma release_ok:
  assumes inv: "que_inv None (q, s, k)" and u: "used q i" and m: "ls_nodes (lst s) (QueMemList i) = []"
    and l: "\<forall>t c. live s k t c \<longrightarrow> kQue c \<noteq> i" and f: "q_free q'"
    and q': "g_allQueue q' = (g_allQueue q)(i := (g_allQueue q i)\<lparr>queue := 0, queueName := 0, queueState := OS_QUEUE_UNUSED\<rparr>)"
      "all_queues q' = all_queues q"
  shows "que_inv None (q', s, k)" and "\<And>j. used q' j \<longleftrightarrow> j \<noteq> i \<and> used q j"
proof -
  note D = que_invD [OF inv]
  show us: "used q' j \<longleftrightarrow> j \<noteq> i \<and> used q j" for j using q' by (simp add: used_def)
  have cb: "g_allQueue q' j = g_allQueue q j" if "used q' j" for j using that us q' by simp
  have ct: "cnt (q', s, k) j rw = cnt (q, s, k) j rw" if "used q' j" for j rw
    using cb [OF that] by (simp add: cnt_def)
  have "q_count None (q', s, k)"
    unfolding q_count_def prod.case
    by (intro allI impI) (use D(3) us cb ct in \<open>auto simp: q_count_def\<close>)
  moreover have "q_conts (q', s, k)"
  proof -
    have "op_ok q' c" if "live s k t c" for t c
    proof -
      have "kQue c \<noteq> i" using l that by blast
      then show ?thesis using q_contsD(2) [OF D(4) that] us cb by (auto simp: op_ok_def)
    qed
    then show ?thesis using D(4) us m unfolding q_conts_def prod.case by auto
  qed
  moreover have "q_apart q'" using D(5) us cb by (auto simp: q_apart_def)
  ultimately show "que_inv None (q', s, k)" using D(1) f by (simp add: que_inv_def)
qed

lemma q_free_give:
  assumes f: "q_free q" and u: "used q i"
  defines "q1 \<equiv> mod_que i (\<lambda>c. c\<lparr>queue := 0, queueName := 0, queueState := OS_QUEUE_UNUSED\<rparr>) q"
  shows "i < unat (QUEUE_LIMIT q) \<Longrightarrow> q_free (q1\<lparr>g_freeQueueList := i # g_freeQueueList q1\<rparr>)"
    and "\<not> i < unat (QUEUE_LIMIT q) \<Longrightarrow> q_free (q1\<lparr>g_freeStaticQueueList := i # g_freeStaticQueueList q1\<rparr>)"
proof -
  have a: "all_queues (q1\<lparr>g_freeQueueList := l\<rparr>) = all_queues q" "all_queues (q1\<lparr>g_freeStaticQueueList := l\<rparr>) = all_queues q" for l
    by (simp_all add: all_queues_def q1_def)
  have i: "i < all_queues q" "queueState (g_allQueue q i) \<noteq> OS_QUEUE_UNUSED" using u by (simp_all add: used_def)
  have n: "i \<notin> set (g_freeQueueList q)" "QUEUE_STATIC q \<Longrightarrow> i \<notin> set (g_freeStaticQueueList q)"
    using f i(2) by (simp_all add: q_free_def)
  show "q_free (q1\<lparr>g_freeQueueList := i # g_freeQueueList q1\<rparr>)" if "i < unat (QUEUE_LIMIT q)"
    using f i n that unfolding q_free_def a by (auto simp: q1_def)
  show "q_free (q1\<lparr>g_freeStaticQueueList := i # g_freeStaticQueueList q1\<rparr>)" if "\<not> i < unat (QUEUE_LIMIT q)"
    using f i n that unfolding q_free_def a by (auto simp: q1_def)
qed

lemma LOS_QueueDelete_ok:
  assumes inv: "que_inv None (q, s, k)"
  shows "case LOS_QueueDelete qid mf (q, s) of ((r, freed), (q', s')) \<Rightarrow>
     que_inv None (q', s', k) \<and> s' = s \<and>
     (if qid < OS_ALL_IPC_QUEUE_LIMIT q \<and> used q (unat qid) \<and> ls_nodes (lst s) (QueMemList (unat qid)) = [] \<and>
         (\<forall>t c. live s k t c \<longrightarrow> kQue c \<noteq> unat qid)
      then (\<forall>j. used q' j \<longleftrightarrow> j \<noteq> unat qid \<and> used q j) \<and>
        (if unat qid < unat (QUEUE_LIMIT q) then freed = Some (queue (g_allQueue q (unat qid))) \<and> r = mf (queue (g_allQueue q (unat qid)))
         else freed = None \<and> r = LOS_OK)
      else r \<noteq> LOS_OK \<and> freed = None \<and> q' = q)"
proof (cases "qid < OS_ALL_IPC_QUEUE_LIMIT q \<and> used q (unat qid)")
  case False
  then have "LOS_QueueDelete qid mf (q, s) = ((LOS_ERRNO_QUEUE_NOT_FOUND, None), (q, s)) \<or>
      LOS_QueueDelete qid mf (q, s) = ((LOS_ERRNO_QUEUE_NOT_CREATE, None), (q, s))"
    using handle_index [of qid q]
    by (cases "qid < OS_ALL_IPC_QUEUE_LIMIT q") (simp_all add: LOS_QueueDelete_def Let_def used_def not_less)
  moreover have "LOS_ERRNO_QUEUE_NOT_FOUND \<noteq> LOS_OK" "LOS_ERRNO_QUEUE_NOT_CREATE \<noteq> LOS_OK" by (simp_all add: errno_defs)
  ultimately show ?thesis using inv False by (elim disjE) auto
next
  case True
  let ?i = "unat qid"
  let ?c = "g_allQueue q ?i"
  have u: "used q ?i" using True by simp
  have h: "OsGetQueueHandle qid q = ?i" "?i < all_queues q" "\<not> OS_ALL_IPC_QUEUE_LIMIT q \<le> qid" "queueState ?c \<noteq> OS_QUEUE_UNUSED"
    using True handle_index [of qid q] by (auto simp: used_def)
  note none = no_task_inside [OF inv u]
  show ?thesis
  proof (cases "ls_nodes (lst s) (QueMemList ?i) = [] \<and> (\<forall>t c. live s k t c \<longrightarrow> kQue c \<noteq> ?i)")
    case False
    then have "que_wait s ?i 0 \<noteq> [] \<or> que_wait s ?i 1 \<noteq> [] \<or> ls_nodes (lst s) (QueMemList ?i) \<noteq> [] \<or>
        (ucast (readWriteableCnt ?c 1) + ucast (readWriteableCnt ?c 0) :: u32) \<noteq> ucast (queueLen ?c)"
      using none by blast
    then have "LOS_QueueDelete qid mf (q, s) = ((LOS_ERRNO_QUEUE_IN_TSKUSE, None), (q, s)) \<or>
        LOS_QueueDelete qid mf (q, s) = ((LOS_ERRNO_QUEUE_IN_TSKWRITE, None), (q, s))"
      using h by (cases "que_wait s ?i 0 = []"; cases "que_wait s ?i 1 = []"; cases "ls_nodes (lst s) (QueMemList ?i) = []")
        (simp_all add: LOS_QueueDelete_def Let_def)
    moreover have "LOS_ERRNO_QUEUE_IN_TSKUSE \<noteq> LOS_OK" "LOS_ERRNO_QUEUE_IN_TSKWRITE \<noteq> LOS_OK" by (simp_all add: errno_defs)
    ultimately show ?thesis using inv False by (elim disjE) auto
  next
    case all: True
    have R: "que_wait s ?i 0 = []" "que_wait s ?i 1 = []"
      "(ucast (readWriteableCnt ?c 1) + ucast (readWriteableCnt ?c 0) :: u32) = ucast (queueLen ?c)"
      using all none by blast+
    let ?q1 = "mod_que ?i (\<lambda>c. c\<lparr>queue := 0, queueName := 0, queueState := OS_QUEUE_UNUSED\<rparr>) q"
    have st: "QUEUE_STATIC q \<and> qid \<ge> ucast (QUEUE_LIMIT q) \<and> qid < OS_ALL_IPC_QUEUE_LIMIT q \<longleftrightarrow> \<not> ?i < unat (QUEUE_LIMIT q)"
      using True h(2) by (auto simp: word_le_nat_alt all_queues_def split: if_splits)
    note gv = q_free_give [OF que_invD(2) [OF inv] u]
    show ?thesis
    proof (cases "?i < unat (QUEUE_LIMIT q)")
      case d: True
      let ?q' = "?q1\<lparr>g_freeQueueList := ?i # g_freeQueueList ?q1\<rparr>"
      have "LOS_QueueDelete qid mf (q, s) = ((mf (queue ?c), Some (queue ?c)), (?q', s))"
        using h R all st d by (simp add: LOS_QueueDelete_def Let_def)
      moreover note release_ok [OF inv u conjunct1 [OF all] conjunct2 [OF all] gv(1) [OF d]]
      ultimately show ?thesis using all True d by (simp add: all_queues_def)
    next
      case d: False
      let ?q' = "?q1\<lparr>g_freeStaticQueueList := ?i # g_freeStaticQueueList ?q1\<rparr>"
      have "LOS_QueueDelete qid mf (q, s) = ((LOS_OK, None), (?q', s))"
        using h R all st d by (simp add: LOS_QueueDelete_def Let_def)
      moreover note release_ok [OF inv u conjunct1 [OF all] conjunct2 [OF all] gv(2) [OF d]]
      ultimately show ?thesis using all True d by (simp add: all_queues_def)
    qed
  qed
qed

section \<open>The environment\<close>

text \<open>
  What the rest of the kernel may do: it may take a waiting task off a list if it marks it as timed
  out (an expiring timeout), it may change neither the mark of a task that has been given a node nor
  the memory of the queues, and it puts no task on a list of a queue.
\<close>

definition env_ok :: "qhist \<Rightarrow> ksched \<Rightarrow> mem8 \<Rightarrow> bool" where
  "env_ok = (\<lambda>(q, s, k) s' m'. sched_inv s' \<and>
     (\<forall>i. \<forall>rw \<in> {0, 1}. set (que_wait s' i rw) \<subseteq> set (que_wait s i rw)) \<and>
     (\<forall>i. \<not> used q i \<longrightarrow> ls_nodes (lst s') (QueMemList i) = []) \<and>
     (\<forall>t c. k t = Some c \<longrightarrow>
        (if hasFlag (status s t) OS_TASK_STATUS_TIMEOUT then hasFlag (status s' t) OS_TASK_STATUS_TIMEOUT
         else hasFlag (status s' t) OS_TASK_STATUS_TIMEOUT \<longleftrightarrow>
           t \<in> set (que_wait s (kQue c) (kSide c)) \<and> t \<notin> set (que_wait s' (kQue c) (kSide c)))) \<and>
     (\<forall>i x. used q i \<and> unat (queue (g_allQueue q i)) \<le> unat x \<and>
        unat x < unat (queue (g_allQueue q i)) + area (g_allQueue q i) \<longrightarrow> m' x = qmem q x))"

lemma env_inv:
  assumes inv: "que_inv None (q, s, k)" and e: "env_ok (q, s, k) s' m'"
  shows "que_inv None (q\<lparr>qmem := m'\<rparr>, s', k)"
    and "\<And>i. used q i \<Longrightarrow> msgs None (q\<lparr>qmem := m'\<rparr>, s', k) i = msgs None (q, s, k) i"
proof -
  note D = que_invD [OF inv]
  let ?q = "q\<lparr>qmem := m'\<rparr>"
  have sub: "t \<in> set (que_wait s i rw)" if "rw \<in> {0, 1}" "t \<in> set (que_wait s' i rw)" for t i rw
    using e that by (auto simp: env_ok_def)
  have to: "if hasFlag (status s t) OS_TASK_STATUS_TIMEOUT then hasFlag (status s' t) OS_TASK_STATUS_TIMEOUT
         else hasFlag (status s' t) OS_TASK_STATUS_TIMEOUT \<longleftrightarrow>
           t \<in> set (que_wait s (kQue c) (kSide c)) \<and> t \<notin> set (que_wait s' (kQue c) (kSide c))" if "k t = Some c" for t c
    using e that by (simp add: env_ok_def)
  have l1: "live s k t c" if "live s' k t c" for t c
    using that to [of t c] by (auto simp: live_def split: if_splits)
  have l2: "live s' k t c" if "live s k t c" "t \<in> set (que_wait s (kQue c) (kSide c)) \<Longrightarrow> t \<in> set (que_wait s' (kQue c) (kSide c))" for t c
    using that to [of t c] by (auto simp: live_def split: if_splits)
  have g: "granted s' k i rw = granted s k i rw" if "rw \<in> {0, 1}" for i rw
  proof (intro set_eqI iffI)
    fix t
    assume "t \<in> granted s' k i rw"
    then obtain c where c: "live s' k t c" "kQue c = i" "kSide c = rw" "t \<notin> set (que_wait s' i rw)" by (auto simp: granted_def)
    then have "t \<notin> set (que_wait s i rw)" using to [of t c] by (auto simp: live_def split: if_splits)
    then show "t \<in> granted s k i rw" using l1 [OF c(1)] c by (auto simp: granted_def)
  next
    fix t
    assume "t \<in> granted s k i rw"
    then obtain c where c: "live s k t c" "kQue c = i" "kSide c = rw" "t \<notin> set (que_wait s i rw)" by (auto simp: granted_def)
    then show "t \<in> granted s' k i rw" using l2 [OF c(1)] sub [OF that, of t i] by (auto simp: granted_def)
  qed
  then have ct: "cnt (?q, s', k) i rw = cnt (q, s, k) i rw" if "rw \<in> {0, 1}" for i rw
    using that by (simp add: cnt_def)
  have us: "used ?q i = used q i" for i by (simp add: used_def all_queues_def)
  have "all_queues ?q = all_queues q" by (simp add: all_queues_def)
  then have "q_free ?q" using D(2) by (simp add: q_free_def)
  moreover have "q_count None (?q, s', k)"
    unfolding q_count_def prod.case
  proof (intro allI impI conjI)
    fix j
    assume "used ?q j"
    then have u: "used q j" by (simp add: us)
    note C = q_countD [OF D(3) u]
    show "ring_ok (g_allQueue ?q j) (cnt (?q, s', k) j 0 + owed None j 0)" using C(1) ct by simp
    show "cnt (?q, s', k) j 0 + cnt (?q, s', k) j 1 + owed None j 0 + owed None j 1 = unat (queueLen (g_allQueue ?q j))"
      using C(2) ct by simp
    have "que_wait s' j r = []" if "r \<in> {0, 1}" "que_wait s j r = []" for r
      using sub [OF that(1), of _ j] that(2) by (cases "que_wait s' j r") auto
    then show "\<forall>r\<in>{0, 1}. readWriteableCnt (g_allQueue ?q j) r \<noteq> 0 \<longrightarrow> que_wait s' j r = []"
      using C(3) by auto
  qed
  moreover have "q_conts (?q, s', k)"
    unfolding q_conts_def prod.case
  proof (intro conjI allI impI ballI)
    show "finite (dom k)" by (rule q_contsD(1) [OF D(4)])
    show "op_ok ?q c" if "live s' k t c" for t c
      using q_contsD(2) [OF D(4) l1 [OF that]] by (simp add: op_ok_def us)
    show "\<exists>c. live s' k t c \<and> kQue c = i \<and> kSide c = rw" if r: "rw \<in> {0, 1}" and w: "t \<in> set (que_wait s' i rw)" for i rw t
    proof -
      obtain c where "live s k t c" "kQue c = i" "kSide c = rw" using q_contsD(3) [OF D(4) r sub [OF r w]] by auto
      then show ?thesis using l2 [of t c] w by auto
    qed
    show "ls_nodes (lst s') (QueMemList i) = []" if "\<not> used ?q i" for i using that e by (simp add: us env_ok_def)
  qed
  moreover have "q_apart ?q" using D(5) by (simp add: q_apart_def us)
  moreover have "sched_inv s'" using e by (simp add: env_ok_def)
  ultimately show "que_inv None (?q, s', k)" by (simp add: que_inv_def)
  show "msgs None (?q, s', k) i = msgs None (q, s, k) i" if u: "used q i" for i
  proof -
    have "contents (g_allQueue q i) m' n = contents (g_allQueue q i) (qmem q) n" for n
      using q_countD(1) [OF D(3) u] e u by (intro contents_frame) (auto simp: ring_ok_def env_ok_def)
    then show ?thesis using ct by (simp add: msgs_def)
  qed
qed

lemma env_same:
  assumes "que_inv None (q, s, k)" and "sched_inv s'" and "\<And>i rw. que_wait s' i rw = que_wait s i rw"
    and "\<And>i. \<not> used q i \<Longrightarrow> ls_nodes (lst s') (QueMemList i) = []"
    and "\<And>t. k t \<noteq> None \<Longrightarrow> hasFlag (status s' t) OS_TASK_STATUS_TIMEOUT = hasFlag (status s t) OS_TASK_STATUS_TIMEOUT"
  shows "que_inv None (q, s', k)"
proof -
  have "env_ok (q, s, k) s' (qmem q)" using assms by (simp add: env_ok_def)
  from env_inv(1) [OF assms(1) this] show ?thesis by simp
qed

lemma mod_msg_inv [simp]: "sched_inv s \<Longrightarrow> sched_inv (mod_task t (\<lambda>c. c\<lparr>msg := x\<rparr>) s)"
  by (simp add: sched_inv_mod_task sched_inv_start)

lemma mail_alloc_inv:
  assumes inv: "que_inv None (q, s, k)" and cb: "n \<noteq> LOS_NO_WAIT \<Longrightarrow> can_block s"
    and r: "OsQueueMailAlloc qid pool n (b, q, s) = (r, (b', q', s'))"
  shows "que_inv None (q', s', k)"
proof (cases "s' = s")
  case True
  then show ?thesis using r inv by (auto simp: OsQueueMailAlloc_def Let_def split: if_splits prod.splits)
next
  case False
  let ?i = "unat qid"
  have h: "qid < OS_ALL_IPC_QUEUE_LIMIT q" using r False by (auto simp: OsQueueMailAlloc_def not_less split: if_splits)
  note hi = handle_index [OF h]
  have q: "q' = q" "s' = LOS_Schedule (OsSchedTaskWait (QueMemList ?i) n s)" "n \<noteq> LOS_NO_WAIT" "used q ?i"
    using r False hi by (auto simp: OsQueueMailAlloc_def Let_def used_def split: if_splits prod.splits)
  note D = que_invD [OF inv]
  have w: "ls_nodes (lst s') h = (if h = QueMemList ?i then ls_nodes (lst s) (QueMemList ?i) @ [runTask s] else ls_nodes (lst s) h)"
    if "is_wait h" for h
    using wq.wait_waiters [OF D(1) cb [OF q(3)] _ that, of "QueMemList ?i" n] by (simp add: q(2) del: TaskWait_frame)
  have "sched_inv s'" using wq.wait_ok [OF D(1) cb [OF q(3)], of "QueMemList ?i" n] by (simp add: q(2))
  moreover have "que_wait s' i rw = que_wait s i rw" for i rw using w [of "readWriteList i rw"] by simp
  moreover have "ls_nodes (lst s') (QueMemList i) = []" if "\<not> used q i" for i
    using w [of "QueMemList i"] q_contsD(4) [OF D(4) that] that q(4) by auto
  ultimately show ?thesis unfolding q(1) by (rule env_same [OF inv]) (simp_all add: q(2))
qed

lemma mail_resume_inv:
  assumes inv: "que_inv None (q, s, k)" and kr: "k t = None"
    and r: "OsQueueMailAlloc_resume t (b, q, s) = (r, (b', q', s'))"
  shows "que_inv None (q', s', k)"
proof -
  note D = que_invD [OF inv]
  have "sched_inv (clr_status t OS_TASK_STATUS_TIMEOUT s)" by (rule sched_inv_flags [OF D(1)]) auto
  then have s': "sched_inv s'" "lst s' = lst s" "q' = q"
    "\<And>u. u \<noteq> t \<Longrightarrow> status s' u = status s u"
    using r D(1) by (auto simp: OsQueueMailAlloc_resume_def split: if_splits)
  have "hasFlag (status s' u) OS_TASK_STATUS_TIMEOUT = hasFlag (status s u) OS_TASK_STATUS_TIMEOUT" if "k u \<noteq> None" for u
    using that kr s'(4) [of u] by (cases "u = t") simp_all
  then show ?thesis
    unfolding s'(3) using q_contsD(4) [OF D(4)] by (intro env_same [OF inv s'(1)]) (simp_all add: s'(2))
qed

lemma mail_free_inv:
  assumes inv: "que_inv None (q, s, k)" and r: "OsQueueMailFree qid pool mem (b, q, s) = (r, (b', q', s'))"
  shows "que_inv None (q', s', k)"
proof (cases "s' = s")
  case True
  then show ?thesis using r inv by (auto simp: OsQueueMailFree_def Let_def split: if_splits prod.splits list.splits)
next
  case False
  let ?i = "unat qid"
  have h: "qid < OS_ALL_IPC_QUEUE_LIMIT q" using r False by (auto simp: OsQueueMailFree_def not_less split: if_splits)
  note hi = handle_index [OF h]
  obtain t ts where w: "ls_nodes (lst s) (QueMemList ?i) = t # ts"
    and q: "q' = q" "s' = LOS_Schedule (OsSchedTaskWake t (mod_task t (\<lambda>c. c\<lparr>msg := mem\<rparr>) s))" "used q ?i"
    using r False hi by (auto simp: OsQueueMailFree_def Let_def used_def split: if_splits prod.splits list.splits)
  note D = que_invD [OF inv]
  let ?s = "mod_task t (\<lambda>c. c\<lparr>msg := mem\<rparr>) s"
  have i1: "sched_inv ?s" using D(1) by simp
  note wf = wq.wake_first [OF i1, of "QueMemList ?i" t ts]
  have "sched_inv s'" using wf(1) w by (simp add: q(2))
  moreover have "que_wait s' i rw = que_wait s i rw" for i rw using wf(3) [of "readWriteList i rw"] w by (simp add: q(2))
  moreover have "ls_nodes (lst s') (QueMemList i) = []" if "\<not> used q i" for i
    using wf(3) [of "QueMemList i"] w q_contsD(4) [OF D(4) that] that q(3) by (auto simp: q(2))
  ultimately show ?thesis unfolding q(1) by (rule env_same [OF inv]) (simp_all add: q(2))
qed

section \<open>Initialisation and histories\<close>

lemma init_dynamic_fold:
  "(let q' = foldl (\<lambda>a index.
        let b = mod_que index (\<lambda>c. c\<lparr>queueID := of_nat index\<rparr>) a
        in b\<lparr>g_freeQueueList := g_freeQueueList b @ [index]\<rparr>) q [0..<n]
    in g_freeQueueList q' = g_freeQueueList q @ [0..<n] \<and> QUEUE_LIMIT q' = QUEUE_LIMIT q \<and> QUEUE_STATIC q' = QUEUE_STATIC q \<and>
       STATIC_QUEUE_LIMIT q' = STATIC_QUEUE_LIMIT q \<and>
       g_allQueue q' = (\<lambda>i. if i < n then (g_allQueue q i)\<lparr>queueID := of_nat i\<rparr> else g_allQueue q i))"
  by (induction n) (auto simp: Let_def less_Suc_eq fun_eq_iff)

lemma init_static_fold:
  fixes l :: u16
  defines "n \<equiv> unat l"
  shows "(let q' = foldl (\<lambda>a index.
        let b = mod_que (n + index) (\<lambda>c. c\<lparr>queueID := of_nat index + l\<rparr>) a
        in b\<lparr>g_freeStaticQueueList := g_freeStaticQueueList b @ [n + index]\<rparr>) q [0..<m]
    in g_freeStaticQueueList q' = g_freeStaticQueueList q @ [n..<n + m] \<and> g_freeQueueList q' = g_freeQueueList q \<and>
       QUEUE_LIMIT q' = QUEUE_LIMIT q \<and> QUEUE_STATIC q' = QUEUE_STATIC q \<and> STATIC_QUEUE_LIMIT q' = STATIC_QUEUE_LIMIT q \<and>
       g_allQueue q' = (\<lambda>i. if n \<le> i \<and> i < n + m then (g_allQueue q i)\<lparr>queueID := of_nat i\<rparr> else g_allQueue q i))"
proof (induction m)
  case (Suc m)
  have e: "(of_nat m + l :: u16) = of_nat (n + m)" by (simp add: n_def)
  show ?case using Suc by (auto simp: Let_def fun_eq_iff e)
qed (auto simp: fun_eq_iff)

lemma OsQueueInit_free:
  assumes r: "OsQueueInit m1 m2 q0 = (LOS_OK, q)" and a: "all_queues q0 < 65536"
  shows "q_free q" and "\<And>i. \<not> used q i" and "all_queues q = all_queues q0"
proof -
  let ?n = "unat (QUEUE_LIMIT q0)" and ?m = "unat (STATIC_QUEUE_LIMIT q0)"
  let ?q1 = "q0\<lparr>g_allQueue := (\<lambda>i. if i < ?n then zeroQueueCB else g_allQueue q0 i), g_freeQueueList := []\<rparr>"
  let ?q2 = "foldl (\<lambda>a index.
        let b = mod_que index (\<lambda>c. c\<lparr>queueID := of_nat index\<rparr>) a
        in b\<lparr>g_freeQueueList := g_freeQueueList b @ [index]\<rparr>) ?q1 [0..<?n]"
  have f2: "g_freeQueueList ?q2 = [0..<?n]" "QUEUE_LIMIT ?q2 = QUEUE_LIMIT q0" "QUEUE_STATIC ?q2 = QUEUE_STATIC q0"
    "STATIC_QUEUE_LIMIT ?q2 = STATIC_QUEUE_LIMIT q0"
    "\<And>i. g_allQueue ?q2 i = (if i < ?n then zeroQueueCB\<lparr>queueID := of_nat i\<rparr> else g_allQueue q0 i)"
    using init_dynamic_fold [of ?q1 ?n] by (simp_all add: Let_def)
  have "q_free q \<and> (\<forall>i. \<not> used q i) \<and> all_queues q = all_queues q0"
  proof (cases "QUEUE_STATIC q0")
    case False
    then have "q = ?q2" using r by (auto simp: OsQueueInit_def Let_def errno_defs split: if_splits)
    then show ?thesis using a False f2
      by (auto simp: q_free_def used_def all_queues_def zeroQueueCB_def)
  next
    case True
    let ?q3 = "?q2\<lparr>g_allQueue := (\<lambda>i. if ?n \<le> i \<and> i < ?n + ?m then zeroQueueCB else g_allQueue ?q2 i),
                   g_freeStaticQueueList := []\<rparr>"
    have "q = foldl (\<lambda>a index.
          let b = mod_que (?n + index) (\<lambda>c. c\<lparr>queueID := of_nat index + QUEUE_LIMIT q0\<rparr>) a
          in b\<lparr>g_freeStaticQueueList := g_freeStaticQueueList b @ [?n + index]\<rparr>) ?q3 [0..<?m]"
      using r True unfolding OsQueueInit_def Let_def by (auto simp: errno_defs split: if_splits)
    then have f3: "g_freeStaticQueueList q = [?n..<?n + ?m]" "g_freeQueueList q = [0..<?n]" "QUEUE_LIMIT q = QUEUE_LIMIT q0"
      "QUEUE_STATIC q = QUEUE_STATIC q0" "STATIC_QUEUE_LIMIT q = STATIC_QUEUE_LIMIT q0"
      "\<And>i. i < ?n + ?m \<Longrightarrow> g_allQueue q i = zeroQueueCB\<lparr>queueID := of_nat i\<rparr>"
      using init_static_fold [of "QUEUE_LIMIT q0" ?q3 ?m] f2 by (simp_all add: Let_def)
    then show ?thesis using a True by (auto simp: q_free_def used_def all_queues_def zeroQueueCB_def)
  qed
  then show "q_free q" and "\<And>i. \<not> used q i" and "all_queues q = all_queues q0" by blast+
qed

lemma OsQueueInit_inv:
  assumes "OsQueueInit m1 m2 q0 = (LOS_OK, q)" and "all_queues q0 < 65536" and "sched_inv s"
    and "\<And>i. que_wait s i 0 = [] \<and> que_wait s i 1 = [] \<and> ls_nodes (lst s) (QueMemList i) = []"
  shows "que_inv None (q, s, \<lambda>_. None)"
  using OsQueueInit_free [OF assms(1,2)] assms(3,4)
  by (auto simp: que_inv_def q_count_def q_conts_def q_apart_def live_def)

text \<open>The steps of a history.\<close>

inductive que_step :: "qhist \<Rightarrow> qhist \<Rightarrow> bool" where
  que_create: "fresh_area (if QUEUE_STATIC q \<and> sm \<noteq> 0 then sm else alloc) (unat len * unat (mx + 4)) (q, s, k) \<Longrightarrow>
    OsQueueCreate name len nn sm mx alloc (q, s) = (r, (q', s')) \<Longrightarrow> que_step (q, s, k) (q', s', k)"
| que_delete: "LOS_QueueDelete qid mf (q, s) = (r, (q', s')) \<Longrightarrow> que_step (q, s, k) (q', s', k)"
| que_operate: "qid < OS_ALL_IPC_QUEUE_LIMIT q \<Longrightarrow> caller_ok ty buf sz n (q, s, k) \<Longrightarrow>
    hist_operate qid ty buf sz n (q, s, k) = (x, h') \<Longrightarrow> que_step (q, s, k) h'"
| que_resume: "k (runTask s) = Some c \<Longrightarrow> \<not> hasFlag (status s (runTask s)) OS_TASK_STATUS_PEND \<Longrightarrow>
    hist_resume (q, s, k) = (x, h') \<Longrightarrow> que_step (q, s, k) h'"
| que_mail_alloc: "(n \<noteq> LOS_NO_WAIT \<Longrightarrow> can_block s) \<Longrightarrow>
    OsQueueMailAlloc qid pool n (b, q, s) = (y, (b', q', s')) \<Longrightarrow> que_step (q, s, k) (q', s', k)"
| que_mail_resume: "k (runTask s) = None \<Longrightarrow>
    OsQueueMailAlloc_resume (runTask s) (b, q, s) = (z, (b', q', s')) \<Longrightarrow> que_step (q, s, k) (q', s', k)"
| que_mail_free: "OsQueueMailFree qid pool mem (b, q, s) = (z, (b', q', s')) \<Longrightarrow> que_step (q, s, k) (q', s', k)"
| que_other: "env_ok (q, s, k) s' m' \<Longrightarrow> que_step (q, s, k) (q\<lparr>qmem := m'\<rparr>, s', k)"

lemma que_step_inv:
  assumes "que_step h h'" and "que_inv None h"
  shows "que_inv None h'"
  using assms
proof (induction rule: que_step.induct)
  case (que_create q sm alloc len mx s k name nn r q' s')
  then show ?case using OsQueueCreate_ok [OF que_create(3,1), of name nn] by (auto split: prod.splits)
next
  case (que_delete qid mf q s r q' s' k)
  then show ?case using LOS_QueueDelete_ok [OF que_delete(2), of qid mf] by (auto split: prod.splits)
next
  case (que_operate qid q ty buf sz n s k x h')
  then show ?case using hist_operate_ok [OF que_operate(4,1,2)] by (auto simp: op_result_def split: prod.splits)
next
  case (que_resume k s c q x h')
  then show ?case using hist_resume_ok [OF que_resume(4,1,2)] by (auto simp: op_result_def split: prod.splits)
next
  case (que_mail_alloc n s qid pool b q y b' q' s' k)
  then show ?case by (blast intro: mail_alloc_inv)
next
  case (que_mail_resume k s b q z b' q' s')
  then show ?case by (blast intro: mail_resume_inv)
next
  case (que_mail_free qid pool mem b q s z b' q' s' k)
  then show ?case by (blast intro: mail_free_inv)
next
  case (que_other q s k s' m')
  then show ?case by (blast intro: env_inv(1))
qed

lemma que_steps_inv: "que_step\<^sup>*\<^sup>* h h' \<Longrightarrow> que_inv None h \<Longrightarrow> que_inv None h'"
  by (induction rule: rtranclp_induct) (auto intro: que_step_inv)

section \<open>Properties\<close>


definition demo_queues0 :: "mem8 \<Rightarrow> queues" where
  "demo_queues0 m = \<lparr>QUEUE_STATIC = False, QUEUE_LIMIT = 2, STATIC_QUEUE_LIMIT = 0, g_allQueue = (\<lambda>_. zeroQueueCB),
     g_freeQueueList = [], g_freeStaticQueueList = [], qmem = m\<rparr>"

definition demo_queues1 :: "mem8 \<Rightarrow> queues" where
  "demo_queues1 m = snd (OsQueueInit True True (demo_queues0 m))"

definition demo_queues :: "mem8 \<Rightarrow> queues" where
  "demo_queues m = fst (snd (OsQueueCreate 0 2 True 0 8 0x20000000 (demo_queues1 m, demo_sched)))"

lemma demo_queues1_eq:
  "OsQueueInit True True (demo_queues0 m) = (LOS_OK, demo_queues1 m)"
  "demo_queues1 m = (demo_queues0 m)\<lparr>g_allQueue := (\<lambda>i. zeroQueueCB\<lparr>queueID := if i = 1 then 1 else 0\<rparr>), g_freeQueueList := [0, 1]\<rparr>"
  by (auto simp: demo_queues1_def OsQueueInit_def demo_queues0_def OS_ALL_IPC_QUEUE_LIMIT_def Let_def
      upt_conv_Cons zeroQueueCB_def fun_eq_iff One_nat_def)

lemma demo_lists: "ls_nodes demo_lst (readWriteList i rw) = []" "ls_nodes demo_lst (QueMemList i) = []"
  by (simp_all add: demo_lst_def readWriteList_def)

lemma demo_init_inv: "que_inv None (demo_queues1 m, demo_sched, \<lambda>_. None)"
  by (rule OsQueueInit_inv [OF demo_queues1_eq(1)])
    (simp_all add: all_queues_def demo_queues0_def demo_sched_inv demo_lists)

lemma demo_create:
  "OsQueueCreate 0 2 True 0 8 0x20000000 (demo_queues1 m, demo_sched) =
     ((LOS_OK, Some 0, None), (demo_queues m, demo_sched))"
  "demo_queues m = mod_que 0 (queue_setup 0 2 12 0x20000000) ((demo_queues1 m)\<lparr>g_freeQueueList := [1]\<rparr>)"
proof -
  have "queue_lists 0 demo_sched = demo_sched" by (rule queue_lists_same) (simp_all add: demo_lists)
  then show "OsQueueCreate 0 2 True 0 8 0x20000000 (demo_queues1 m, demo_sched) =
     ((LOS_OK, Some 0, None), (demo_queues m, demo_sched))"
    "demo_queues m = mod_que 0 (queue_setup 0 2 12 0x20000000) ((demo_queues1 m)\<lparr>g_freeQueueList := [1]\<rparr>)"
    by (simp_all add: demo_queues_def OsQueueCreate_def demo_queues1_eq(2) demo_queues0_def Let_def
        zeroQueueCB_def queue_setup_def)
qed

lemma demo_fresh: "fresh_area 0x20000000 (unat (2 :: u16) * unat (8 + 4 :: u16)) (demo_queues1 m, demo_sched, \<lambda>_. None)"
  by (simp add: fresh_area_def no_wrap_def used_def demo_queues1_eq(2) zeroQueueCB_def live_def)

lemma demo_step: "que_step (demo_queues1 m, demo_sched, \<lambda>_. None) (demo_queues m, demo_sched, \<lambda>_. None)"
  by (rule que_create [OF _ demo_create(1)]) (use demo_fresh [of m] in \<open>simp add: demo_queues1_eq(2) demo_queues0_def\<close>)

lemma demo_queues_inv: "que_inv None (demo_queues m, demo_sched, \<lambda>_. None)"
  by (rule que_step_inv [OF demo_step demo_init_inv])

lemma demo_used: "used (demo_queues m) i \<longleftrightarrow> i = 0"
  by (auto simp: used_def demo_create(2) demo_queues1_eq(2) demo_queues0_def all_queues_def queue_setup_def zeroQueueCB_def)


text \<open>C25: the queue is a sequence of messages.  A call that reports success on the queue \<open>qid\<close>, at once or
  after having waited, appends the bytes of the buffer to the sequence (or puts them in front), or
  takes the first message and delivers it; every other outcome (an error, a timeout, the task waits)
  leaves the sequence as it was, and no call affects another queue.\<close>

theorem queue_refines_fifo:
  assumes inv: "que_inv None (q, s, k)"
  shows "(qid < OS_ALL_IPC_QUEUE_LIMIT q \<and> caller_ok ty buf sz timeOut (q, s, k) \<longrightarrow>
      (case hist_operate qid ty buf sz timeOut (q, s, k) of
         ((r, sz'), h') \<Rightarrow> op_result (unat qid) ty buf sz (q, s, k) (r = Some LOS_OK) sz' h')) \<and>
    (k (runTask s) = Some c \<and> \<not> hasFlag (status s (runTask s)) OS_TASK_STATUS_PEND \<longrightarrow>
      (case hist_resume (q, s, k) of
         ((r, sz'), h') \<Rightarrow> op_result (kQue c) (kType c) (kBuf c) (kSize c) (q, s, k) (r = LOS_OK) sz' h'))"
  by (intro conjI impI; (rule hist_operate_ok [OF inv] | rule hist_resume_ok [OF inv])) simp_all

lemma demo_cb: "g_allQueue (demo_queues m) 0 = \<lparr>queue = 0x20000000, queueName = 0, queueState = 1, queueLen = 2,
     queueSize = 12, queueID = 0, queueHead = 0, queueTail = 0, readWriteableCnt = (\<lambda>_. 0)(1 := 2)\<rparr>"
  by (simp add: demo_create(2) demo_queues1_eq(2) demo_queues0_def queue_setup_def zeroQueueCB_def fun_eq_iff)

lemma demo_limit: "OS_ALL_IPC_QUEUE_LIMIT (demo_queues m) = 2" "qmem (demo_queues m) = m"
  by (simp_all add: OS_ALL_IPC_QUEUE_LIMIT_def demo_create(2) demo_queues1_eq(2) demo_queues0_def)

lemma demo_caller: "caller_ok 3 0x30000000 4 0 (demo_queues m, demo_sched, \<lambda>_. None)"
  by (simp add: caller_ok_def valid_type_def demo_used demo_cb buf_ok_def buf_len_def OS_QUEUE_IS_POINT_def
      no_wrap_def apart_def)

theorem queue_refines_fifo_witness:
  "case hist_operate 0 3 0x30000000 4 0 (demo_queues (\<lambda>_. 7), demo_sched, \<lambda>_. None) of
     ((r, sz'), h') \<Rightarrow> que_inv None h'"
proof -
  have "0 < OS_ALL_IPC_QUEUE_LIMIT (demo_queues (\<lambda>_. 7))" by (simp add: demo_limit)
  then show ?thesis
    using queue_refines_fifo [OF demo_queues_inv, of 0 "\<lambda>_. 7" 3 "0x30000000" 4 0] demo_caller
    by (auto simp: op_result_def split: prod.splits)
qed

text \<open>A call without waiting on a queue that no other task is using.\<close>

lemma length_msgs: "length (msgs None (q, s, k) i) = cnt (q, s, k) i 0"
  by (simp add: msgs_def contents_def owed_def)

definition same_geo :: "queues \<Rightarrow> queues \<Rightarrow> bool" where
  "same_geo q q' \<longleftrightarrow> QUEUE_STATIC q' = QUEUE_STATIC q \<and> QUEUE_LIMIT q' = QUEUE_LIMIT q \<and>
     STATIC_QUEUE_LIMIT q' = STATIC_QUEUE_LIMIT q \<and>
     (\<forall>j. queue (g_allQueue q' j) = queue (g_allQueue q j) \<and> queueSize (g_allQueue q' j) = queueSize (g_allQueue q j) \<and>
        queueLen (g_allQueue q' j) = queueLen (g_allQueue q j) \<and> queueState (g_allQueue q' j) = queueState (g_allQueue q j))"

lemma BufferOperate_geo: "OsQueueBufferOperate i ty buf sz q = (sz', q') \<Longrightarrow> same_geo q q'"
  by (auto simp: OsQueueBufferOperate_def queue_position_def same_geo_def Let_def split: if_splits option.splits prod.splits)

lemma same_geo_used:
  assumes "same_geo q q'"
  shows "OS_ALL_IPC_QUEUE_LIMIT q' = OS_ALL_IPC_QUEUE_LIMIT q" "used q' j = used q j"
    "buf_ok (g_allQueue q' j) ty buf sz = buf_ok (g_allQueue q j) ty buf sz"
    "OsQueueOperateParamCheck (g_allQueue q' j) ty sz = OsQueueOperateParamCheck (g_allQueue q j) ty sz"
  using assms by (simp_all add: same_geo_def OS_ALL_IPC_QUEUE_LIMIT_def used_def all_queues_def buf_ok_def OsQueueOperateParamCheck_def)

lemma operate_success:
  assumes inv: "que_inv None (q, s, k)" and h: "qid < OS_ALL_IPC_QUEUE_LIMIT q"
    and al: "\<forall>t c. live s k t c \<longrightarrow> kQue c \<noteq> unat qid" and c: "caller_ok ty buf sz 0 (q, s, k)"
    and chk: "OsQueueOperateParamCheck (g_allQueue q (unat qid)) ty sz = LOS_OK"
    and nz: "readWriteableCnt (g_allQueue q (unat qid)) (OS_QUEUE_READ_WRITE_GET ty) \<noteq> 0"
  obtains sz' q' where "OsQueueOperate qid ty buf sz 0 (q, s) = ((Some LOS_OK, sz'), (q', s))"
    and "op_result (unat qid) ty buf sz (q, s, k) True sz' (q', s, k)" and "same_geo q q'"
proof -
  let ?i = "unat qid" and ?rw = "OS_QUEUE_READ_WRITE_GET ty"
  have u: "used q ?i" using chk handle_index(2) [OF h] by (auto simp: used_def OsQueueOperateParamCheck_def split: if_splits)
  have w: "que_wait s ?i 0 = []" "que_wait s ?i 1 = []" using no_task_inside [OF inv u] al by blast+
  let ?q = "mod_que ?i (\<lambda>c. c\<lparr>readWriteableCnt := (readWriteableCnt c)(?rw := readWriteableCnt c ?rw - 1)\<rparr>) q"
  obtain sz' q1 where b: "OsQueueBufferOperate ?i ty buf sz ?q = (sz', q1)" by force
  let ?tmp = "if ?rw = 0 then 1 else 0 :: u32"
  let ?q' = "mod_que ?i (\<lambda>c. c\<lparr>readWriteableCnt := (readWriteableCnt c)(?tmp := readWriteableCnt c ?tmp + 1)\<rparr>) q1"
  have "que_wait s ?i ?tmp = []" using w by simp
  then have o: "OsQueueOperate qid ty buf sz 0 (q, s) = ((Some LOS_OK, sz'), (?q', s))"
    using chk nz b handle_index(1) [OF h] by (simp add: OsQueueOperate_def queue_transfer_def Let_def)
  moreover have "op_result ?i ty buf sz (q, s, k) True sz' (?q', s, k)"
    using hist_operate_ok [OF inv h c] o by (simp add: hist_operate_def)
  moreover have "same_geo q ?q'" using BufferOperate_geo [OF b] by (auto simp: same_geo_def)
  ultimately show thesis by (rule that)
qed

lemma write_then_read:
  assumes inv: "que_inv None (q, s, k)" and h: "qid < OS_ALL_IPC_QUEUE_LIMIT q" and u: "used q (unat qid)"
    and al: "\<forall>t c. live s k t c \<longrightarrow> kQue c \<noteq> unat qid"
    and room: "readWriteableCnt (g_allQueue q (unat qid)) OS_QUEUE_WRITE \<noteq> 0"
    and ty: "ty = 1 \<or> ty = 3 \<and> msgs None (q, s, k) (unat qid) = []"
    and sz: "0 < sz" "unat sz + 4 \<le> unat (queueSize (g_allQueue q (unat qid)))" "sz \<le> sz2" "sz2 < SECUREC_MEM_MAX_LEN"
    and src: "\<forall>j. used q j \<longrightarrow> buf_ok (g_allQueue q j) 0 src sz"
    and dst: "\<forall>j. used q j \<longrightarrow> buf_ok (g_allQueue q j) 0 dst sz2"
  shows "\<exists>q1 q2. OsQueueOperate qid ty src sz 0 (q, s) = ((Some LOS_OK, sz), (q1, s)) \<and>
     OsQueueOperate qid 0 dst sz2 0 (q1, s) = ((Some LOS_OK, sz), (q2, s)) \<and>
     bytes (qmem q2) dst (unat sz) = bytes (qmem q) src (unat sz) \<and>
     msgs None (q2, s, k) (unat qid) = msgs None (q, s, k) (unat qid) \<and> OS_ALL_IPC_QUEUE_LIMIT q1 = OS_ALL_IPC_QUEUE_LIMIT q"
proof -
  let ?i = "unat qid"
  have np: "\<not> OS_QUEUE_IS_POINT ty" "\<not> OS_QUEUE_IS_POINT 0" "OS_QUEUE_IS_READ 0" "\<not> OS_QUEUE_IS_READ ty"
    "OS_QUEUE_READ_WRITE_GET ty = 1" "OS_QUEUE_READ_WRITE_GET 0 = 0" "valid_type ty" "valid_type 0"
    using ty by (auto simp: OS_QUEUE_IS_POINT_def OS_QUEUE_IS_READ_def OS_QUEUE_READ_WRITE_GET_def valid_type_def)
  have bo: "buf_ok c ty src sz = buf_ok c 0 src sz" for c using np by (simp add: buf_ok_def buf_len_def)
  have c1: "caller_ok ty src sz 0 (q, s, k)" using src sz(1) np bo by (auto simp: caller_ok_def)
  have lt: "sz < SECUREC_MEM_MAX_LEN" using sz(3,4) by (rule order_le_less_trans)
  have "4 \<le> (ucast (queueSize (g_allQueue q ?i)) :: u32)" using sz(2) by (simp add: word_le_nat_alt)
  then have "unat (ucast (queueSize (g_allQueue q ?i)) - 4 :: u32) = unat (queueSize (g_allQueue q ?i)) - 4"
    using unat_sub by fastforce
  then have "sz \<le> ucast (queueSize (g_allQueue q ?i)) - 4" using sz(2) by (simp add: word_le_nat_alt)
  then have k1: "OsQueueOperateParamCheck (g_allQueue q ?i) ty sz = LOS_OK"
    using u lt by (simp add: OsQueueOperateParamCheck_def used_def not_less not_le)
  obtain sz1 q1 where w: "OsQueueOperate qid ty src sz 0 (q, s) = ((Some LOS_OK, sz1), (q1, s))"
    "op_result ?i ty src sz (q, s, k) True sz1 (q1, s, k)" "same_geo q q1"
    by (rule operate_success [OF inv h al c1 k1]) (use room np in \<open>simp_all\<close>)
  note sg = same_geo_used [OF w(3)]
  obtain nb where nb: "msgs None (q1, s, k) ?i = put ty nb (msgs None (q, s, k) ?i)" "msg_len nb = sz"
    "copy_msg nb = bytes (qmem q) src (unat sz)" "sz1 = sz"
    using w(2) np by (auto simp: op_result_def moved_def wrote_def)
  have inv1: "que_inv None (q1, s, k)" using w(2) by (simp add: op_result_def)
  have u1: "used q1 ?i" using u by (simp add: sg(2))
  have "granted s k ?i 0 = {}" using al by (auto simp: granted_def)
  then have "unat (readWriteableCnt (g_allQueue q1 ?i) 0) = length (msgs None (q1, s, k) ?i)"
    by (simp add: length_msgs cnt_def)
  then have nz: "readWriteableCnt (g_allQueue q1 ?i) (OS_QUEUE_READ_WRITE_GET 0) \<noteq> 0"
    using nb(1) np by (auto simp: put_def split: if_splits)
  have "0 < sz2" using sz(1,3) by (rule order_less_le_trans)
  then have c2: "caller_ok 0 dst sz2 0 (q1, s, k)" using dst np sg by (auto simp: caller_ok_def)
  have k2: "OsQueueOperateParamCheck (g_allQueue q1 ?i) 0 sz2 = LOS_OK"
    using u sz(4) by (simp add: sg(4)) (simp add: OsQueueOperateParamCheck_def used_def OS_QUEUE_IS_WRITE_def OS_QUEUE_READ_WRITE_GET_def not_le)
  have h1: "qid < OS_ALL_IPC_QUEUE_LIMIT q1" using h by (simp add: sg(1))
  obtain sz3 q2 where r: "OsQueueOperate qid 0 dst sz2 0 (q1, s) = ((Some LOS_OK, sz3), (q2, s))"
    "op_result ?i 0 dst sz2 (q1, s, k) True sz3 (q2, s, k)"
    by (rule operate_success [OF inv1 h1 al c2 k2 nz]) blast
  have hd: "msgs None (q1, s, k) ?i = nb # msgs None (q, s, k) ?i"
    using nb(1) ty by (auto simp: put_def OS_QUEUE_OPERATE_GET_def)
  have len: "length nb = unat (queueSize (g_allQueue q1 ?i))"
    using contents_length [of nb "g_allQueue q1 ?i" "qmem q1" "cnt (q1, s, k) ?i 0 + owed None ?i 0"] hd
    by (simp add: msgs_def)
  have "queueSize (g_allQueue q1 ?i) = queueSize (g_allQueue q ?i)" using w(3) by (simp add: same_geo_def)
  then have ok: "unat (msg_len nb) \<le> length nb" using nb(2) sz(2) len by simp
  have "sz3 = min sz2 sz" "bytes (qmem q2) dst (unat sz3) = take (unat sz3) nb"
    "msgs None (q2, s, k) ?i = msgs None (q, s, k) ?i"
    using r(2) np hd ok nb(2) by (auto simp: op_result_def moved_def got_def)
  moreover have "min sz2 sz = sz" using sz(3) by simp
  moreover have "take (unat sz) nb = bytes (qmem q) src (unat sz)" using nb(2,3) by (simp add: copy_msg_def)
  ultimately show ?thesis using w(1) r(1) nb(4) sg(1) by auto
qed

text \<open>C26: what is written is read back.  On a queue with a free node that no other task is using, a message
  written in front, or written at the end of an empty queue, and then read into a buffer that is
  large enough arrives with exactly its length and its bytes, and the queue is as before.\<close>

theorem queue_round_trip:
  assumes "que_inv None (q, s, k)" and "qid < OS_ALL_IPC_QUEUE_LIMIT q" and "used q (unat qid)"
    and "\<forall>t c. live s k t c \<longrightarrow> kQue c \<noteq> unat qid"
    and "readWriteableCnt (g_allQueue q (unat qid)) OS_QUEUE_WRITE \<noteq> 0"
    and "0 < sz" and "unat sz + 4 \<le> unat (queueSize (g_allQueue q (unat qid)))" and "sz \<le> sz2" and "sz2 < SECUREC_MEM_MAX_LEN"
    and "\<forall>j. used q j \<longrightarrow> buf_ok (g_allQueue q j) 0 src sz" and "\<forall>j. used q j \<longrightarrow> buf_ok (g_allQueue q j) 0 dst sz2"
    and front: "w = LOS_QueueWriteHeadCopy \<or> w = LOS_QueueWriteCopy \<and> msgs None (q, s, k) (unat qid) = []"
  shows "\<exists>q1 q2. w qid src sz LOS_NO_WAIT (q, s) = (Some LOS_OK, (q1, s)) \<and>
     LOS_QueueReadCopy qid dst (Some sz2) LOS_NO_WAIT (q1, s) = ((Some LOS_OK, Some sz), (q2, s)) \<and>
     bytes (qmem q2) dst (unat sz) = bytes (qmem q) src (unat sz) \<and>
     msgs None (q2, s, k) (unat qid) = msgs None (q, s, k) (unat qid)"
proof -
  define ty :: u32 where "ty = (if w = LOS_QueueWriteHeadCopy then 1 else 3)"
  have ty: "ty = 1 \<or> ty = 3 \<and> msgs None (q, s, k) (unat qid) = []" using front by (auto simp: ty_def)
  obtain q1 q2 where o: "OsQueueOperate qid ty src sz 0 (q, s) = ((Some LOS_OK, sz), (q1, s))"
    "OsQueueOperate qid 0 dst sz2 0 (q1, s) = ((Some LOS_OK, sz), (q2, s))"
    "bytes (qmem q2) dst (unat sz) = bytes (qmem q) src (unat sz)"
    "msgs None (q2, s, k) (unat qid) = msgs None (q, s, k) (unat qid)" "OS_ALL_IPC_QUEUE_LIMIT q1 = OS_ALL_IPC_QUEUE_LIMIT q"
    using write_then_read [OF assms(1-5) ty assms(6-11)] by blast
  have nz: "src \<noteq> 0" "dst \<noteq> 0" "sz2 \<noteq> 0" "\<not> OS_ALL_IPC_QUEUE_LIMIT q \<le> qid" "sz \<noteq> 0"
    using assms by (auto simp: buf_ok_def)
  have "w qid src sz LOS_NO_WAIT (q, s) = (Some LOS_OK, (q1, s))"
    using front o(1) nz
    by (auto simp: LOS_QueueWriteHeadCopy_def LOS_QueueWriteCopy_def OsQueueWriteParameterCheck_def
        OS_QUEUE_OPERATE_TYPE_def ty_def Let_def split: if_splits)
  moreover have "LOS_QueueReadCopy qid dst (Some sz2) LOS_NO_WAIT (q1, s) = ((Some LOS_OK, Some sz), (q2, s))"
    using o(2,5) nz by (simp add: LOS_QueueReadCopy_def OsQueueReadParameterCheck_def OS_QUEUE_OPERATE_TYPE_def Let_def)
  ultimately show ?thesis using o(3,4) by blast
qed

lemma demo_bufs:
  "\<forall>j. used (demo_queues m) j \<longrightarrow> buf_ok (g_allQueue (demo_queues m) j) 0 0x30000000 4"
  "\<forall>j. used (demo_queues m) j \<longrightarrow> buf_ok (g_allQueue (demo_queues m) j) 0 0x30000010 8"
  by (simp_all add: demo_used demo_cb buf_ok_def buf_len_def OS_QUEUE_IS_POINT_def no_wrap_def apart_def)

theorem queue_round_trip_witness:
  "\<exists>q1 q2. LOS_QueueWriteHeadCopy 0 0x30000000 4 LOS_NO_WAIT (demo_queues (\<lambda>a. ucast a), demo_sched) = (Some LOS_OK, (q1, demo_sched)) \<and>
     LOS_QueueReadCopy 0 0x30000010 (Some 8) LOS_NO_WAIT (q1, demo_sched) = ((Some LOS_OK, Some 4), (q2, demo_sched)) \<and>
     bytes (qmem q2) 0x30000010 4 = [0, 1, 2, 3]"
proof -
  have b: "bytes (\<lambda>a. ucast a) (0x30000000 :: u32) 4 = [0, 1, 2, 3]"
    by (simp add: bytes_def upt_conv_Cons)
  have l: "0 < OS_ALL_IPC_QUEUE_LIMIT (demo_queues (\<lambda>a. ucast a))" by (simp add: demo_limit)
  show ?thesis
    using queue_round_trip [OF demo_queues_inv l _ _ _ _ _ _ _ _ _ disjI1 [OF refl],
        of 4 8 "0x30000000" "0x30000010"] demo_bufs [of "\<lambda>a. ucast a"] b
    by (simp add: demo_used demo_cb live_def SECUREC_MEM_MAX_LEN_def demo_limit) blast
qed



lemma handle_same [simp]: "OsGetQueueHandle qid (q\<lparr>qmem := m\<rparr>) = OsGetQueueHandle qid q"
  "OS_ALL_IPC_QUEUE_LIMIT (q\<lparr>qmem := m\<rparr>) = OS_ALL_IPC_QUEUE_LIMIT q"
  "OsGetQueueHandle qid (q\<lparr>g_allQueue := f\<rparr>) = OsGetQueueHandle qid q"
  "OS_ALL_IPC_QUEUE_LIMIT (q\<lparr>g_allQueue := f\<rparr>) = OS_ALL_IPC_QUEUE_LIMIT q"
  by (auto simp: OsGetQueueHandle_def OS_ALL_IPC_QUEUE_LIMIT_def)

text \<open>C28: a pointer written with \<open>LOS_QueueWrite\<close> leaves the length field of its node as it was.  When the
  reader of an empty queue then uses \<open>LOS_QueueReadCopy\<close>, the number of bytes it gets is not four but
  what that field held before (in a queue just created: whatever the memory held), up to the size of
  the buffer.  The only bound is the buffer, so a large value copies memory behind the node, and
  behind the queue, to the reader.\<close>

theorem queue_stale_length:
  assumes q: "qid < OS_ALL_IPC_QUEUE_LIMIT q" "OsGetQueueHandle qid q = i" "g_allQueue q i = c" "queueState c \<noteq> OS_QUEUE_UNUSED"
    and cnt: "readWriteableCnt c OS_QUEUE_READ = 0" "readWriteableCnt c OS_QUEUE_WRITE \<noteq> 0" "queueHead c = queueTail c"
    and wait: "\<forall>rw. ls_nodes (lst s) (readWriteList i rw) = []"
    and node: "node = queueNode c (queueHead c)" "8 \<le> unat (queueSize c)" "no_wrap node (unat (queueSize c))" "node \<noteq> 0"
    and slot: "p \<noteq> 0" "no_wrap slot 4" "apart slot 4 node (unat (queueSize c))"
    and dst: "dst \<noteq> 0" "0 < sz" "sz < SECUREC_MEM_MAX_LEN" "no_wrap dst (unat sz)" "no_wrap node (unat sz)" "apart dst (unat sz) node (unat sz)"
    and l: "l = min sz (load32 (qmem q) (node + ucast (queueSize c) - 4))"
  shows "\<exists>q1 q2. LOS_QueueWrite slot qid p n LOS_NO_WAIT (q, s) = (Some LOS_OK, (q1, s)) \<and>
     LOS_QueueReadCopy qid dst (Some sz) LOS_NO_WAIT (q1, s) = ((Some LOS_OK, Some l), (q2, s)) \<and>
     bytes (qmem q2) dst (unat l) = bytes (qmem q1) node (unat l)"
proof -
  let ?t = "if (ucast (queueTail c) + 1 :: u32) = ucast (queueLen c) then 0 else queueTail c + 1"
  let ?m1 = "store32 node p (store32 slot p (qmem q))"
  let ?q1 = "(mod_que i (\<lambda>_. c\<lparr>queueTail := ?t, readWriteableCnt :=
     (readWriteableCnt c)(1 := readWriteableCnt c 1 - 1, 0 := 1)\<rparr>) q)\<lparr>qmem := ?m1\<rparr>"
  let ?m2 = "memcpy dst node l ?m1"
  let ?q2 = "q\<lparr>qmem := ?m2, g_allQueue := (g_allQueue q)(i := c\<lparr>queueTail := ?t, queueHead := ?t\<rparr>)\<rparr>"
  have ty: "OS_QUEUE_OPERATE_TYPE 1 1 1 = 7" "OS_QUEUE_OPERATE_TYPE 0 0 0 = 0" "OS_QUEUE_READ_WRITE_GET 7 = 1"
    "OS_QUEUE_READ_WRITE_GET 0 = 0" "OS_QUEUE_OPERATE_GET 7 = 3" "OS_QUEUE_OPERATE_GET 0 = 0"
    "OS_QUEUE_IS_POINT 7" "\<not> OS_QUEUE_IS_POINT 0" "\<not> OS_QUEUE_IS_READ 7" "OS_QUEUE_IS_READ 0" "OS_QUEUE_IS_WRITE 7" "\<not> OS_QUEUE_IS_WRITE 0"
    by (simp_all add: OS_QUEUE_OPERATE_TYPE_def OS_QUEUE_READ_WRITE_GET_def OS_QUEUE_OPERATE_GET_def OS_QUEUE_IS_POINT_def
        OS_QUEUE_IS_READ_def OS_QUEUE_IS_WRITE_def)
  have big: "\<not> (ucast (queueSize c) - 4 :: u32) < 4"
    using node(2) by (simp add: word_less_nat_alt unat_sub_if' word_le_nat_alt)
  have w: "LOS_QueueWrite slot qid p n LOS_NO_WAIT (q, s) = (Some LOS_OK, (?q1, s))"
    using q cnt wait slot(1) big
    by (simp add: LOS_QueueWrite_def OsQueueWriteParameterCheck_def OsQueueOperate_def OsQueueOperateParamCheck_def
        queue_transfer_def OsQueueBufferOperate_def queue_position_def ty Let_def SECUREC_MEM_MAX_LEN_def node(1) queueNode_def)
  have len: "unat (node + ucast (queueSize c) - 4) = unat node + unat (queueSize c) - 4"
    "node + ucast (queueSize c) - 4 = node + of_nat (unat (queueSize c) - 4)"
  proof -
    show e: "node + ucast (queueSize c) - 4 = node + of_nat (unat (queueSize c) - 4)"
      using node(2) by (simp add: of_nat_diff)
    show "unat (node + ucast (queueSize c) - 4) = unat node + unat (queueSize c) - 4"
      unfolding e using unat_off [OF node(3), of "unat (queueSize c) - 4"] node(2) by simp
  qed
  have keep: "load32 ?m1 (node + ucast (queueSize c) - 4) = load32 (qmem q) (node + ucast (queueSize c) - 4)"
  proof (rule load32_cong)
    fix k :: nat assume "k < 4"
    then have e: "node + ucast (queueSize c) - 4 + of_nat k = node + of_nat (unat (queueSize c) - 4 + k)"
      "unat (node + of_nat (unat (queueSize c) - 4 + k)) = unat node + unat (queueSize c) - 4 + k"
      using unat_off [OF node(3), of "unat (queueSize c) - 4 + k"] node(2) by (simp_all add: len(2))
    have "no_wrap node 4" using node(2,3) by (simp add: no_wrap_def)
    then have "store32 node p (store32 slot p (qmem q)) (node + of_nat (unat (queueSize c) - 4 + k)) =
        store32 slot p (qmem q) (node + of_nat (unat (queueSize c) - 4 + k))"
      using node(2) by (intro store32_outside) (assumption, unfold e(2), linarith)
    also have "\<dots> = qmem q (node + of_nat (unat (queueSize c) - 4 + k))"
      using slot(3) node(2) \<open>k < 4\<close> by (intro store32_outside slot(2)) (unfold e(2) apart_def, linarith)
    finally show "?m1 (node + ucast (queueSize c) - 4 + of_nat k) = qmem q (node + ucast (queueSize c) - 4 + of_nat k)"
      unfolding e(1) .
  qed
  have le: "l \<le> sz" by (simp add: l)
  then have nl: "unat l \<le> unat sz" by (simp add: word_le_nat_alt)
  have cp: "memcpy_s dst sz node l ?m1 = (EOK, ?m2)"
    using dst node(4) le nl by (intro memcpy_s_apart0) (auto simp: no_wrap_def apart_def)
  have r: "LOS_QueueReadCopy qid dst (Some sz) LOS_NO_WAIT (?q1, s) = ((Some LOS_OK, Some l), (?q2, s))"
  proof -
    have nd: "queue c + ucast (queueTail c) * ucast (queueSize c) = node" using node(1) cnt(3) by (simp add: queueNode_def)
    have sel: "(if sz < load32 ?m1 (node + ucast (queueSize c) - 4) then sz else load32 ?m1 (node + ucast (queueSize c) - 4)) = l"
      unfolding keep l by (auto simp: min_def)
    have neg: "\<not> OS_ALL_IPC_QUEUE_LIMIT q \<le> qid" "sz \<noteq> 0" "\<not> SECUREC_MEM_MAX_LEN \<le> sz" using q(1) dst(2,3) by auto
    have rc: "(readWriteableCnt c)(0 := 0) = readWriteableCnt c" using cnt(1) by auto
    show ?thesis
      unfolding LOS_QueueReadCopy_def OsQueueReadParameterCheck_def OsQueueOperate_def OsQueueOperateParamCheck_def
        queue_transfer_def OsQueueBufferOperate_def queue_position_def Let_def
      using q cnt(3) wait dst neg
      by (cases "(ucast (queueTail c) + 1 :: u32) = ucast (queueLen c)")
        (simp_all add: ty nd queueNode_def sel cp rc split del: if_split cong: if_cong)
  qed
  have "bytes ?m2 dst (unat l) = bytes ?m1 node (unat l)"
    using dst(4) nl by (intro bytes_eqI memcpy_inside) (auto simp: no_wrap_def)
  with w r show ?thesis by force
qed
lemma demo_handle: "OsGetQueueHandle 0 (demo_queues m) = 0"
  by (simp add: OsGetQueueHandle_def demo_create(2) demo_queues1_eq(2) demo_queues0_def)

theorem queue_stale_length_witness:
  "\<exists>q1 q2. LOS_QueueWrite 0x30000000 0 0x1234 4 LOS_NO_WAIT (demo_queues (\<lambda>_. 0x7F), demo_sched) = (Some LOS_OK, (q1, demo_sched)) \<and>
     LOS_QueueReadCopy 0 0x30000010 (Some 64) LOS_NO_WAIT (q1, demo_sched) = ((Some LOS_OK, Some 64), (q2, demo_sched)) \<and>
     bytes (qmem q2) 0x30000010 64 = bytes (qmem q1) 0x20000000 64"
  using queue_stale_length [of 0 "demo_queues (\<lambda>_. 0x7F)" 0 _ demo_sched "0x20000000" "0x1234" "0x30000000" "0x30000010" 64 64 4]
  by (simp add: demo_limit demo_handle demo_cb demo_lists queueNode_def no_wrap_def apart_def load32_def
      SECUREC_MEM_MAX_LEN_def)

end
