(* ===== verification/Swtmr.thy ===== *)
theory Swtmr
  imports Task Queue_Props
begin

text \<open>
  Software timers, \<open>src/kernel/src/los_swtmr.c\<close> (without the alignment option).  The control blocks
  are indexed as in \<open>g_swtmrCBArray\<close>; the node \<open>stSortList\<close> of block \<open>i\<close> is node \<open>i\<close> of the sort link
  \<open>swtSort\<close> of the kernel state.  An expired timer is reported to the timer task by a message on the
  queue \<open>g_swtmrHandlerQueue\<close>, through the operations of the queue module.

  The fields \<open>pstNext\<close>, \<open>uwArg\<close> and \<open>startTime\<close> of \<open>SWTMR_CTRL_S\<close> are called \<open>swtNext\<close>, \<open>swtArg\<close> and
  \<open>swtStart\<close> here.
\<close>

section \<open>Control blocks\<close>

record SWTMR_CTRL_S =
  swtNext :: "nat option"
  ucState :: u8
  ucMode :: u8
  ucOverrun :: u8
  usTimerID :: u32
  uwInterval :: u32
  swtArg :: u32
  pfnHandler :: u32
  swtStart :: u64

record swtmrs =
  SWTMR_LIMIT :: u16
  g_swtmrHandlerQueue :: u32
  g_swtmrCBArray :: "nat \<Rightarrow> SWTMR_CTRL_S"
  g_swtmrFreeList :: "nat option"

type_synonym swtst = "(swtmrs \<times> queues) \<times> ksched"

abbreviation (input) OS_SWTMR_STATUS_UNUSED :: u8 where "OS_SWTMR_STATUS_UNUSED \<equiv> 0"
abbreviation (input) OS_SWTMR_STATUS_CREATED :: u8 where "OS_SWTMR_STATUS_CREATED \<equiv> 1"
abbreviation (input) OS_SWTMR_STATUS_TICKING :: u8 where "OS_SWTMR_STATUS_TICKING \<equiv> 2"
abbreviation (input) LOS_SWTMR_MODE_ONCE :: u8 where "LOS_SWTMR_MODE_ONCE \<equiv> 0"
abbreviation (input) LOS_SWTMR_MODE_PERIOD :: u8 where "LOS_SWTMR_MODE_PERIOD \<equiv> 1"
abbreviation (input) LOS_SWTMR_MODE_NO_SELFDELETE :: u8 where "LOS_SWTMR_MODE_NO_SELFDELETE \<equiv> 2"

abbreviation (input) "LOS_ERRNO_SWTMR_PTR_NULL \<equiv> LOS_ERRNO_OS_ERROR LOS_MOD_SWTMR 0x00"
abbreviation (input) "LOS_ERRNO_SWTMR_INTERVAL_NOT_SUITED \<equiv> LOS_ERRNO_OS_ERROR LOS_MOD_SWTMR 0x01"
abbreviation (input) "LOS_ERRNO_SWTMR_MODE_INVALID \<equiv> LOS_ERRNO_OS_ERROR LOS_MOD_SWTMR 0x02"
abbreviation (input) "LOS_ERRNO_SWTMR_RET_PTR_NULL \<equiv> LOS_ERRNO_OS_ERROR LOS_MOD_SWTMR 0x03"
abbreviation (input) "LOS_ERRNO_SWTMR_MAXSIZE \<equiv> LOS_ERRNO_OS_ERROR LOS_MOD_SWTMR 0x04"
abbreviation (input) "LOS_ERRNO_SWTMR_ID_INVALID \<equiv> LOS_ERRNO_OS_ERROR LOS_MOD_SWTMR 0x05"
abbreviation (input) "LOS_ERRNO_SWTMR_NOT_CREATED \<equiv> LOS_ERRNO_OS_ERROR LOS_MOD_SWTMR 0x06"
abbreviation (input) "LOS_ERRNO_SWTMR_NO_MEMORY \<equiv> LOS_ERRNO_OS_ERROR LOS_MOD_SWTMR 0x07"
abbreviation (input) "LOS_ERRNO_SWTMR_QUEUE_CREATE_FAILED \<equiv> LOS_ERRNO_OS_ERROR LOS_MOD_SWTMR 0x0b"
abbreviation (input) "LOS_ERRNO_SWTMR_TASK_CREATE_FAILED \<equiv> LOS_ERRNO_OS_ERROR LOS_MOD_SWTMR 0x0c"
abbreviation (input) "LOS_ERRNO_SWTMR_NOT_STARTED \<equiv> LOS_ERRNO_OS_ERROR LOS_MOD_SWTMR 0x0d"
abbreviation (input) "LOS_ERRNO_SWTMR_STATUS_INVALID \<equiv> LOS_ERRNO_OS_ERROR LOS_MOD_SWTMR 0x0e"
abbreviation (input) "LOS_ERRNO_SWTMR_TICK_PTR_NULL \<equiv> LOS_ERRNO_OS_ERROR LOS_MOD_SWTMR 0x10"

definition OS_SWTMR_MAX_TIMERID :: "swtmrs \<Rightarrow> u32" where
  "OS_SWTMR_MAX_TIMERID w = (0xFFFFFFFF div ucast (SWTMR_LIMIT w)) * ucast (SWTMR_LIMIT w)"

text \<open>The index of the block an identifier names (\<open>swtmrCbId\<close>).\<close>

definition OS_SWT_FROM_SID :: "u32 \<Rightarrow> swtmrs \<Rightarrow> nat" where
  "OS_SWT_FROM_SID swtmrId w = unat (swtmrId mod ucast (SWTMR_LIMIT w))"

definition mod_swt :: "nat \<Rightarrow> (SWTMR_CTRL_S \<Rightarrow> SWTMR_CTRL_S) \<Rightarrow> swtmrs \<Rightarrow> swtmrs" where
  "mod_swt i f w = w\<lparr>g_swtmrCBArray := (g_swtmrCBArray w)(i := f (g_swtmrCBArray w i))\<rparr>"

section \<open>Starting and stopping\<close>

text \<open>\<open>OsDeleteSortLink\<close> of \<open>los_sortlink.c\<close>, for a timer.\<close>

definition delete_swt_link :: "nat \<Rightarrow> ksched \<Rightarrow> ksched" where
  "delete_swt_link i s =
     (if sl_time (swtSort s) i \<noteq> OS_SORT_LINK_INVALID_TIME
      then let s1 = OsSchedResetSchedResponseTime (sl_time (swtSort s) i) s
           in s1\<lparr>swtSort := OsDeleteNodeSortLink i (swtSort s1)\<rparr>
      else s)"

definition OsSwtmrStart :: "u64 \<Rightarrow> nat \<Rightarrow> swtst \<Rightarrow> swtst" where
  "OsSwtmrStart currTime i = (\<lambda>((w, q), s).
     let w1 = mod_swt i (\<lambda>c. c\<lparr>ucState := OS_SWTMR_STATUS_TICKING\<rparr>) w;
         c = g_swtmrCBArray w1 i;
         s1 = s\<lparr>swtSort := OsAdd2SortLink (TICK_PER_SECOND (conf s)) (g_sysClock s) i
                             (swtStart c) (uwInterval c) (swtSort s)\<rparr>
     in ((w1, q), OsSchedUpdateExpireTime s1))"

definition OsSwtmrDelete :: "nat \<Rightarrow> swtmrs \<Rightarrow> swtmrs" where
  "OsSwtmrDelete i w =
     (let w1 = (if usTimerID (g_swtmrCBArray w i) < OS_SWTMR_MAX_TIMERID w - ucast (SWTMR_LIMIT w)
                then mod_swt i (\<lambda>c. c\<lparr>usTimerID := usTimerID c + ucast (SWTMR_LIMIT w)\<rparr>) w
                else mod_swt i (\<lambda>c. c\<lparr>usTimerID := usTimerID c mod ucast (SWTMR_LIMIT w)\<rparr>) w);
          w2 = mod_swt i (\<lambda>c. c\<lparr>swtNext := g_swtmrFreeList w1\<rparr>) w1;
          w3 = w2\<lparr>g_swtmrFreeList := Some i\<rparr>
      in mod_swt i (\<lambda>c. c\<lparr>ucState := OS_SWTMR_STATUS_UNUSED\<rparr>) w3)"

definition OsSwtmrStop :: "nat \<Rightarrow> swtst \<Rightarrow> swtst" where
  "OsSwtmrStop i = (\<lambda>((w, q), s).
     let s1 = delete_swt_link i s;
         w1 = mod_swt i (\<lambda>c. c\<lparr>ucState := OS_SWTMR_STATUS_CREATED, ucOverrun := 0\<rparr>) w
     in ((w1, q), OsSchedUpdateExpireTime s1))"

section \<open>Expiry\<close>

text \<open>
  A \<open>SwtmrHandlerItem\<close> is three words: handler, argument, identifier.  \<open>slot\<close> is the address of the
  local variable \<open>swtmrHandler\<close> on the stack of the interrupt.
\<close>

abbreviation (input) "sizeof_SwtmrHandlerItem \<equiv> (12 :: u32)"

definition store_item :: "u32 \<Rightarrow> SWTMR_CTRL_S \<Rightarrow> mem8 \<Rightarrow> mem8" where
  "store_item slot c m = store32 (slot + 8) (usTimerID c) (store32 (slot + 4) (swtArg c) (store32 slot (pfnHandler c) m))"

definition OsSwtmrTimeoutHandle :: "u32 \<Rightarrow> u64 \<Rightarrow> nat \<Rightarrow> swtst \<Rightarrow> swtst" where
  "OsSwtmrTimeoutHandle slot currTime i = (\<lambda>((w, q), s).
     let q1 = q\<lparr>qmem := store_item slot (g_swtmrCBArray w i) (qmem q)\<rparr>;
         (_, (q2, s2)) = LOS_QueueWriteCopy (g_swtmrHandlerQueue w) slot sizeof_SwtmrHandlerItem LOS_NO_WAIT (q1, s)
     in if ucMode (g_swtmrCBArray w i) = LOS_SWTMR_MODE_PERIOD
        then OsSwtmrStart currTime i ((mod_swt i (\<lambda>c. c\<lparr>ucOverrun := ucOverrun c + 1\<rparr>) w, q2), s2)
        else if ucMode (g_swtmrCBArray w i) = LOS_SWTMR_MODE_NO_SELFDELETE
        then ((mod_swt i (\<lambda>c. c\<lparr>ucState := OS_SWTMR_STATUS_CREATED\<rparr>) w, q2), s2)
        else ((w, q2), s2))"

text \<open>The body of the loop of \<open>OsSwtmrScan\<close>, and the loop, which returns \<open>None\<close> if it does not end.\<close>

definition swtmr_expire :: "u32 \<Rightarrow> u64 \<Rightarrow> nat \<Rightarrow> swtst \<Rightarrow> swtst" where
  "swtmr_expire slot currTime i = (\<lambda>((w, q), s).
     let w1 = mod_swt i (\<lambda>c. c\<lparr>swtStart := sl_time (swtSort s) i\<rparr>) w;
         s1 = s\<lparr>swtSort := OsDeleteNodeSortLink i (swtSort s)\<rparr>
     in OsSwtmrTimeoutHandle slot currTime i ((w1, q), s1))"

partial_function (option) swtmr_scan_loop :: "u32 \<Rightarrow> u64 \<Rightarrow> bool \<Rightarrow> swtst \<Rightarrow> (bool \<times> swtst) option" where
  "swtmr_scan_loop slot currTime needSchedule st =
     (case sl_nodes (swtSort (snd st)) of
        [] \<Rightarrow> Some (needSchedule, st)
      | i # _ \<Rightarrow> if sl_time (swtSort (snd st)) i \<le> currTime
                 then swtmr_scan_loop slot currTime True (swtmr_expire slot currTime i st)
                 else Some (needSchedule, st))"

definition OsSwtmrScan :: "u32 \<Rightarrow> swtst \<Rightarrow> (bool \<times> swtst) option" where
  "OsSwtmrScan slot st = swtmr_scan_loop slot (OsGetCurrSchedTimeCycle (snd st)) False st"

text \<open>The pointer the scheduler calls in its tick handler, which ignores the result.\<close>

definition swtmrScan :: "u32 \<Rightarrow> swtst \<Rightarrow> swtst option" where
  "swtmrScan slot st = map_option snd (OsSwtmrScan slot st)"

text \<open>
  \<open>OsSwtmrResponseTimeReset\<close>: the loop follows the link of the node it has just inserted again.  The
  argument \<open>None\<close> is the head of the ring.
\<close>

fun next_node :: "nat \<Rightarrow> nat list \<Rightarrow> nat option" where
  "next_node i [] = None"
| "next_node i (x # xs) = (if x = i then (case xs of [] \<Rightarrow> None | y # _ \<Rightarrow> Some y) else next_node i xs)"

definition swtmr_restart :: "u64 \<Rightarrow> nat \<Rightarrow> swtst \<Rightarrow> swtst" where
  "swtmr_restart start i = (\<lambda>((w, q), s).
     let s1 = s\<lparr>swtSort := OsDeleteNodeSortLink i (swtSort s)\<rparr>;
         w1 = mod_swt i (\<lambda>c. c\<lparr>swtStart := start\<rparr>) w
     in OsSwtmrStart start i ((w1, q), s1))"

partial_function (option) reset_loop :: "u64 \<Rightarrow> nat option \<Rightarrow> swtst \<Rightarrow> swtst option" where
  "reset_loop start listNext st =
     (case listNext of
        None \<Rightarrow> Some st
      | Some i \<Rightarrow>
          (let st1 = swtmr_restart start i st
           in reset_loop start (next_node i (sl_nodes (swtSort (snd st1)))) st1))"

definition OsSwtmrResponseTimeReset :: "u64 \<Rightarrow> swtst \<Rightarrow> swtst option" where
  "OsSwtmrResponseTimeReset start st =
     reset_loop start (case sl_nodes (swtSort (snd st)) of [] \<Rightarrow> None | i # _ \<Rightarrow> Some i) st"

section \<open>Remaining time\<close>

definition OsSwtmrGetNextTimeout :: "ksched \<Rightarrow> u32" where
  "OsSwtmrGetNextTimeout s =
     (let time = OS_SYS_CYCLE_TO_TICK (TICK_PER_SECOND (conf s)) (g_sysClock s)
                   (OsSortLinkGetNextExpireTime (OsGetCurrSchedTimeCycle s) (swtSort s))
      in ucast (if time > ucast OS_NULL_INT then ucast OS_NULL_INT else time))"

definition OsSwtmrTimeGet :: "nat \<Rightarrow> ksched \<Rightarrow> u32" where
  "OsSwtmrTimeGet i s =
     (let time = OS_SYS_CYCLE_TO_TICK (TICK_PER_SECOND (conf s)) (g_sysClock s)
                   (OsSortLinkGetTargetExpireTime (OsGetCurrSchedTimeCycle s) (sl_time (swtSort s) i))
      in ucast (if time > ucast OS_NULL_INT then ucast OS_NULL_INT else time))"

section \<open>The timer task\<close>

text \<open>
  One round of the loop of \<open>OsSwtmrTask\<close>: the read, which may block (the part after the task has been
  woken is \<open>OsQueueOperate_resume\<close>), and what is done with the item at \<open>slot\<close> when the read has
  returned \<open>ret\<close> and \<open>readSize\<close>.  The result is the call of the handler with its argument, if any.
\<close>

definition OsSwtmrTask_read :: "u32 \<Rightarrow> swtst \<Rightarrow> (u32 option \<times> u32 option) \<times> swtst" where
  "OsSwtmrTask_read slot = (\<lambda>((w, q), s).
     let (r, (q1, s1)) = LOS_QueueReadCopy (g_swtmrHandlerQueue w) slot (Some sizeof_SwtmrHandlerItem)
                           LOS_WAIT_FOREVER (q, s)
     in (r, ((w, q1), s1)))"

definition OsSwtmrTask_item :: "u32 \<Rightarrow> u32 \<Rightarrow> u32 \<Rightarrow> swtmrs \<Rightarrow> mem8 \<Rightarrow> (u32 \<times> u32) option \<times> swtmrs" where
  "OsSwtmrTask_item ret readSize slot w m =
     (if ret = LOS_OK \<and> readSize = sizeof_SwtmrHandlerItem
      then let handler = load32 m slot; para = load32 m (slot + 4); swtmrID = load32 m (slot + 8)
           in if handler = 0 \<or> swtmrID \<ge> OS_SWTMR_MAX_TIMERID w then (None, w)
              else let i = OS_SWT_FROM_SID swtmrID w
                   in if usTimerID (g_swtmrCBArray w i) \<noteq> swtmrID then (None, w)
                      else (Some (handler, para),
                            if ucMode (g_swtmrCBArray w i) = LOS_SWTMR_MODE_ONCE then OsSwtmrDelete i w else w)
      else (None, w))"

section \<open>Initialisation\<close>

text \<open>
  \<open>entry\<close> and \<open>name\<close> are the addresses of \<open>OsSwtmrTask\<close> and of the string \<open>"Swt_Task"\<close>, \<open>stackSize\<close> is
  \<open>LOSCFG_BASE_CORE_TSK_SWTMR_STACK_SIZE\<close>, and \<open>mem\<close> what \<open>LOS_MemAllocAlign\<close> returns for the stack.
\<close>

definition OsSwtmrTaskCreate :: "u32 \<Rightarrow> u32 \<Rightarrow> u32 \<Rightarrow> u32 \<Rightarrow> taskst \<Rightarrow> u32 \<times> taskst" where
  "OsSwtmrTaskCreate entry name stkSize mem st =
     (let p = \<lparr>pfnTaskEntry = entry, usTaskPrio = 0, uwArg = 0, stackAddr = 0, uwStackSize = stkSize,
               pcName = name, uwResved = 0\<rparr>;
          ((ret, tid), (m, s)) = LOS_TaskCreate True (Some p) mem st
      in if ret = LOS_OK
         then let s1 = s\<lparr>g_swtmrTaskID := the tid\<rparr>
              in (ret, (m, set_status (OS_TCB_FROM_TID (g_swtmrTaskID s1)) OS_TASK_FLAG_SYSTEM_TASK s1))
         else (ret, (m, case tid of None \<Rightarrow> s | Some t \<Rightarrow> s\<lparr>g_swtmrTaskID := t\<rparr>)))"

definition zeroSWTMR :: SWTMR_CTRL_S where
  "zeroSWTMR = \<lparr>swtNext = None, ucState = 0, ucMode = 0, ucOverrun = 0, usTimerID = 0, uwInterval = 0,
     swtArg = 0, pfnHandler = 0, swtStart = 0\<rparr>"

text \<open>
  The control blocks as the loop of \<open>OsSwtmrInit\<close> leaves them: each has its index as identifier and
  is linked to the next one.
\<close>

definition swtmr_link :: "swtmrs \<Rightarrow> swtmrs" where
  "swtmr_link w =
     foldl (\<lambda>v i. mod_swt (i - 1) (\<lambda>c. c\<lparr>swtNext := Some i\<rparr>) (mod_swt i (\<lambda>c. c\<lparr>usTimerID := of_nat i\<rparr>) v))
       (w\<lparr>g_swtmrCBArray := (\<lambda>_. zeroSWTMR), g_swtmrFreeList := Some 0\<rparr>) [1..<unat (SWTMR_LIMIT w)]"

text \<open>
  \<open>cbMem\<close>, \<open>qMem\<close> and \<open>stkMem\<close> are the results of the three allocations.  The results are the code, the
  address given to \<open>LOS_MemFree\<close> on an error path (the pointer has been advanced past the last of
  the 48-byte control blocks there), and the scan function that is registered.  The sort link always
  exists and its initialisation always succeeds, so these two checks are not branches of the model.
\<close>

definition OsSwtmrInit ::
  "u32 \<Rightarrow> u32 \<Rightarrow> u32 \<Rightarrow> u32 \<Rightarrow> u32 \<Rightarrow> u32 \<Rightarrow> u32 \<Rightarrow> swtmrs \<times> queues \<times> taskst \<Rightarrow>
   (u32 \<times> u32 option \<times> (swtst \<Rightarrow> swtst option) option) \<times> swtmrs \<times> queues \<times> taskst" where
  "OsSwtmrInit cbMem qMem stkMem slot entry name stkSize = (\<lambda>(w, q, m, s).
     if cbMem = 0 then ((LOS_ERRNO_SWTMR_NO_MEMORY, None, None), (w, q, m, s))
     else let w1 = swtmr_link w;
              advanced = cbMem + 48 * ucast (SWTMR_LIMIT w);
              ((ret, qid, _), (q1, s1)) = LOS_QueueCreate 0 (SWTMR_LIMIT w) True 12 qMem (q, s);
              w2 = (case qid of None \<Rightarrow> w1 | Some i \<Rightarrow> w1\<lparr>g_swtmrHandlerQueue := i\<rparr>)
          in if ret \<noteq> LOS_OK
             then ((LOS_ERRNO_SWTMR_QUEUE_CREATE_FAILED, Some advanced, None), (w2, q1, m, s1))
             else let (ret2, (m2, s2)) = OsSwtmrTaskCreate entry name stkSize stkMem (m, s1)
                  in if ret2 \<noteq> LOS_OK
                     then ((LOS_ERRNO_SWTMR_TASK_CREATE_FAILED, Some advanced, None), (w2, q1, m2, s2))
                     else let s3 = s2\<lparr>swtSort := OsSortLinkInit (swtSort s2)\<rparr>;
                              (ret3, scan) = OsSchedSwtmrScanRegister (Some (swtmrScan slot)) None
                          in if ret3 \<noteq> LOS_OK then ((LOS_NOK, Some advanced, scan), (w2, q1, m2, s3))
                             else ((LOS_OK, None, scan), (w2, q1, m2, s3)))"

section \<open>The interface\<close>

text \<open>\<open>notNull\<close> says whether the pointer \<open>swtmrId\<close> is valid; the second result is what is stored there.\<close>

definition LOS_SwtmrCreate :: "u32 \<Rightarrow> u8 \<Rightarrow> u32 \<Rightarrow> bool \<Rightarrow> u32 \<Rightarrow> swtst \<Rightarrow> (u32 \<times> u32 option) \<times> swtst" where
  "LOS_SwtmrCreate interval mode handler notNull para = (\<lambda>((w, q), s).
     if interval = 0 then ((LOS_ERRNO_SWTMR_INTERVAL_NOT_SUITED, None), ((w, q), s))
     else if mode \<noteq> LOS_SWTMR_MODE_ONCE \<and> mode \<noteq> LOS_SWTMR_MODE_PERIOD \<and> mode \<noteq> LOS_SWTMR_MODE_NO_SELFDELETE
          then ((LOS_ERRNO_SWTMR_MODE_INVALID, None), ((w, q), s))
     else if handler = 0 then ((LOS_ERRNO_SWTMR_PTR_NULL, None), ((w, q), s))
     else if \<not> notNull then ((LOS_ERRNO_SWTMR_RET_PTR_NULL, None), ((w, q), s))
     else case g_swtmrFreeList w of
            None \<Rightarrow> ((LOS_ERRNO_SWTMR_MAXSIZE, None), ((w, q), s))
          | Some i \<Rightarrow>
              (let w1 = w\<lparr>g_swtmrFreeList := swtNext (g_swtmrCBArray w i)\<rparr>;
                   w2 = mod_swt i (\<lambda>c. c\<lparr>pfnHandler := handler, ucMode := mode, uwInterval := interval,
                                         swtNext := None, swtArg := para,
                                         ucState := OS_SWTMR_STATUS_CREATED, ucOverrun := 0\<rparr>) w1;
                   s1 = s\<lparr>swtSort := SET_SORTLIST_VALUE i OS_SORT_LINK_INVALID_TIME (swtSort s)\<rparr>
               in ((LOS_OK, Some (usTimerID (g_swtmrCBArray w2 i))), ((w2, q), s1))))"

definition LOS_SwtmrStart :: "u32 \<Rightarrow> swtst \<Rightarrow> u32 \<times> swtst" where
  "LOS_SwtmrStart swtmrId = (\<lambda>((w, q), s).
     if swtmrId \<ge> OS_SWTMR_MAX_TIMERID w then (LOS_ERRNO_SWTMR_ID_INVALID, ((w, q), s))
     else let i = OS_SWT_FROM_SID swtmrId w; c = g_swtmrCBArray w i;
              begin = (\<lambda>((w', q'), s'). let now = OsGetCurrSchedTimeCycle s'
                       in OsSwtmrStart now i ((mod_swt i (\<lambda>c. c\<lparr>swtStart := now\<rparr>) w', q'), s'))
          in if usTimerID c \<noteq> swtmrId then (LOS_ERRNO_SWTMR_NOT_CREATED, ((w, q), s))
             else if ucState c = OS_SWTMR_STATUS_UNUSED then (LOS_ERRNO_SWTMR_NOT_CREATED, ((w, q), s))
             else if ucState c = OS_SWTMR_STATUS_TICKING then (LOS_OK, begin (OsSwtmrStop i ((w, q), s)))
             else if ucState c = OS_SWTMR_STATUS_CREATED then (LOS_OK, begin ((w, q), s))
             else (LOS_ERRNO_SWTMR_STATUS_INVALID, ((w, q), s)))"

definition LOS_SwtmrStop :: "u32 \<Rightarrow> swtst \<Rightarrow> u32 \<times> swtst" where
  "LOS_SwtmrStop swtmrId = (\<lambda>((w, q), s).
     if swtmrId \<ge> OS_SWTMR_MAX_TIMERID w then (LOS_ERRNO_SWTMR_ID_INVALID, ((w, q), s))
     else let i = OS_SWT_FROM_SID swtmrId w; c = g_swtmrCBArray w i
          in if usTimerID c \<noteq> swtmrId then (LOS_ERRNO_SWTMR_NOT_CREATED, ((w, q), s))
             else if ucState c = OS_SWTMR_STATUS_UNUSED then (LOS_ERRNO_SWTMR_NOT_CREATED, ((w, q), s))
             else if ucState c = OS_SWTMR_STATUS_CREATED then (LOS_ERRNO_SWTMR_NOT_STARTED, ((w, q), s))
             else if ucState c = OS_SWTMR_STATUS_TICKING then (LOS_OK, OsSwtmrStop i ((w, q), s))
             else (LOS_ERRNO_SWTMR_STATUS_INVALID, ((w, q), s)))"

definition LOS_SwtmrTimeGet :: "u32 \<Rightarrow> bool \<Rightarrow> swtst \<Rightarrow> u32 \<times> u32 option" where
  "LOS_SwtmrTimeGet swtmrId notNull = (\<lambda>((w, q), s).
     if swtmrId \<ge> OS_SWTMR_MAX_TIMERID w then (LOS_ERRNO_SWTMR_ID_INVALID, None)
     else if \<not> notNull then (LOS_ERRNO_SWTMR_TICK_PTR_NULL, None)
     else let i = OS_SWT_FROM_SID swtmrId w; c = g_swtmrCBArray w i
          in if usTimerID c \<noteq> swtmrId then (LOS_ERRNO_SWTMR_NOT_CREATED, None)
             else if ucState c = OS_SWTMR_STATUS_UNUSED then (LOS_ERRNO_SWTMR_NOT_CREATED, None)
             else if ucState c = OS_SWTMR_STATUS_CREATED then (LOS_ERRNO_SWTMR_NOT_STARTED, None)
             else if ucState c = OS_SWTMR_STATUS_TICKING then (LOS_OK, Some (OsSwtmrTimeGet i s))
             else (LOS_ERRNO_SWTMR_STATUS_INVALID, None))"

definition LOS_SwtmrDelete :: "u32 \<Rightarrow> swtst \<Rightarrow> u32 \<times> swtst" where
  "LOS_SwtmrDelete swtmrId = (\<lambda>((w, q), s).
     if swtmrId \<ge> OS_SWTMR_MAX_TIMERID w then (LOS_ERRNO_SWTMR_ID_INVALID, ((w, q), s))
     else let i = OS_SWT_FROM_SID swtmrId w; c = g_swtmrCBArray w i;
              release = (\<lambda>((w', q'), s'). ((OsSwtmrDelete i w', q'), s'))
          in if usTimerID c \<noteq> swtmrId then (LOS_ERRNO_SWTMR_NOT_CREATED, ((w, q), s))
             else if ucState c = OS_SWTMR_STATUS_UNUSED then (LOS_ERRNO_SWTMR_NOT_CREATED, ((w, q), s))
             else if ucState c = OS_SWTMR_STATUS_TICKING then (LOS_OK, release (OsSwtmrStop i ((w, q), s)))
             else if ucState c = OS_SWTMR_STATUS_CREATED then (LOS_OK, release ((w, q), s))
             else (LOS_ERRNO_SWTMR_STATUS_INVALID, ((w, q), s)))"

end
