(* ===== verification/Swtmr_Inv.thy ===== *)
theory Swtmr_Inv
  imports Swtmr
begin

text \<open>
  The invariant of the software timers: how the state of a control block agrees with the sort link,
  the free list and the identifiers; and the scan of the tick handler, which runs through the
  message queue of the timer task.
\<close>

section \<open>The invariant\<close>

fun free_chain :: "(nat \<Rightarrow> nat option) \<Rightarrow> nat option \<Rightarrow> nat list \<Rightarrow> bool" where
  "free_chain nx p [] \<longleftrightarrow> p = None"
| "free_chain nx p (i # fl) \<longleftrightarrow> p = Some i \<and> free_chain nx (nx i) fl"

abbreviation swt_limit :: "swtmrs \<Rightarrow> nat" where
  "swt_limit w \<equiv> unat (SWTMR_LIMIT w)"

abbreviation swt_cb :: "swtmrs \<Rightarrow> nat \<Rightarrow> SWTMR_CTRL_S" where
  "swt_cb w i \<equiv> g_swtmrCBArray w i"

definition free_ok :: "swtmrs \<Rightarrow> nat list \<Rightarrow> bool" where
  "free_ok w fl \<longleftrightarrow> free_chain (\<lambda>i. swtNext (swt_cb w i)) (g_swtmrFreeList w) fl \<and> distinct fl \<and>
     (\<forall>i. i \<in> set fl \<longleftrightarrow> i < swt_limit w \<and> ucState (swt_cb w i) = OS_SWTMR_STATUS_UNUSED)"

text \<open>One timer; \<open>linked\<close> says whether it is on the sort link and \<open>void\<close> whether its response time is void.\<close>

definition tmr_ok :: "SWTMR_CTRL_S \<Rightarrow> bool \<Rightarrow> bool \<Rightarrow> bool" where
  "tmr_ok c linked void \<longleftrightarrow>
     ucState c \<in> {OS_SWTMR_STATUS_UNUSED, OS_SWTMR_STATUS_CREATED, OS_SWTMR_STATUS_TICKING} \<and>
     (ucState c \<noteq> OS_SWTMR_STATUS_UNUSED \<longrightarrow> uwInterval c \<noteq> 0 \<and> pfnHandler c \<noteq> 0 \<and>
        ucMode c \<in> {LOS_SWTMR_MODE_ONCE, LOS_SWTMR_MODE_PERIOD, LOS_SWTMR_MODE_NO_SELFDELETE}) \<and>
     (linked \<longrightarrow> ucState c = OS_SWTMR_STATUS_TICKING) \<and>
     (\<not> linked \<and> ucState c \<noteq> OS_SWTMR_STATUS_UNUSED \<longrightarrow> void) \<and>
     (ucState c = OS_SWTMR_STATUS_TICKING \<and> ucMode c \<noteq> LOS_SWTMR_MODE_ONCE \<longrightarrow> linked)"

definition ids_ok :: "swtmrs \<Rightarrow> bool" where
  "ids_ok w \<longleftrightarrow> (\<forall>i < swt_limit w. usTimerID (swt_cb w i) < OS_SWTMR_MAX_TIMERID w \<and>
     OS_SWT_FROM_SID (usTimerID (swt_cb w i)) w = i)"

definition swt_inv :: "swtmrs \<Rightarrow> nat sortlink \<Rightarrow> bool" where
  "swt_inv w sl \<longleftrightarrow> 0 < SWTMR_LIMIT w \<and> sl_wf sl \<and> set (sl_nodes sl) \<subseteq> {..<swt_limit w} \<and>
     (\<forall>i < swt_limit w. tmr_ok (swt_cb w i) (i \<in> set (sl_nodes sl)) (sl_time sl i = OS_SORT_LINK_INVALID_TIME)) \<and>
     ids_ok w \<and> (\<exists>fl. free_ok w fl)"

lemma swt_invD:
  assumes "swt_inv w sl"
  shows "0 < SWTMR_LIMIT w" "sl_wf sl" "i \<in> set (sl_nodes sl) \<Longrightarrow> i < swt_limit w"
    "i < swt_limit w \<Longrightarrow> tmr_ok (swt_cb w i) (i \<in> set (sl_nodes sl)) (sl_time sl i = OS_SORT_LINK_INVALID_TIME)"
    "ids_ok w" "\<exists>fl. free_ok w fl"
  using assms by (auto simp: swt_inv_def)

lemma mod_swt_simps [simp]:
  "g_swtmrCBArray (mod_swt i f w) = (g_swtmrCBArray w)(i := f (g_swtmrCBArray w i))"
  "SWTMR_LIMIT (mod_swt i f w) = SWTMR_LIMIT w" "g_swtmrHandlerQueue (mod_swt i f w) = g_swtmrHandlerQueue w"
  "g_swtmrFreeList (mod_swt i f w) = g_swtmrFreeList w"
  "OS_SWTMR_MAX_TIMERID (mod_swt i f w) = OS_SWTMR_MAX_TIMERID w" "OS_SWT_FROM_SID n (mod_swt i f w) = OS_SWT_FROM_SID n w"
  by (simp_all add: mod_swt_def OS_SWTMR_MAX_TIMERID_def OS_SWT_FROM_SID_def)

lemma free_chain_cong:
  "(\<And>i. i \<in> set fl \<Longrightarrow> nx' i = nx i) \<Longrightarrow> free_chain nx' p fl = free_chain nx p fl"
  by (induction fl arbitrary: p) auto

text \<open>The update of one block that stays in use or stays unused.\<close>

lemma swt_inv_update:
  assumes inv: "swt_inv w sl" and i: "i < swt_limit w"
    and c: "usTimerID c = usTimerID (swt_cb w i)" "swtNext c = swtNext (swt_cb w i)"
      "ucState c = OS_SWTMR_STATUS_UNUSED \<longleftrightarrow> ucState (swt_cb w i) = OS_SWTMR_STATUS_UNUSED"
    and wf: "sl_wf sl'" and nodes: "\<And>j. j \<noteq> i \<Longrightarrow> j \<in> set (sl_nodes sl') \<longleftrightarrow> j \<in> set (sl_nodes sl)"
    and times: "\<And>j. j \<noteq> i \<Longrightarrow> sl_time sl' j = sl_time sl j"
    and ok: "tmr_ok c (i \<in> set (sl_nodes sl')) (sl_time sl' i = OS_SORT_LINK_INVALID_TIME)"
  shows "swt_inv (mod_swt i (\<lambda>_. c) w) sl'"
proof -
  note D = swt_invD [OF inv]
  obtain fl where fl: "free_ok w fl" using D(6) by blast
  let ?w = "mod_swt i (\<lambda>_. c) w"
  have nx: "swtNext (swt_cb ?w j) = swtNext (swt_cb w j)" for j using c(2) by simp
  have un: "ucState (swt_cb ?w j) = OS_SWTMR_STATUS_UNUSED \<longleftrightarrow> ucState (swt_cb w j) = OS_SWTMR_STATUS_UNUSED" for j
    using c(3) by simp
  have free: "free_ok ?w fl" using fl unfolding free_ok_def nx un by simp
  have ids: "ids_ok ?w" using D(5) c(1) by (simp add: ids_ok_def)
  have sub: "j < swt_limit w" if "j \<in> set (sl_nodes sl')" for j
    using that nodes [of j] D(3) [of j] i by (cases "j = i") auto
  have "tmr_ok (swt_cb ?w j) (j \<in> set (sl_nodes sl')) (sl_time sl' j = OS_SORT_LINK_INVALID_TIME)" if "j < swt_limit w" for j
    using D(4) [OF that] ok nodes [of j] times [of j] by (cases "j = i") simp_all
  then show ?thesis using D(1) wf free ids sub unfolding swt_inv_def by auto
qed

section \<open>Creation and deletion\<close>

definition next_id :: "swtmrs \<Rightarrow> u32 \<Rightarrow> u32" where
  "next_id w n = (if n < OS_SWTMR_MAX_TIMERID w - ucast (SWTMR_LIMIT w) then n + ucast (SWTMR_LIMIT w)
                  else n mod ucast (SWTMR_LIMIT w))"

lemma max_id_unat:
  assumes "0 < SWTMR_LIMIT w"
  shows "unat (OS_SWTMR_MAX_TIMERID w) = (2 ^ 32 - 1) div swt_limit w * swt_limit w"
    and "2 * swt_limit w \<le> unat (OS_SWTMR_MAX_TIMERID w)"
proof -
  have l: "0 < swt_limit w" "swt_limit w < 65536"
    using assms unsigned_less [of "SWTMR_LIMIT w"] by (simp_all add: word_less_nat_alt)
  have "(2 ^ 32 - 1) div swt_limit w * swt_limit w \<le> 2 ^ 32 - 1" by (rule div_times_less_eq_dividend)
  then have "(2 ^ 32 - 1) div swt_limit w * swt_limit w < 2 ^ 32" by (rule order_le_less_trans) simp
  moreover have "(2 ^ 32 - 1) div swt_limit w < 2 ^ 32" by (rule order_le_less_trans [OF div_le_dividend]) simp
  ultimately show e: "unat (OS_SWTMR_MAX_TIMERID w) = (2 ^ 32 - 1) div swt_limit w * swt_limit w"
    by (simp add: OS_SWTMR_MAX_TIMERID_def unat_word_ariths unat_div)
  have "2 \<le> (2 ^ 32 - 1) div swt_limit w" using l by (simp add: less_eq_div_iff_mult_less_eq)
  then show "2 * swt_limit w \<le> unat (OS_SWTMR_MAX_TIMERID w)" using l(1) by (simp add: e)
qed

lemma next_id_ok:
  assumes "0 < SWTMR_LIMIT w" and "n < OS_SWTMR_MAX_TIMERID w"
  shows "next_id w n < OS_SWTMR_MAX_TIMERID w" and "OS_SWT_FROM_SID (next_id w n) w = OS_SWT_FROM_SID n w"
    and "next_id w n \<noteq> n"
proof -
  let ?l = "swt_limit w" and ?m = "unat (OS_SWTMR_MAX_TIMERID w)"
  note m = max_id_unat [OF assms(1)]
  have l: "0 < ?l" using assms(1) by (simp add: word_less_nat_alt)
  have n: "unat n < ?m" using assms(2) by (simp add: word_less_nat_alt)
  have "(ucast (SWTMR_LIMIT w) :: u32) \<le> OS_SWTMR_MAX_TIMERID w" using m(2) by (simp add: word_le_nat_alt)
  then have d: "unat (OS_SWTMR_MAX_TIMERID w - ucast (SWTMR_LIMIT w)) = ?m - ?l" by (simp add: unat_sub)
  have e: "unat (next_id w n) = (if unat n < ?m - ?l then unat n + ?l else unat n mod ?l)"
  proof (cases "unat n < ?m - ?l")
    case True
    then have "unat n + ?l < 2 ^ 32" using unat_u32 [of "OS_SWTMR_MAX_TIMERID w"] by simp
    then have "unat (n + ucast (SWTMR_LIMIT w)) = unat n + ?l" by (simp add: unat_word_ariths)
    then show ?thesis using True d by (simp add: next_id_def word_less_nat_alt)
  next
    case False
    then show ?thesis using d by (simp add: next_id_def word_less_nat_alt unat_mod)
  qed
  have ml: "unat n mod ?l < ?l" using l by simp
  then have mm: "unat n mod ?l < ?m" using m(2) by linarith
  show "next_id w n < OS_SWTMR_MAX_TIMERID w"
    unfolding word_less_nat_alt e using mm n by (cases "unat n < ?m - ?l") simp_all
  show "OS_SWT_FROM_SID (next_id w n) w = OS_SWT_FROM_SID n w"
    using e by (simp add: OS_SWT_FROM_SID_def unat_mod)
  have "unat (next_id w n) \<noteq> unat n"
    unfolding e using ml m(2) l by (cases "unat n < ?m - ?l"; simp only: if_True if_False; linarith)
  then show "next_id w n \<noteq> n" by auto
qed

lemma OsSwtmrDelete_eq:
  "OsSwtmrDelete i w = (mod_swt i (\<lambda>c. c\<lparr>usTimerID := next_id w (usTimerID c), swtNext := g_swtmrFreeList w,
     ucState := OS_SWTMR_STATUS_UNUSED\<rparr>) w)\<lparr>g_swtmrFreeList := Some i\<rparr>"
  by (simp add: OsSwtmrDelete_def next_id_def mod_swt_def Let_def)

lemma OsSwtmrDelete_inv:
  assumes inv: "swt_inv w sl" and i: "i < swt_limit w" and un: "i \<notin> set (sl_nodes sl)"
    and st: "ucState (swt_cb w i) \<noteq> OS_SWTMR_STATUS_UNUSED"
  shows "swt_inv (OsSwtmrDelete i w) sl"
proof -
  note D = swt_invD [OF inv]
  let ?w = "OsSwtmrDelete i w"
  obtain fl where fl: "free_ok w fl" using D(6) by blast
  have nin: "i \<notin> set fl" using fl st by (simp add: free_ok_def)
  have lim: "SWTMR_LIMIT ?w = SWTMR_LIMIT w" "OS_SWTMR_MAX_TIMERID ?w = OS_SWTMR_MAX_TIMERID w"
    "OS_SWT_FROM_SID n ?w = OS_SWT_FROM_SID n w" for n
    by (simp_all add: OsSwtmrDelete_eq OS_SWTMR_MAX_TIMERID_def OS_SWT_FROM_SID_def)
  have "free_chain (\<lambda>j. swtNext (swt_cb ?w j)) (g_swtmrFreeList w) fl =
      free_chain (\<lambda>j. swtNext (swt_cb w j)) (g_swtmrFreeList w) fl"
    by (rule free_chain_cong) (use nin in \<open>auto simp: OsSwtmrDelete_eq\<close>)
  then have "free_chain (\<lambda>j. swtNext (swt_cb ?w j)) (g_swtmrFreeList w) fl" using fl by (simp add: free_ok_def)
  then have "free_ok ?w (i # fl)"
    using fl nin i by (auto simp: free_ok_def OsSwtmrDelete_eq)
  moreover have "ids_ok ?w"
    unfolding ids_ok_def lim
  proof (intro allI impI)
    fix j
    assume j: "j < swt_limit w"
    then have id: "usTimerID (swt_cb w j) < OS_SWTMR_MAX_TIMERID w" "OS_SWT_FROM_SID (usTimerID (swt_cb w j)) w = j"
      using D(5) by (simp_all add: ids_ok_def)
    show "usTimerID (swt_cb ?w j) < OS_SWTMR_MAX_TIMERID w \<and> OS_SWT_FROM_SID (usTimerID (swt_cb ?w j)) w = j"
      using id next_id_ok [OF D(1) id(1)] by (cases "j = i") (simp_all add: OsSwtmrDelete_eq)
  qed
  moreover have "tmr_ok (swt_cb ?w j) (j \<in> set (sl_nodes sl)) (sl_time sl j = OS_SORT_LINK_INVALID_TIME)"
    if "j < swt_limit w" for j
    using D(4) [OF that] un by (cases "j = i") (simp_all add: OsSwtmrDelete_eq tmr_ok_def)
  ultimately show ?thesis using D(1-3) unfolding swt_inv_def lim by auto
qed

text \<open>The block that \<open>LOS_SwtmrCreate\<close> takes from the free list.\<close>

lemma swt_inv_take:
  assumes inv: "swt_inv w sl" and f: "g_swtmrFreeList w = Some i"
    and c: "usTimerID c = usTimerID (swt_cb w i)" "tmr_ok c False True" "ucState c = OS_SWTMR_STATUS_CREATED"
  shows "i < swt_limit w" "ucState (swt_cb w i) = OS_SWTMR_STATUS_UNUSED" "i \<notin> set (sl_nodes sl)"
    "swt_inv (mod_swt i (\<lambda>_. c) (w\<lparr>g_swtmrFreeList := swtNext (swt_cb w i)\<rparr>))
       (SET_SORTLIST_VALUE i OS_SORT_LINK_INVALID_TIME sl)"
proof -
  note D = swt_invD [OF inv]
  obtain fl where fl: "free_ok w fl" using D(6) by blast
  then obtain fl' where fl': "fl = i # fl'" using f by (cases fl) (auto simp: free_ok_def)
  show i: "i < swt_limit w" "ucState (swt_cb w i) = OS_SWTMR_STATUS_UNUSED"
    using fl fl' by (auto simp: free_ok_def)
  show un: "i \<notin> set (sl_nodes sl)" using D(4) [OF i(1)] i(2) by (auto simp: tmr_ok_def)
  let ?w = "mod_swt i (\<lambda>_. c) (w\<lparr>g_swtmrFreeList := swtNext (swt_cb w i)\<rparr>)"
  let ?sl = "SET_SORTLIST_VALUE i OS_SORT_LINK_INVALID_TIME sl"
  have lim: "SWTMR_LIMIT ?w = SWTMR_LIMIT w" "OS_SWTMR_MAX_TIMERID ?w = OS_SWTMR_MAX_TIMERID w"
    "OS_SWT_FROM_SID n ?w = OS_SWT_FROM_SID n w" for n
    by (simp_all add: OS_SWTMR_MAX_TIMERID_def OS_SWT_FROM_SID_def)
  have "free_chain (\<lambda>j. swtNext (swt_cb ?w j)) (swtNext (swt_cb w i)) fl' =
      free_chain (\<lambda>j. swtNext (swt_cb w j)) (swtNext (swt_cb w i)) fl'"
    by (rule free_chain_cong) (use fl fl' in \<open>auto simp: free_ok_def\<close>)
  then have "free_chain (\<lambda>j. swtNext (swt_cb ?w j)) (swtNext (swt_cb w i)) fl'" using fl fl' by (simp add: free_ok_def)
  moreover have "distinct fl'" using fl fl' by (simp add: free_ok_def)
  moreover have "j \<in> set fl' \<longleftrightarrow> j < swt_limit w \<and> ucState (swt_cb ?w j) = OS_SWTMR_STATUS_UNUSED" for j
    using fl fl' c(3) by (cases "j = i") (auto simp: free_ok_def)
  ultimately have free: "free_ok ?w fl'" by (simp add: free_ok_def)
  have ids: "ids_ok ?w" using D(5) c(1) unfolding ids_ok_def lim by simp
  have "tmr_ok (swt_cb ?w j) (j \<in> set (sl_nodes ?sl)) (sl_time ?sl j = OS_SORT_LINK_INVALID_TIME)" if "j < swt_limit w" for j
    using D(4) [OF that] c(2) un by (cases "j = i") (simp_all add: SET_SORTLIST_VALUE_def)
  then show "swt_inv ?w ?sl"
    using D(1,3) free ids sl_wf_set_value [OF D(2) un] unfolding swt_inv_def lim
    by (auto simp: SET_SORTLIST_VALUE_def)
qed

section \<open>The clock\<close>

text \<open>
  What the arithmetic of the response times relies on: at least two ticks per second, at least one
  cycle per tick, and less than \<open>2 ^ 63\<close> cycles of uptime.
\<close>

definition swt_clock :: "ksched \<Rightarrow> bool" where
  "swt_clock s \<longleftrightarrow> clock_ok s \<and> TICK_PER_SECOND (conf s) \<le> g_sysClock s"

abbreviation period :: "ksched \<Rightarrow> u32 \<Rightarrow> u64" where
  "period s \<equiv> OS_SYS_TICK_TO_CYCLE (TICK_PER_SECOND (conf s)) (g_sysClock s)"

lemma period_props:
  assumes c: "swt_clock s" and t: "unat t < 2 ^ 63"
  shows "unat (t + period s n) = unat t + unat (period s n)"
    and "t + period s n \<noteq> OS_SORT_LINK_INVALID_TIME" and "n \<noteq> 0 \<Longrightarrow> 0 < unat (period s n)"
proof -
  have tps: "2 \<le> TICK_PER_SECOND (conf s)" using c by (simp add: swt_clock_def clock_ok_def)
  note w = add_delay_no_wrap [OF tps t, of "g_sysClock s" n]
  show "unat (t + period s n) = unat t + unat (period s n)" using w(1) by (simp add: tick_to_cycle_unat)
  show "t + period s n \<noteq> OS_SORT_LINK_INVALID_TIME" by (rule w(2))
  assume "n \<noteq> 0"
  then have "1 \<le> unat n" by (simp add: unat_gt_0 Suc_le_eq One_nat_def)
  moreover have "unat (TICK_PER_SECOND (conf s)) \<le> unat (g_sysClock s)" "0 < unat (TICK_PER_SECOND (conf s))"
    using c tps by (simp_all add: swt_clock_def word_le_nat_alt)
  ultimately have "unat (TICK_PER_SECOND (conf s)) \<le> unat n * unat (g_sysClock s)"
    using mult_le_mono [of 1 "unat n" "unat (TICK_PER_SECOND (conf s))" "unat (g_sysClock s)"] by simp
  then show "0 < unat (period s n)"
    using \<open>0 < unat (TICK_PER_SECOND (conf s))\<close> by (simp add: tick_to_cycle_unat div_greater_zero_iff)
qed

text \<open>The part of the kernel state the timers depend on.\<close>

definition swt_same :: "ksched \<Rightarrow> ksched \<Rightarrow> bool" where
  "swt_same s s' \<longleftrightarrow> conf s' = conf s \<and> g_sysClock s' = g_sysClock s \<and> sysCycle s' = sysCycle s \<and> swtSort s' = swtSort s"

lemma swt_same_trans: "swt_same s s' \<Longrightarrow> swt_same s' s'' \<Longrightarrow> swt_same s s''"
  by (simp add: swt_same_def)

lemma swt_same_clock: "swt_same s s' \<Longrightarrow> swt_clock s' = swt_clock s"
  by (simp add: swt_same_def swt_clock_def clock_ok_def)

lemma swt_same_Schedule [simp]: "swt_same s (LOS_Schedule s)"
  by (simp add: swt_same_def LOS_Schedule_def ArchTaskSchedule_def)

lemma swt_same_UpdateExpireTime [simp]: "swt_same s (OsSchedUpdateExpireTime s)"
  by (simp add: swt_same_def OsSchedUpdateExpireTime_def OsSchedSetNextExpireTime_def Let_def)

lemma swt_same_Wake: "swt_same s (OsSchedTaskWake t s)"
  by (simp add: swt_same_def OsSchedTaskWake_def Let_def)

lemma swt_same_Wait: "swt_same s (OsSchedTaskWait h n s)"
  by (simp add: swt_same_def OsSchedTaskWait_def Let_def)

text \<open>A task inside a call of a queue waits on that queue or not at all.\<close>

definition calm :: "ksched \<Rightarrow> (tptr \<Rightarrow> qcont option) \<Rightarrow> bool" where
  "calm s k \<longleftrightarrow> (\<forall>t c. live s k t c \<and> hasFlag (status s t) OS_TASK_STATUS_PEND \<longrightarrow>
     t \<in> set (que_wait s (kQue c) (kSide c)))"

lemma calm_cong: "lst s' = lst s \<Longrightarrow> (\<And>t. status s' t = status s t) \<Longrightarrow> calm s' k = calm s k"
  by (simp add: calm_def live_def)

lemma calm_wake:
  assumes inv: "sched_inv s" and c: "calm s k" and w: "que_wait s i rw = t # ts"
  shows "calm (LOS_Schedule (OsSchedTaskWake t s)) k"
proof -
  let ?s = "LOS_Schedule (OsSchedTaskWake t s)"
  have t: "t \<in> set (que_wait s i rw)" using w by simp
  have n: "ls_nodes (lst ?s) h = (if h = readWriteList i rw then remove1 t (que_wait s i rw) else ls_nodes (lst s) h)"
    if "is_wait h" for h
    using wq.wake_waiters [OF inv readWriteList_wait t that] by simp
  have "\<not> hasFlag (status ?s t) OS_TASK_STATUS_PEND"
    by (simp add: TaskWake_status_at) (auto simp: woken_status_def Let_def)
  moreover have st: "status ?s u = status s u" if "u \<noteq> t" for u using that by (simp add: TaskWake_status_at)
  moreover have "u \<in> set (que_wait ?s (kQue e) (kSide e))"
    if "u \<noteq> t" "u \<in> set (que_wait s (kQue e) (kSide e))" for u e
    using that n [OF readWriteList_wait] by (cases "readWriteList (kQue e) (kSide e) = readWriteList i rw") auto
  ultimately have "u \<in> set (que_wait ?s (kQue e) (kSide e))"
    if "live ?s k u e" "hasFlag (status ?s u) OS_TASK_STATUS_PEND" for u e
    using that c by (cases "u = t") (auto simp: calm_def live_def)
  then show ?thesis by (simp add: calm_def)
qed

lemma same_geo_refl [simp]: "same_geo q q"
  by (simp add: same_geo_def)

lemma same_geo_trans: "same_geo q q' \<Longrightarrow> same_geo q' q'' \<Longrightarrow> same_geo q q''"
  by (simp add: same_geo_def)

lemma transfer_frame:
  assumes "queue_transfer i ty buf sz (q, s) = (sz', (q', s'))"
  shows "swt_same s s' \<and> same_geo q q'" and "sched_inv s \<Longrightarrow> calm s k \<Longrightarrow> calm s' k"
proof -
  obtain z q1 where b: "OsQueueBufferOperate i ty buf sz q = (z, q1)" by force
  note g = BufferOperate_geo [OF b]
  let ?tmp = "if OS_QUEUE_READ_WRITE_GET ty = 0 then 1 else 0 :: u32"
  have "swt_same s s' \<and> same_geo q q' \<and> (sched_inv s \<and> calm s k \<longrightarrow> calm s' k)"
  proof (cases "ls_nodes (lst s) (readWriteList i ?tmp)")
    case Nil
    then have e: "s' = s" "q' = mod_que i (\<lambda>c. c\<lparr>readWriteableCnt :=
        (readWriteableCnt c)(?tmp := readWriteableCnt c ?tmp + 1)\<rparr>) q1"
      using assms b by (auto simp: queue_transfer_def Let_def split: if_splits)
    have "same_geo q1 q'" unfolding e(2) by (simp add: same_geo_def)
    then show ?thesis using same_geo_trans [OF g] e(1) by (simp add: swt_same_def)
  next
    case (Cons t ts)
    then have "s' = LOS_Schedule (OsSchedTaskWake t s)" "q' = q1"
      using assms b by (auto simp: queue_transfer_def Let_def split: if_splits)
    then show ?thesis using g swt_same_trans [OF swt_same_Wake swt_same_Schedule] calm_wake [OF _ _ Cons] by simp
  qed
  then show "swt_same s s' \<and> same_geo q q'" "sched_inv s \<Longrightarrow> calm s k \<Longrightarrow> calm s' k" by simp_all
qed

lemma operate_frame:
  assumes "OsQueueOperate qid ty buf sz n (q, s) = (r, (q', s'))"
  shows "swt_same s s' \<and> same_geo q q'"
proof -
  let ?rw = "OS_QUEUE_READ_WRITE_GET ty" and ?i = "OsGetQueueHandle qid q"
  let ?q = "mod_que ?i (\<lambda>c. c\<lparr>readWriteableCnt := (readWriteableCnt c)(?rw := readWriteableCnt c ?rw - 1)\<rparr>) q"
  have id: "swt_same s s" by (simp add: swt_same_def)
  have qq: "same_geo q ?q" by (simp add: same_geo_def)
  have w: "swt_same s (LOS_Schedule (OsSchedTaskWait h m s))" for h m
    by (rule swt_same_trans [OF swt_same_Wait swt_same_Schedule])
  have t: "swt_same s s2 \<and> same_geo q q2" if "queue_transfer ?i ty buf sz (?q, s) = (z, (q2, s2))" for z q2 s2
    using transfer_frame(1) [OF that] same_geo_trans [OF qq] by blast
  show ?thesis
    using assms id w t by (auto simp: OsQueueOperate_def Let_def split: if_splits prod.splits)
qed

text \<open>The buffer of a message is apart from all queues.\<close>

definition slot_ok :: "u32 \<Rightarrow> queues \<Rightarrow> bool" where
  "slot_ok slot q \<longleftrightarrow> slot \<noteq> 0 \<and> no_wrap slot 12 \<and> (\<forall>j. used q j \<longrightarrow> buf_ok (g_allQueue q j) 3 slot 12)"

lemma slot_ok_geo: "same_geo q q' \<Longrightarrow> slot_ok slot q' = slot_ok slot q"
  by (simp add: slot_ok_def same_geo_used)

lemma write_item:
  assumes inv: "que_inv None (q, s, k)" and h: "hq < OS_ALL_IPC_QUEUE_LIMIT q" and sl: "slot_ok slot q"
  obtains r q' s' where "LOS_QueueWriteCopy hq slot 12 LOS_NO_WAIT (q, s) = (r, (q', s'))"
    and "que_inv None (q', s', k)" and "swt_same s s'" and "same_geo q q'" and "calm s k \<Longrightarrow> calm s' k"
    and "if r = Some LOS_OK then \<exists>nb. msgs None (q', s', k) (unat hq) = msgs None (q, s, k) (unat hq) @ [nb] \<and> wrote 3 (qmem q) slot 12 nb
      else msgs None (q', s', k) (unat hq) = msgs None (q, s, k) (unat hq)"
    and "\<And>j. used q j \<Longrightarrow> j \<noteq> unat hq \<Longrightarrow> msgs None (q', s', k) j = msgs None (q, s, k) j"
proof -
  have ty: "valid_type 3" "\<not> OS_QUEUE_IS_READ 3" "OS_QUEUE_OPERATE_GET 3 \<noteq> OS_QUEUE_WRITE_HEAD"
    by (simp_all add: valid_type_def OS_QUEUE_IS_READ_def OS_QUEUE_READ_WRITE_GET_def OS_QUEUE_OPERATE_GET_def)
  have c: "caller_ok 3 slot 12 LOS_NO_WAIT (q, s, k)" using sl ty by (simp add: caller_ok_def slot_ok_def)
  obtain r z q' s' where o: "OsQueueOperate hq 3 slot 12 LOS_NO_WAIT (q, s) = ((r, z), (q', s'))"
    by (metis prod.exhaust)
  note f = operate_frame [OF o]
  have nb: "r \<noteq> None" using o by (auto simp: OsQueueOperate_def Let_def split: if_splits prod.splits)
  have res: "op_result (unat hq) 3 slot 12 (q, s, k) (r = Some LOS_OK) z (q', s', k)"
    using hist_operate_ok [OF inv h c] nb by (simp add: hist_operate_def o)
  have cm: "calm s' k" if "calm s k"
    using o that transfer_frame(2) [OF _ que_invD(1) [OF inv]]
    by (auto simp: OsQueueOperate_def Let_def split: if_splits prod.splits)
  have "LOS_QueueWriteCopy hq slot 12 LOS_NO_WAIT (q, s) = (r, (q', s'))"
    using h sl o by (simp add: not_le [symmetric] LOS_QueueWriteCopy_def OsQueueWriteParameterCheck_def OS_QUEUE_OPERATE_TYPE_def slot_ok_def)
  then show thesis
    by (rule that) (use res f ty cm in \<open>auto simp: op_result_def moved_def put_def split: if_splits\<close>)
qed

section \<open>Items\<close>

text \<open>The three words of a message of the handler queue.\<close>

definition item_of :: "u8 list \<Rightarrow> u32 \<times> u32 \<times> u32" where
  "item_of nb = (le32 (take 4 nb), le32 (take 4 (drop 4 nb)), le32 (take 4 (drop 8 nb)))"

definition item_at :: "mem8 \<Rightarrow> u32 \<Rightarrow> u32 \<times> u32 \<times> u32" where
  "item_at m a = (load32 m a, load32 m (a + 4), load32 m (a + 8))"

abbreviation item :: "SWTMR_CTRL_S \<Rightarrow> u32 \<times> u32 \<times> u32" where
  "item c \<equiv> (pfnHandler c, swtArg c, usTimerID c)"

lemma slot_words:
  assumes "no_wrap slot 12"
  shows "no_wrap slot 4" "no_wrap (slot + 4) 4" "no_wrap (slot + 8) 4"
    "unat (slot + 4) = unat slot + 4" "unat (slot + 8) = unat slot + 8"
  using assms unat_off [of slot 12 4] unat_off [of slot 12 8] by (simp_all add: no_wrap_def)

lemma store_item_outside:
  assumes "no_wrap slot 12" and "unat x < unat slot \<or> unat slot + 12 \<le> unat x"
  shows "store_item slot c m x = m x"
proof -
  note w = slot_words [OF assms(1)]
  have "store32 (slot + 8) v m' x = m' x" "store32 (slot + 4) v m' x = m' x" "store32 slot v m' x = m' x" for v m'
    using assms(2) w(4,5) by (auto intro: store32_outside [OF w(3)] store32_outside [OF w(2)] store32_outside [OF w(1)])
  then show ?thesis by (simp add: store_item_def)
qed

lemma load32_store32_apart: "no_wrap d 4 \<Longrightarrow> no_wrap a 4 \<Longrightarrow> apart d 4 a 4 \<Longrightarrow> load32 (store32 d v m) a = load32 m a"
  by (simp add: load32_bytes bytes_store32_outside)

lemma item_at_store:
  assumes "no_wrap slot 12"
  shows "item_at (store_item slot c m) slot = item c"
proof -
  note w = slot_words [OF assms]
  have "apart (slot + 8) 4 slot 4" "apart (slot + 8) 4 (slot + 4) 4" "apart (slot + 4) 4 slot 4"
    using w(4,5) by (simp_all add: apart_def)
  then show ?thesis using w by (simp add: item_at_def store_item_def load32_store32_apart)
qed

lemma item_of_bytes:
  assumes "take 12 nb = bytes m a 12"
  shows "item_of nb = item_at m a"
proof -
  have t: "take 4 (drop j nb) = bytes m (a + of_nat j) 4" if "j + 4 \<le> 12" for j
  proof -
    have "take 4 (drop j nb) = take 4 (drop j (take 12 nb))" using that by (simp add: take_drop min_def)
    also have "\<dots> = bytes m (a + of_nat j) 4"
      unfolding assms using that by (intro nth_equalityI) (simp_all add: add.assoc)
    finally show ?thesis .
  qed
  from t [of 0] t [of 4] t [of 8] show ?thesis by (simp add: item_of_def item_at_def load32_bytes)
qed

lemma wrote_item:
  assumes "wrote 3 (store_item slot c m) slot 12 nb" and "no_wrap slot 12"
  shows "item_of nb = item c" and "msg_len nb = 12"
proof -
  have "msg_len nb = 12" "take 12 nb = bytes (store_item slot c m) slot 12"
    using assms(1) by (auto simp: wrote_def OS_QUEUE_IS_POINT_def copy_msg_def)
  then show "item_of nb = item c" "msg_len nb = 12" using item_of_bytes item_at_store [OF assms(2)] by simp_all
qed

section \<open>The expiry of one timer\<close>

text \<open>A timer as the scan sees it: its block, and its response time if it is linked.\<close>

type_synonym tview = "SWTMR_CTRL_S \<times> u64 option"

definition tview :: "swtmrs \<Rightarrow> nat sortlink \<Rightarrow> nat \<Rightarrow> tview" where
  "tview w sl i = (swt_cb w i, if i \<in> set (sl_nodes sl) then Some (sl_time sl i) else None)"

lemma tview_fst [simp]: "fst (tview w sl i) = swt_cb w i"
  by (simp add: tview_def)

fun expire :: "ksched \<Rightarrow> tview \<Rightarrow> tview" where
  "expire s (c, None) = (c, None)"
| "expire s (c, Some t) =
     (if ucMode c = LOS_SWTMR_MODE_PERIOD
      then (c\<lparr>swtStart := t, ucOverrun := ucOverrun c + 1, ucState := OS_SWTMR_STATUS_TICKING\<rparr>, Some (t + period s (uwInterval c)))
      else if ucMode c = LOS_SWTMR_MODE_NO_SELFDELETE
      then (c\<lparr>swtStart := t, ucState := OS_SWTMR_STATUS_CREATED\<rparr>, None)
      else (c\<lparr>swtStart := t\<rparr>, None))"

definition tmr_good :: "u32 \<Rightarrow> (tptr \<Rightarrow> qcont option) \<Rightarrow> swtst \<Rightarrow> bool" where
  "tmr_good slot k = (\<lambda>((w, q), s). que_inv None (q, s, k) \<and> swt_inv w (swtSort s) \<and> swt_clock s \<and> slot_ok slot q \<and>
     calm s k \<and> g_swtmrHandlerQueue w < OS_ALL_IPC_QUEUE_LIMIT q \<and> used q (unat (g_swtmrHandlerQueue w)))"

abbreviation hmsgs :: "(tptr \<Rightarrow> qcont option) \<Rightarrow> swtst \<Rightarrow> u8 list list" where
  "hmsgs k st \<equiv> msgs None (snd (fst st), snd st, k) (unat (g_swtmrHandlerQueue (fst (fst st))))"

lemma store_item_inv:
  assumes inv: "que_inv None (q, s, k)" and sl: "slot_ok slot q"
  shows "que_inv None (q\<lparr>qmem := store_item slot c (qmem q)\<rparr>, s\<lparr>swtSort := x\<rparr>, k)"
    and "used q j \<Longrightarrow> msgs None (q\<lparr>qmem := store_item slot c (qmem q)\<rparr>, s\<lparr>swtSort := x\<rparr>, k) j = msgs None (q, s, k) j"
proof -
  note D = que_invD [OF inv]
  have "store_item slot c (qmem q) y = qmem q y" if "used q i" "unat (queue (g_allQueue q i)) \<le> unat y"
    "unat y < unat (queue (g_allQueue q i)) + area (g_allQueue q i)" for i y
  proof (rule store_item_outside)
    show "no_wrap slot 12" using sl by (simp add: slot_ok_def)
    have "apart slot 12 (queue (g_allQueue q i)) (area (g_allQueue q i))"
      using sl that(1) by (auto simp: slot_ok_def buf_ok_def buf_len_def OS_QUEUE_IS_POINT_def)
    then show "unat y < unat slot \<or> unat slot + 12 \<le> unat y" using that(2,3) by (auto simp: apart_def)
  qed
  then have e: "env_ok (q, s, k) (s\<lparr>swtSort := x\<rparr>) (store_item slot c (qmem q))"
    using D(1) q_contsD(4) [OF D(4)] by (auto simp: env_ok_def)
  show "que_inv None (q\<lparr>qmem := store_item slot c (qmem q)\<rparr>, s\<lparr>swtSort := x\<rparr>, k)" by (rule env_inv(1) [OF inv e])
  show "used q j \<Longrightarrow> msgs None (q\<lparr>qmem := store_item slot c (qmem q)\<rparr>, s\<lparr>swtSort := x\<rparr>, k) j = msgs None (q, s, k) j"
    by (rule env_inv(2) [OF inv e])
qed

lemma mod_swt_twice: "mod_swt i f (mod_swt i g w) = mod_swt i (\<lambda>_. f (g (swt_cb w i))) w"
  by (simp add: mod_swt_def)

lemma mod_swt_const: "mod_swt i f w = mod_swt i (\<lambda>_. f (swt_cb w i)) w"
  by (simp add: mod_swt_def)

lemma sl_readd:
  assumes wf: "sl_wf sl" and i: "i \<in> set (sl_nodes sl)" and v: "st + OS_SYS_TICK_TO_CYCLE tps clk n \<noteq> OS_SORT_LINK_INVALID_TIME"
  defines "sl' \<equiv> OsAdd2SortLink tps clk i st n (OsDeleteNodeSortLink i sl)"
  shows "sl_wf sl'" "set (sl_nodes sl') = set (sl_nodes sl)"
    "sl_time sl' = (sl_time sl)(i := st + OS_SYS_TICK_TO_CYCLE tps clk n)"
proof -
  have d: "sl_wf (OsDeleteNodeSortLink i sl)" by (rule sl_wf_delete [OF wf i])
  have n: "i \<notin> set (sl_nodes (OsDeleteNodeSortLink i sl))" using wf by (simp add: sl_wf_def)
  show "sl_wf sl'" unfolding sl'_def by (rule sl_wf_add2 [OF d n v])
  show "set (sl_nodes sl') = set (sl_nodes sl)" "sl_time sl' = (sl_time sl)(i := st + OS_SYS_TICK_TO_CYCLE tps clk n)"
    using i wf by (auto simp: sl'_def OsAdd2SortLink_eq [OF d n] sl_wf_def)
qed

lemma que_inv_cong:
  assumes "lst s' = lst s" and "\<And>t. status s' t = status s t" and "sched_inv s' = sched_inv s"
  shows "que_inv d (q, s', k) = que_inv d (q, s, k)" and "msgs d (q, s', k) i = msgs d (q, s, k) i"
  using assms by (simp_all add: que_inv_def q_count_def q_conts_def msgs_def cnt_def granted_def live_def)

lemma UpdateExpireTime_lists [simp]:
  "lst (OsSchedUpdateExpireTime s) = lst s" "tcb (OsSchedUpdateExpireTime s) = tcb s"
  "swtSort (OsSchedUpdateExpireTime s) = swtSort s" "conf (OsSchedUpdateExpireTime s) = conf s"
  "sysCycle (OsSchedUpdateExpireTime s) = sysCycle s" "g_sysClock (OsSchedUpdateExpireTime s) = g_sysClock s"
  using swt_same_UpdateExpireTime [of s]
  by (simp_all add: swt_same_def) (simp_all add: OsSchedUpdateExpireTime_def Let_def)

text \<open>The item of the timer \<open>i\<close> is sent, by the interrupt and so without waiting.\<close>

lemma expire_send:
  assumes g: "tmr_good slot k ((w, q), s)" and c: "item c = item (swt_cb w i)"
  obtains r q' s' where
    "LOS_QueueWriteCopy (g_swtmrHandlerQueue w) slot 12 LOS_NO_WAIT (q\<lparr>qmem := store_item slot c (qmem q)\<rparr>, s\<lparr>swtSort := sl\<rparr>) = (r, (q', s'))"
    and "que_inv None (q', s', k)" and "swt_same (s\<lparr>swtSort := sl\<rparr>) s'" and "same_geo q q'" and "calm s' k"
    and "if r = Some LOS_OK
      then \<exists>nb. hmsgs k ((w, q'), s') = hmsgs k ((w, q), s) @ [nb] \<and> item_of nb = item (swt_cb w i) \<and> msg_len nb = 12
      else hmsgs k ((w, q'), s') = hmsgs k ((w, q), s)"
proof -
  let ?hq = "g_swtmrHandlerQueue w" and ?q1 = "q\<lparr>qmem := store_item slot c (qmem q)\<rparr>" and ?s1 = "s\<lparr>swtSort := sl\<rparr>"
  have inv: "que_inv None (q, s, k)" "slot_ok slot q" "?hq < OS_ALL_IPC_QUEUE_LIMIT q" "used q (unat ?hq)" "calm s k"
    using g by (simp_all add: tmr_good_def)
  note st = store_item_inv [OF inv(1,2), where c = c and x = sl]
  have q1: "same_geo q ?q1" by (simp add: same_geo_def)
  have h1: "?hq < OS_ALL_IPC_QUEUE_LIMIT ?q1" "slot_ok slot ?q1"
    using inv(2,3) same_geo_used [OF q1] slot_ok_geo [OF q1] by simp_all
  obtain r q2 s2 where w2: "LOS_QueueWriteCopy ?hq slot 12 LOS_NO_WAIT (?q1, ?s1) = (r, (q2, s2))"
    "que_inv None (q2, s2, k)" "swt_same ?s1 s2" "same_geo ?q1 q2" "calm ?s1 k \<Longrightarrow> calm s2 k"
    "if r = Some LOS_OK then \<exists>nb. msgs None (q2, s2, k) (unat ?hq) = msgs None (?q1, ?s1, k) (unat ?hq) @ [nb] \<and> wrote 3 (qmem ?q1) slot 12 nb
      else msgs None (q2, s2, k) (unat ?hq) = msgs None (?q1, ?s1, k) (unat ?hq)"
    by (rule write_item [OF st(1) h1]) blast
  have "calm ?s1 k" using inv(5) calm_cong [of ?s1 s k] by simp
  then show thesis
    using w2 st(2) [OF inv(4)] wrote_item [of slot c "qmem q"] inv(2) same_geo_trans [OF q1 w2(4)] c
    by (intro that [OF w2(1-3)]) (auto simp: slot_ok_def split: if_splits)
qed

lemma expire_ok:
  assumes g: "tmr_good slot k ((w, q), s)" and i: "i \<in> set (sl_nodes (swtSort s))"
    and due: "sl_time (swtSort s) i \<le> sysCycle s"
  obtains w' q' s' where "swtmr_expire slot now i ((w, q), s) = ((w', q'), s')" and "tmr_good slot k ((w', q'), s')"
    and "conf s' = conf s" and "g_sysClock s' = g_sysClock s" and "sysCycle s' = sysCycle s"
    and "SWTMR_LIMIT w' = SWTMR_LIMIT w" and "g_swtmrHandlerQueue w' = g_swtmrHandlerQueue w" and "same_geo q q'"
    and "\<And>j. tview w' (swtSort s') j = (if j = i then expire s (tview w (swtSort s) i) else tview w (swtSort s) j)"
    and "hmsgs k ((w', q'), s') = hmsgs k ((w, q), s) \<or>
      (\<exists>nb. hmsgs k ((w', q'), s') = hmsgs k ((w, q), s) @ [nb] \<and> item_of nb = item (swt_cb w i) \<and> msg_len nb = 12)"
proof -
  note goal = that
  let ?sl = "swtSort s" and ?hq = "g_swtmrHandlerQueue w" and ?t = "sl_time (swtSort s) i"
  have inv: "que_inv None (q, s, k)" "swt_inv w ?sl" "swt_clock s" "slot_ok slot q" "?hq < OS_ALL_IPC_QUEUE_LIMIT q" "used q (unat ?hq)"
    using g by (simp_all add: tmr_good_def)
  note D = swt_invD [OF inv(2)]
  have il: "i < swt_limit w" by (rule D(3) [OF i])
  define c where "c = (swt_cb w i)\<lparr>swtStart := ?t\<rparr>"
  let ?w1 = "mod_swt i (\<lambda>c. c\<lparr>swtStart := ?t\<rparr>) w"
  let ?sl1 = "OsDeleteNodeSortLink i ?sl"
  let ?s1 = "s\<lparr>swtSort := ?sl1\<rparr>" and ?q1 = "q\<lparr>qmem := store_item slot c (qmem q)\<rparr>"
  have ic: "item c = item (swt_cb w i)" by (simp add: c_def)
  obtain r q2 s2 where w2: "LOS_QueueWriteCopy ?hq slot 12 LOS_NO_WAIT (?q1, ?s1) = (r, (q2, s2))"
    "que_inv None (q2, s2, k)" "swt_same ?s1 s2" "same_geo q q2" "calm s2 k"
    "if r = Some LOS_OK
      then \<exists>nb. hmsgs k ((w, q2), s2) = hmsgs k ((w, q), s) @ [nb] \<and> item_of nb = item (swt_cb w i) \<and> msg_len nb = 12
      else hmsgs k ((w, q2), s2) = hmsgs k ((w, q), s)"
    by (rule expire_send [OF g ic]) blast
  note geo = w2(4)
  have ev: "swtmr_expire slot now i ((w, q), s) =
      (if ucMode c = LOS_SWTMR_MODE_PERIOD then OsSwtmrStart now i ((mod_swt i (\<lambda>c. c\<lparr>ucOverrun := ucOverrun c + 1\<rparr>) ?w1, q2), s2)
       else if ucMode c = LOS_SWTMR_MODE_NO_SELFDELETE
       then ((mod_swt i (\<lambda>c. c\<lparr>ucState := OS_SWTMR_STATUS_CREATED\<rparr>) ?w1, q2), s2)
       else ((?w1, q2), s2))"
    using w2(1) by (simp add: swtmr_expire_def OsSwtmrTimeoutHandle_def c_def)
  have ti: "tview w ?sl i = (swt_cb w i, Some ?t)" using i by (simp add: tview_def)
  have ok: "tmr_ok (swt_cb w i) True (?t = OS_SORT_LINK_INVALID_TIME)" using D(4) [OF il] i by simp
  have ms: "hmsgs k ((w, q2), s2) = hmsgs k ((w, q), s) \<or>
      (\<exists>nb. hmsgs k ((w, q2), s2) = hmsgs k ((w, q), s) @ [nb] \<and> item_of nb = item (swt_cb w i) \<and> msg_len nb = 12)"
    using w2(6) by (auto split: if_splits)
  have fin: thesis
    if e: "swtmr_expire slot now i ((w, q), s) = ((mod_swt i (\<lambda>_. c') w, q2), s')"
      and c': "usTimerID c' = usTimerID (swt_cb w i)" "swtNext c' = swtNext (swt_cb w i)" "ucState c' \<noteq> OS_SWTMR_STATUS_UNUSED"
        "tmr_ok c' (i \<in> set (sl_nodes (swtSort s'))) (sl_time (swtSort s') i = OS_SORT_LINK_INVALID_TIME)"
      and wf: "sl_wf (swtSort s')" and same: "\<And>j. j \<noteq> i \<Longrightarrow> j \<in> set (sl_nodes (swtSort s')) \<longleftrightarrow> j \<in> set (sl_nodes ?sl)"
        "\<And>j. j \<noteq> i \<Longrightarrow> sl_time (swtSort s') j = sl_time ?sl j"
      and v: "tview (mod_swt i (\<lambda>_. c') w) (swtSort s') i = expire s (swt_cb w i, Some ?t)"
      and s': "que_inv None (q2, s', k)" "conf s' = conf s2" "g_sysClock s' = g_sysClock s2" "sysCycle s' = sysCycle s2"
        "calm s' k = calm s2 k" "msgs None (q2, s', k) (unat ?hq) = msgs None (q2, s2, k) (unat ?hq)"
    for c' s'
  proof (rule goal [OF e])
    let ?w = "mod_swt i (\<lambda>_. c') w"
    have cl: "conf s' = conf s" "g_sysClock s' = g_sysClock s" "sysCycle s' = sysCycle s"
      using w2(3) s' by (simp_all add: swt_same_def)
    show "conf s' = conf s" "g_sysClock s' = g_sysClock s" "sysCycle s' = sysCycle s" by (fact cl)+
    have "swt_inv ?w (swtSort s')"
      by (rule swt_inv_update [OF inv(2) il c'(1,2) _ wf same c'(4)]) (use c'(3) ok in \<open>auto simp: tmr_ok_def\<close>)
    then show "tmr_good slot k ((?w, q2), s')"
      using s'(1,5) w2(5) cl inv(3-6) slot_ok_geo [OF geo] same_geo_used [OF geo]
      by (simp add: tmr_good_def swt_clock_def clock_ok_def)
    show "SWTMR_LIMIT ?w = SWTMR_LIMIT w" "g_swtmrHandlerQueue ?w = g_swtmrHandlerQueue w" by simp_all
    show "same_geo q q2" by (rule geo)
    show "tview ?w (swtSort s') j = (if j = i then expire s (tview w ?sl i) else tview w ?sl j)" for j
      using v same by (cases "j = i") (simp_all add: ti, simp add: tview_def)
    show "hmsgs k ((?w, q2), s') = hmsgs k ((w, q), s) \<or>
      (\<exists>nb. hmsgs k ((?w, q2), s') = hmsgs k ((w, q), s) @ [nb] \<and> item_of nb = item (swt_cb w i) \<and> msg_len nb = 12)"
      using ms s'(6) by simp
  qed
  have dist: "i \<notin> set (sl_nodes ?sl1)" using D(2) by (simp add: sl_wf_def)
  have s2: "swtSort s2 = ?sl1" "conf s2 = conf s" "g_sysClock s2 = g_sysClock s" "sysCycle s2 = sysCycle s"
    using w2(3) by (simp_all add: swt_same_def)
  have t63: "unat ?t < 2 ^ 63" using due inv(3) by (simp add: swt_clock_def clock_ok_def word_le_nat_alt)
  consider (per) "ucMode c = LOS_SWTMR_MODE_PERIOD" | (keep) "ucMode c = LOS_SWTMR_MODE_NO_SELFDELETE"
    | (once) "ucMode c = LOS_SWTMR_MODE_ONCE"
    using ok by (auto simp: tmr_ok_def c_def)
  then show thesis
  proof cases
    case per
    let ?c = "c\<lparr>ucOverrun := ucOverrun c + 1, ucState := OS_SWTMR_STATUS_TICKING\<rparr>"
    let ?sl2 = "OsAdd2SortLink (TICK_PER_SECOND (conf s)) (g_sysClock s) i ?t (uwInterval c) ?sl1"
    let ?s' = "OsSchedUpdateExpireTime (s2\<lparr>swtSort := ?sl2\<rparr>)"
    note p = period_props [OF inv(3) t63, of "uwInterval c"]
    note ra = sl_readd [OF D(2) i p(2)]
    have e: "swtmr_expire slot now i ((w, q), s) = ((mod_swt i (\<lambda>_. ?c) w, q2), ?s')"
      using ev per s2 by (simp add: OsSwtmrStart_def Let_def mod_swt_twice c_def)
    have ci: "que_inv d (q2, ?s', k) = que_inv d (q2, s2, k)" "msgs d (q2, ?s', k) j = msgs d (q2, s2, k) j"
      "calm ?s' k = calm s2 k" for d j
      by (intro que_inv_cong calm_cong; simp)+
    show thesis
      by (rule fin [OF e]) (use ra ok i w2(2) ci per p in \<open>simp_all add: c_def tmr_ok_def tview_def\<close>)
  next
    case keep
    have e: "swtmr_expire slot now i ((w, q), s) = ((mod_swt i (\<lambda>_. c\<lparr>ucState := OS_SWTMR_STATUS_CREATED\<rparr>) w, q2), s2)"
      using ev keep by (simp add: mod_swt_twice c_def)
    show thesis
      by (rule fin [OF e]) (use sl_wf_delete [OF D(2) i] ok dist w2(2) keep in \<open>simp_all add: s2 c_def tmr_ok_def tview_def\<close>)
  next
    case once
    have e: "swtmr_expire slot now i ((w, q), s) = ((mod_swt i (\<lambda>_. c) w, q2), s2)"
      using ev once mod_swt_const [of i "\<lambda>c. c\<lparr>swtStart := ?t\<rparr>" w] by (simp add: c_def)
    show thesis
      by (rule fin [OF e]) (use sl_wf_delete [OF D(2) i] ok dist w2(2) once in \<open>simp_all add: s2 c_def tmr_ok_def tview_def\<close>)
  qed
qed

section \<open>The scan\<close>

definition due :: "u64 \<Rightarrow> tview \<Rightarrow> bool" where
  "due now v \<longleftrightarrow> (case snd v of None \<Rightarrow> False | Some t \<Rightarrow> t \<le> now)"

text \<open>The timer expires again and again until it is not due any more.\<close>

definition ran_out :: "ksched \<Rightarrow> tview \<Rightarrow> tview \<Rightarrow> bool" where
  "ran_out s v v' \<longleftrightarrow> (\<exists>n. v' = (expire s ^^ n) v \<and> (\<forall>m < n. due (sysCycle s) ((expire s ^^ m) v)) \<and> \<not> due (sysCycle s) v')"

lemma ran_out_stop: "\<not> due (sysCycle s) v \<Longrightarrow> ran_out s v v"
  unfolding ran_out_def by (intro exI [of _ 0]) simp

lemma ran_out_step: "due (sysCycle s) v \<Longrightarrow> ran_out s (expire s v) v' \<Longrightarrow> ran_out s v v'"
proof -
  assume d: "due (sysCycle s) v" and "ran_out s (expire s v) v'"
  then obtain n where n: "v' = (expire s ^^ n) (expire s v)" "\<forall>m < n. due (sysCycle s) ((expire s ^^ m) (expire s v))" "\<not> due (sysCycle s) v'"
    by (auto simp: ran_out_def)
  have "due (sysCycle s) ((expire s ^^ m) v)" if "m < Suc n" for m
    using that d n(2) by (cases m) (simp_all add: funpow_swap1)
  then show ?thesis using n(1,3) unfolding ran_out_def by (intro exI [of _ "Suc n"]) (simp add: funpow_swap1)
qed

lemma expire_cong: "conf s' = conf s \<Longrightarrow> g_sysClock s' = g_sysClock s \<Longrightarrow> expire s' = expire s"
proof
  fix v
  assume "conf s' = conf s" "g_sysClock s' = g_sysClock s"
  then show "expire s' v = expire s v" by (cases v; cases "snd v") auto
qed

lemma expire_item: "item (fst (expire s v)) = item (fst v)"
  by (cases v; cases "snd v") auto

definition overdue :: "u64 \<Rightarrow> nat sortlink \<Rightarrow> nat" where
  "overdue now sl = (\<Sum>i \<in> set (sl_nodes sl). unat now + 1 - unat (sl_time sl i))"

lemma overdue_less:
  assumes i: "i \<in> set (sl_nodes sl)" "unat (sl_time sl i) \<le> unat now"
    and sub: "set (sl_nodes sl') \<subseteq> set (sl_nodes sl)" and same: "\<And>j. j \<noteq> i \<Longrightarrow> j \<in> set (sl_nodes sl') \<Longrightarrow> sl_time sl' j = sl_time sl j"
    and later: "i \<in> set (sl_nodes sl') \<Longrightarrow> unat (sl_time sl i) < unat (sl_time sl' i)"
  shows "overdue now sl' < overdue now sl"
proof -
  let ?f = "\<lambda>sl j. unat now + 1 - unat (sl_time sl j)"
  have e: "overdue now sl = ?f sl i + (\<Sum>j \<in> set (sl_nodes sl) - {i}. ?f sl j)"
    unfolding overdue_def by (rule sum.remove) (use i in simp_all)
  have rest: "(\<Sum>j \<in> set (sl_nodes sl') - {i}. ?f sl' j) \<le> (\<Sum>j \<in> set (sl_nodes sl) - {i}. ?f sl j)"
  proof -
    have "(\<Sum>j \<in> set (sl_nodes sl') - {i}. ?f sl' j) = (\<Sum>j \<in> set (sl_nodes sl') - {i}. ?f sl j)"
      by (rule sum.cong) (simp_all add: same)
    also have "\<dots> \<le> (\<Sum>j \<in> set (sl_nodes sl) - {i}. ?f sl j)" by (rule sum_mono2) (use sub in auto)
    finally show ?thesis .
  qed
  show ?thesis
  proof (cases "i \<in> set (sl_nodes sl')")
    case True
    have "overdue now sl' = ?f sl' i + (\<Sum>j \<in> set (sl_nodes sl') - {i}. ?f sl' j)"
      unfolding overdue_def by (rule sum.remove) (use True in simp_all)
    then show ?thesis using e rest later [OF True] i(2) by simp
  next
    case False
    then have "overdue now sl' = (\<Sum>j \<in> set (sl_nodes sl') - {i}. ?f sl' j)" by (simp add: overdue_def)
    then show ?thesis using e rest i(2) by simp
  qed
qed

text \<open>What the scan does to the timers and to the messages for the timer task.\<close>

definition scanned :: "(tptr \<Rightarrow> qcont option) \<Rightarrow> swtst \<Rightarrow> swtst \<Rightarrow> bool" where
  "scanned k = (\<lambda>((w, q), s) ((w', q'), s').
     conf s' = conf s \<and> g_sysClock s' = g_sysClock s \<and> sysCycle s' = sysCycle s \<and>
     SWTMR_LIMIT w' = SWTMR_LIMIT w \<and> g_swtmrHandlerQueue w' = g_swtmrHandlerQueue w \<and> same_geo q q' \<and>
     (\<forall>j. ran_out s (tview w (swtSort s) j) (tview w' (swtSort s') j)) \<and>
     (\<exists>xs. hmsgs k ((w', q'), s') = hmsgs k ((w, q), s) @ xs \<and>
        (\<forall>nb \<in> set xs. msg_len nb = 12 \<and>
           (\<exists>j. due (sysCycle s) (tview w (swtSort s) j) \<and> item_of nb = item (swt_cb w j)))))"

lemma scanned_step:
  assumes mem: "i \<in> set (sl_nodes (swtSort s))" and i: "sl_time (swtSort s) i \<le> sysCycle s"
    and e: "conf s' = conf s" "g_sysClock s' = g_sysClock s" "sysCycle s' = sysCycle s"
      "SWTMR_LIMIT w' = SWTMR_LIMIT w" "g_swtmrHandlerQueue w' = g_swtmrHandlerQueue w" "same_geo q q'"
      "\<And>j. tview w' (swtSort s') j = (if j = i then expire s (tview w (swtSort s) i) else tview w (swtSort s) j)"
      "hmsgs k ((w', q'), s') = hmsgs k ((w, q), s) \<or>
        (\<exists>nb. hmsgs k ((w', q'), s') = hmsgs k ((w, q), s) @ [nb] \<and> item_of nb = item (swt_cb w i) \<and> msg_len nb = 12)"
    and r: "scanned k ((w', q'), s') st'"
  shows "scanned k ((w, q), s) st'"
proof -
  obtain w2 q2 s2 where st': "st' = ((w2, q2), s2)" by (metis prod.exhaust)
  have di: "due (sysCycle s) (tview w (swtSort s) i)" using mem i by (simp add: due_def tview_def)
  have ex: "expire s' = expire s" by (rule expire_cong [OF e(1,2)])
  have ro: "ran_out s' = ran_out s" by (simp add: ran_out_def ex e(3) fun_eq_iff)
  have R: "ran_out s (tview w' (swtSort s') j) (tview w2 (swtSort s2) j)" for j
    using r by (simp add: scanned_def st' ro)
  have R': "ran_out s (tview w (swtSort s) j) (tview w2 (swtSort s2) j)" for j
    using R [of j] ran_out_step [OF di] e(7) [of j] by (cases "j = i") simp_all
  have dd: "\<exists>j'. due (sysCycle s) (tview w (swtSort s) j') \<and> item (swt_cb w' j) = item (swt_cb w j')"
    if "due (sysCycle s) (tview w' (swtSort s') j)" for j
  proof (cases "j = i")
    case True
    have "swt_cb w' i = fst (expire s (tview w (swtSort s) i))" using e(7) [of i] tview_fst [of w' "swtSort s'" i] by simp
    then have "item (swt_cb w' j) = item (swt_cb w i)" using expire_item [of s "tview w (swtSort s) i"] True by simp
    then show ?thesis using di by blast
  next
    case False
    then have v: "tview w' (swtSort s') j = tview w (swtSort s) j" using e(7) [of j] by simp
    then have "swt_cb w' j = swt_cb w j" using tview_fst [of w' "swtSort s'" j] by simp
    then show ?thesis using that v by auto
  qed
  obtain xs where xs: "hmsgs k ((w2, q2), s2) = hmsgs k ((w', q'), s') @ xs"
    "\<And>nb. nb \<in> set xs \<Longrightarrow> msg_len nb = 12 \<and> (\<exists>j. due (sysCycle s) (tview w' (swtSort s') j) \<and> item_of nb = item (swt_cb w' j))"
    using r by (auto simp: scanned_def st' e(3))
  have xs': "msg_len nb = 12 \<and> (\<exists>j. due (sysCycle s) (tview w (swtSort s) j) \<and> item_of nb = item (swt_cb w j))"
    if nb: "nb \<in> set xs" for nb
  proof -
    obtain j where j: "msg_len nb = 12" "due (sysCycle s) (tview w' (swtSort s') j)" "item_of nb = item (swt_cb w' j)"
      using xs(2) [OF nb] by blast
    obtain j' where "due (sysCycle s) (tview w (swtSort s) j')" "item (swt_cb w' j) = item (swt_cb w j')"
      using dd [OF j(2)] by blast
    then show ?thesis using j(1,3) by (intro conjI exI [of _ j']) (simp_all only: j)
  qed
  obtain ys where ys: "hmsgs k ((w', q'), s') = hmsgs k ((w, q), s) @ ys"
    "\<And>nb. nb \<in> set ys \<Longrightarrow> msg_len nb = 12 \<and> (\<exists>j. due (sysCycle s) (tview w (swtSort s) j) \<and> item_of nb = item (swt_cb w j))"
  proof (rule disjE [OF e(8)])
    assume "hmsgs k ((w', q'), s') = hmsgs k ((w, q), s)"
    then show thesis by (intro that [of "[]"]) simp_all
  next
    assume "\<exists>nb. hmsgs k ((w', q'), s') = hmsgs k ((w, q), s) @ [nb] \<and> item_of nb = item (swt_cb w i) \<and> msg_len nb = 12"
    then obtain nb where nb: "hmsgs k ((w', q'), s') = hmsgs k ((w, q), s) @ [nb]" "item_of nb = item (swt_cb w i)" "msg_len nb = 12"
      by blast
    show thesis by (rule that [OF nb(1)]) (use nb(2,3) di in auto)
  qed
  have m: "hmsgs k ((w2, q2), s2) = hmsgs k ((w, q), s) @ (ys @ xs)" by (simp only: xs(1) ys(1) append_assoc)
  have n: "\<forall>nb \<in> set (ys @ xs). msg_len nb = 12 \<and>
      (\<exists>j. due (sysCycle s) (tview w (swtSort s) j) \<and> item_of nb = item (swt_cb w j))"
    using xs' ys(2) by auto
  have geo: "same_geo q q2" using r e(6) same_geo_trans by (auto simp: scanned_def st')
  have c: "conf s2 = conf s" "g_sysClock s2 = g_sysClock s" "sysCycle s2 = sysCycle s" "SWTMR_LIMIT w2 = SWTMR_LIMIT w"
    "g_swtmrHandlerQueue w2 = g_swtmrHandlerQueue w"
    using r e(1-6) by (simp_all add: scanned_def st')
  show ?thesis
    unfolding st' scanned_def prod.case by (intro conjI allI c geo R') (rule exI, rule conjI [OF m n])
qed

lemma tview_snd: "snd (tview w sl i) = (if i \<in> set (sl_nodes sl) then Some (sl_time sl i) else None)"
  by (simp add: tview_def)

lemma expire_overdue:
  assumes g: "tmr_good slot k ((w, q), s)" and mem: "i \<in> set (sl_nodes (swtSort s))"
    and i: "sl_time (swtSort s) i \<le> sysCycle s"
    and e: "\<And>j. tview w' (swtSort s') j = (if j = i then expire s (tview w (swtSort s) i) else tview w (swtSort s) j)"
  shows "overdue (sysCycle s) (swtSort s') < overdue (sysCycle s) (swtSort s)"
proof (rule overdue_less [OF mem])
  have v: "snd (tview w' (swtSort s') j) = snd (tview w (swtSort s) j)" if "j \<noteq> i" for j using e [of j] that by simp
  show "unat (sl_time (swtSort s) i) \<le> unat (sysCycle s)" using i by (simp add: word_le_nat_alt)
  show "set (sl_nodes (swtSort s')) \<subseteq> set (sl_nodes (swtSort s))"
  proof
    fix j
    assume "j \<in> set (sl_nodes (swtSort s'))"
    then show "j \<in> set (sl_nodes (swtSort s))" using v [of j] mem by (cases "j = i") (simp_all add: tview_snd split: if_splits)
  qed
  show "sl_time (swtSort s') j = sl_time (swtSort s) j" if "j \<noteq> i" "j \<in> set (sl_nodes (swtSort s'))" for j
    using v [OF that(1)] that(2) by (simp add: tview_snd split: if_splits)
  assume n: "i \<in> set (sl_nodes (swtSort s'))"
  have "Some (sl_time (swtSort s') i) = snd (tview w' (swtSort s') i)" using n by (simp add: tview_snd)
  also have "\<dots> = snd (expire s (swt_cb w i, Some (sl_time (swtSort s) i)))" unfolding e using mem by (simp add: tview_def)
  finally have t: "sl_time (swtSort s') i = sl_time (swtSort s) i + period s (uwInterval (swt_cb w i))"
    by (simp split: if_splits)
  have c: "swt_clock s" "unat (sl_time (swtSort s) i) < 2 ^ 63"
    using g i by (auto simp: tmr_good_def swt_clock_def clock_ok_def word_le_nat_alt)
  have "swt_inv w (swtSort s)" using g by (simp add: tmr_good_def)
  note D = swt_invD(3,4) [OF this]
  have "uwInterval (swt_cb w i) \<noteq> 0" using D(2) [OF D(1) [OF mem]] mem by (auto simp: tmr_ok_def)
  then show "unat (sl_time (swtSort s) i) < unat (sl_time (swtSort s') i)"
    using period_props(1,3) [OF c, of "uwInterval (swt_cb w i)"] t by simp
qed

lemma scan_loop_ok:
  assumes "tmr_good slot k st"
  shows "\<exists>b' st'. swtmr_scan_loop slot (sysCycle (snd st)) b st = Some (b', st') \<and> tmr_good slot k st' \<and> scanned k st st'"
  using assms
proof (induction "overdue (sysCycle (snd st)) (swtSort (snd st))" arbitrary: st b rule: less_induct)
  case less
  obtain w q s where st: "st = ((w, q), s)" by (metis prod.exhaust)
  note g = less.prems [unfolded st]
  have wf: "sl_wf (swtSort s)" using g by (simp add: tmr_good_def swt_inv_def)
  show ?case
  proof (cases "\<exists>i is. sl_nodes (swtSort s) = i # is \<and> sl_time (swtSort s) i \<le> sysCycle s")
    case False
    then have "\<not> due (sysCycle s) (tview w (swtSort s) j)" for j
      using wf by (cases "sl_nodes (swtSort s)") (auto simp: due_def tview_def sl_wf_def sl_sorted_def)
    then have "scanned k st st" by (auto simp: scanned_def st intro: ran_out_stop)
    moreover have "swtmr_scan_loop slot (sysCycle (snd st)) b st = Some (b, st)"
      using False by (subst swtmr_scan_loop.simps) (auto simp: st split: list.splits)
    ultimately show ?thesis using less.prems by blast
  next
    case True
    then obtain i r where i: "sl_nodes (swtSort s) = i # r" "sl_time (swtSort s) i \<le> sysCycle s" by blast
    then have mem: "i \<in> set (sl_nodes (swtSort s))" by simp
    obtain w' q' s' where e: "swtmr_expire slot (sysCycle s) i ((w, q), s) = ((w', q'), s')" "tmr_good slot k ((w', q'), s')"
      "conf s' = conf s" "g_sysClock s' = g_sysClock s" "sysCycle s' = sysCycle s"
      "SWTMR_LIMIT w' = SWTMR_LIMIT w" "g_swtmrHandlerQueue w' = g_swtmrHandlerQueue w" "same_geo q q'"
      "\<And>j. tview w' (swtSort s') j = (if j = i then expire s (tview w (swtSort s) i) else tview w (swtSort s) j)"
      "hmsgs k ((w', q'), s') = hmsgs k ((w, q), s) \<or>
        (\<exists>nb. hmsgs k ((w', q'), s') = hmsgs k ((w, q), s) @ [nb] \<and> item_of nb = item (swt_cb w i) \<and> msg_len nb = 12)"
      by (rule expire_ok [OF g mem i(2)]) blast
    have "overdue (sysCycle s') (swtSort s') < overdue (sysCycle s) (swtSort s)"
      unfolding e(5) by (rule expire_overdue [OF g mem i(2) e(9)])
    then obtain b' st' where r: "swtmr_scan_loop slot (sysCycle s') True ((w', q'), s') = Some (b', st')"
      "tmr_good slot k st'" "scanned k ((w', q'), s') st'"
      using less.hyps [of "((w', q'), s')" True] e(2) by (auto simp: st)
    have "swtmr_scan_loop slot (sysCycle s) b st = Some (b', st')"
      using r(1) e(1,5) i by (subst swtmr_scan_loop.simps) (simp add: st)
    moreover have "scanned k st st'"
      unfolding st by (rule scanned_step [OF mem i(2) e(3-10) r(3)])
    ultimately show ?thesis using r(2) unfolding st snd_conv by (intro exI conjI)
  qed
qed

section \<open>The tick\<close>

text \<open>The scan of the sleeping tasks takes tasks off the wait lists of the queues, with the mark of a timeout.\<close>

lemma task_scan_same: "swt_same s (fst (scan_timer_loop now (s, b)))"
proof (induction "length (sl_nodes (tskSort s))" arbitrary: s b)
  case 0
  then show ?case by (simp add: swt_same_def)
next
  case (Suc n)
  then obtain t ts where sl: "sl_nodes (tskSort s) = t # ts" by (cases "sl_nodes (tskSort s)") auto
  obtain s1 b1 where r: "OsSchedWakePendTimeTask t (mod_tskSort (OsDeleteNodeSortLink t) s, b) = (s1, b1)" by fastforce
  have "swt_same s s1" using r by (auto simp: OsSchedWakePendTimeTask_def Let_def swt_same_def split: if_splits)
  moreover have "tskSort s1 = OsDeleteNodeSortLink t (tskSort s)"
    using OsSchedWakePendTimeTask_tskSort [of t "mod_tskSort (OsDeleteNodeSortLink t) s" b] by (simp add: r)
  then have "n = length (sl_nodes (tskSort s1))" using Suc.hyps(2) sl by simp
  ultimately show ?case using Suc.hyps(1) [of s1 b1] swt_same_trans sl r by (auto simp: swt_same_def)
qed

lemma wake_status_flags:
  "\<not> hasFlag (wake_status st) OS_TASK_STATUS_PEND"
  "hasFlag (wake_status st) OS_TASK_STATUS_TIMEOUT \<longleftrightarrow> hasFlag st OS_TASK_STATUS_TIMEOUT \<or> hasFlag st OS_TASK_STATUS_PEND"
  by (auto simp: wake_status_def Let_def)

lemma task_scan_queues:
  assumes inv: "que_inv None (q, s, k)" and c: "calm s k"
  defines "s' \<equiv> fst (OsSchedScanTimerList s)"
  shows "que_inv None (q, s', k)" and "calm s' k" and "used q i \<Longrightarrow> msgs None (q, s', k) i = msgs None (q, s, k) i"
proof -
  have si: "sched_inv s" by (rule que_invD(1) [OF inv])
  note sp = scan_timer_loop_spec [OF si, of "sysCycle s" False, unfolded Let_def, folded OsSchedScanTimerList_def, folded s'_def]
  have si': "sched_inv s'" using sp by blast
  have wf: "ls_wf (lst s)" "ls_wf (lst s')" using si si' by (simp_all add: sched_inv_def)
  have W: "status s' t = wake_status (status s t) \<or> tcb s' t = tcb s t \<and> ls_loc (lst s') t = ls_loc (lst s) t" for t
    using sp by metis
  have same: "t \<in> set (ls_nodes (lst s') h) \<longleftrightarrow> t \<in> set (ls_nodes (lst s) h)" if "ls_loc (lst s') t = ls_loc (lst s) t" for t h
    using that wf by (simp add: ls_wf_loc [symmetric])
  have out: "t \<notin> set (ls_nodes (lst s') h)" if "status s' t = wake_status (status s t)" "is_wait h" for t h
    using waiter_pend [OF si' that(2), of t] that(1) wake_status_flags(1) by auto
  have sub: "set (ls_nodes (lst s') h) \<subseteq> set (ls_nodes (lst s) h)" if "is_wait h" for h
    using W out [OF _ that] same by blast
  have to: "if hasFlag (status s t) OS_TASK_STATUS_TIMEOUT then hasFlag (status s' t) OS_TASK_STATUS_TIMEOUT
      else hasFlag (status s' t) OS_TASK_STATUS_TIMEOUT \<longleftrightarrow>
        t \<in> set (que_wait s (kQue e) (kSide e)) \<and> t \<notin> set (que_wait s' (kQue e) (kSide e))" if "k t = Some e" for t e
  proof (cases "status s' t = wake_status (status s t)")
    case True
    have "hasFlag (status s t) OS_TASK_STATUS_PEND \<longleftrightarrow> t \<in> set (que_wait s (kQue e) (kSide e))"
      if "\<not> hasFlag (status s t) OS_TASK_STATUS_TIMEOUT"
      using that \<open>k t = Some e\<close> c waiter_pend [OF si readWriteList_wait] by (auto simp: calm_def live_def)
    then show ?thesis using True out [OF True readWriteList_wait] by (simp add: wake_status_flags)
  next
    case False
    then have "tcb s' t = tcb s t" "ls_loc (lst s') t = ls_loc (lst s) t" using W by blast+
    then show ?thesis using same by simp
  qed
  have "ls_nodes (lst s') (QueMemList j) = []" if "\<not> used q j" for j
    using sub [of "QueMemList j"] q_contsD(4) [OF que_invD(4) [OF inv] that] by simp
  then have e: "env_ok (q, s, k) s' (qmem q)"
    using si' sub [OF readWriteList_wait] to by (simp add: env_ok_def)
  show "que_inv None (q, s', k)" "used q i \<Longrightarrow> msgs None (q, s', k) i = msgs None (q, s, k) i"
    using env_inv [OF inv e] by simp_all
  show "calm s' k"
    unfolding calm_def
  proof (intro allI impI)
    fix t e
    assume a: "live s' k t e \<and> hasFlag (status s' t) OS_TASK_STATUS_PEND"
    then have "tcb s' t = tcb s t" "ls_loc (lst s') t = ls_loc (lst s) t" using W [of t] wake_status_flags(1) by auto
    then show "t \<in> set (que_wait s' (kQue e) (kSide e))" using a c same by (simp add: calm_def live_def)
  qed
qed

lemma tmr_good_cong:
  assumes "lst s' = lst s" and "\<And>t. status s' t = status s t" and "sched_inv s' = sched_inv s" and "swt_same s s'"
  shows "tmr_good slot k (m, s') = tmr_good slot k (m, s)"
  using que_inv_cong(1) [OF assms(1-3)] calm_cong [OF assms(1,2)] swt_same_clock [OF assms(4)] assms(4)
  by (cases m) (simp add: tmr_good_def swt_same_def)

lemma scan_good:
  assumes "tmr_good slot k ((w, q), s)"
  obtains w' q' s' where "swtmrScan slot ((w, q), s) = Some ((w', q'), s')" and "tmr_good slot k ((w', q'), s')"
    and "scanned k ((w, q), s) ((w', q'), s')"
proof -
  obtain b w' q' s' where "swtmr_scan_loop slot (sysCycle s) False ((w, q), s) = Some (b, ((w', q'), s'))"
    "tmr_good slot k ((w', q'), s')" "scanned k ((w, q), s) ((w', q'), s')"
    using scan_loop_ok [OF assms, of False] by (metis prod.exhaust snd_conv)
  then show thesis by (intro that) (simp_all add: swtmrScan_def OsSwtmrScan_def)
qed

lemma task_scan_good:
  assumes "tmr_good slot k ((w, q), s)"
  shows "tmr_good slot k ((w, q), fst (OsSchedScanTimerList s))"
    and "hmsgs k ((w, q), fst (OsSchedScanTimerList s)) = hmsgs k ((w, q), s)"
    and "swt_same s (fst (OsSchedScanTimerList s))"
  using assms task_scan_queues [of q s k] task_scan_same [of s "sysCycle s" False]
    swt_same_clock [of s "fst (OsSchedScanTimerList s)"]
  by (simp_all add: tmr_good_def OsSchedScanTimerList_def) (simp add: swt_same_def)

section \<open>Pending expiries\<close>

text \<open>
  The items that have been sent and not been handled yet: those in the queue and the one the timer
  task has read.  An item whose identifier is still that of its block belongs to a timer in use,
  with its handler and its argument; and a one-shot timer with such an item is not running.
\<close>

type_synonym titem = "u32 \<times> u32 \<times> u32"

definition pend_ok :: "swtmrs \<Rightarrow> nat sortlink \<Rightarrow> titem set \<Rightarrow> bool" where
  "pend_ok w sl X \<longleftrightarrow> (\<forall>h a n. (h, a, n) \<in> X \<longrightarrow>
     (let i = OS_SWT_FROM_SID n w; c = swt_cb w i in
      usTimerID c = n \<longrightarrow> ucState c \<noteq> OS_SWTMR_STATUS_UNUSED \<and> h = pfnHandler c \<and> a = swtArg c \<and>
        (ucMode c = LOS_SWTMR_MODE_ONCE \<longrightarrow> i \<notin> set (sl_nodes sl))))"

lemma pend_okD:
  assumes "pend_ok w sl X" and "(h, a, n) \<in> X" and "usTimerID (swt_cb w (OS_SWT_FROM_SID n w)) = n"
  shows "ucState (swt_cb w (OS_SWT_FROM_SID n w)) \<noteq> OS_SWTMR_STATUS_UNUSED" "h = pfnHandler (swt_cb w (OS_SWT_FROM_SID n w))"
    "a = swtArg (swt_cb w (OS_SWT_FROM_SID n w))"
    "ucMode (swt_cb w (OS_SWT_FROM_SID n w)) = LOS_SWTMR_MODE_ONCE \<Longrightarrow> OS_SWT_FROM_SID n w \<notin> set (sl_nodes sl)"
  using assms by (auto simp: pend_ok_def Let_def)

lemma pend_okI:
  assumes "\<And>h a n. (h, a, n) \<in> X \<Longrightarrow> usTimerID (swt_cb w (OS_SWT_FROM_SID n w)) = n \<Longrightarrow>
     ucState (swt_cb w (OS_SWT_FROM_SID n w)) \<noteq> OS_SWTMR_STATUS_UNUSED \<and> h = pfnHandler (swt_cb w (OS_SWT_FROM_SID n w)) \<and>
     a = swtArg (swt_cb w (OS_SWT_FROM_SID n w)) \<and>
     (ucMode (swt_cb w (OS_SWT_FROM_SID n w)) = LOS_SWTMR_MODE_ONCE \<longrightarrow> OS_SWT_FROM_SID n w \<notin> set (sl_nodes sl))"
  shows "pend_ok w sl X"
  using assms by (simp add: pend_ok_def Let_def)

lemma pend_ok_mono: "pend_ok w sl X \<Longrightarrow> Y \<subseteq> X \<Longrightarrow> pend_ok w sl Y"
  unfolding pend_ok_def by blast

text \<open>What the expiries of a timer keep.\<close>

definition same_timer :: "SWTMR_CTRL_S \<Rightarrow> SWTMR_CTRL_S \<Rightarrow> bool" where
  "same_timer c c' \<longleftrightarrow> item c' = item c \<and> ucMode c' = ucMode c \<and>
     (ucState c \<noteq> OS_SWTMR_STATUS_UNUSED \<longrightarrow> ucState c' \<noteq> OS_SWTMR_STATUS_UNUSED)"

lemma expire_same: "same_timer (fst v) (fst (expire s v))"
  by (cases v; cases "snd v") (auto simp: same_timer_def)

lemma ran_out_same:
  assumes "ran_out s v v'"
  shows "same_timer (fst v) (fst v')" and "snd v = None \<Longrightarrow> v' = v"
    and "ucMode (fst v) = LOS_SWTMR_MODE_ONCE \<Longrightarrow> due (sysCycle s) v \<Longrightarrow> snd v' = None"
proof -
  obtain n where n: "v' = (expire s ^^ n) v" "\<not> due (sysCycle s) v'" using assms by (auto simp: ran_out_def)
  have "same_timer (fst v) (fst ((expire s ^^ m) v))" for m
  proof (induction m)
    case 0
    show ?case by (simp add: same_timer_def)
  next
    case (Suc m)
    then show ?case using expire_same [of "(expire s ^^ m) v" s] by (simp add: same_timer_def)
  qed
  then show "same_timer (fst v) (fst v')" by (simp add: n)
  have stop: "(expire s ^^ m) x = x" if "snd x = None" for m x
    using that by (induction m) (simp_all, metis expire.simps(1) prod.collapse)
  then show "snd v = None \<Longrightarrow> v' = v" by (simp add: n)
  assume o: "ucMode (fst v) = LOS_SWTMR_MODE_ONCE" and d: "due (sysCycle s) v"
  then obtain m where m: "n = Suc m" using n by (cases n) auto
  have "snd (expire s v) = None" using o d by (cases v; cases "snd v") (auto simp: due_def)
  then show "snd v' = None" using stop [of "expire s v" m] by (simp add: n m funpow_swap1)
qed

lemma scanned_pend:
  assumes inv: "swt_inv w (swtSort s)" and sc: "scanned k ((w, q), s) ((w', q'), s')" and p: "pend_ok w (swtSort s) (item_of ` set (hmsgs k ((w, q), s)) \<union> X)"
  shows "pend_ok w' (swtSort s') (item_of ` set (hmsgs k ((w', q'), s')) \<union> X)"
    and "(\<forall>nb \<in> set (hmsgs k ((w, q), s)). msg_len nb = 12) \<Longrightarrow> (\<forall>nb \<in> set (hmsgs k ((w', q'), s')). msg_len nb = 12)"
proof -
  have ro: "ran_out s (tview w (swtSort s) j) (tview w' (swtSort s') j)" for j using sc by (simp add: scanned_def)
  obtain xs where xs: "hmsgs k ((w', q'), s') = hmsgs k ((w, q), s) @ xs"
    "\<And>nb. nb \<in> set xs \<Longrightarrow> msg_len nb = 12 \<and> (\<exists>j. due (sysCycle s) (tview w (swtSort s) j) \<and> item_of nb = item (swt_cb w j))"
    using sc by (auto simp: scanned_def)
  have lim: "OS_SWT_FROM_SID n w' = OS_SWT_FROM_SID n w" for n using sc by (simp add: scanned_def OS_SWT_FROM_SID_def)
  have st: "same_timer (swt_cb w j) (swt_cb w' j)" for j using ran_out_same(1) [OF ro [of j]] by simp
  show "pend_ok w' (swtSort s') (item_of ` set (hmsgs k ((w', q'), s')) \<union> X)"
  proof (rule pend_okI, unfold lim)
    fix h a n
    let ?i = "OS_SWT_FROM_SID n w"
    assume m: "(h, a, n) \<in> item_of ` set (hmsgs k ((w', q'), s')) \<union> X" and id: "usTimerID (swt_cb w' ?i) = n"
    then have id': "usTimerID (swt_cb w ?i) = n" using st [of ?i] by (simp add: same_timer_def)
    have "(h, a, n) \<in> item_of ` set (hmsgs k ((w, q), s)) \<union> X \<or> (\<exists>nb \<in> set xs. (h, a, n) = item_of nb)"
      using m unfolding xs(1) by auto
    then consider (old) "(h, a, n) \<in> item_of ` set (hmsgs k ((w, q), s)) \<union> X"
      | (new) j where "due (sysCycle s) (tview w (swtSort s) j)" "(h, a, n) = item (swt_cb w j)"
      using xs(2) by metis
    then show "ucState (swt_cb w' ?i) \<noteq> OS_SWTMR_STATUS_UNUSED \<and> h = pfnHandler (swt_cb w' ?i) \<and> a = swtArg (swt_cb w' ?i) \<and>
       (ucMode (swt_cb w' ?i) = LOS_SWTMR_MODE_ONCE \<longrightarrow> ?i \<notin> set (sl_nodes (swtSort s')))"
    proof cases
      case old
      note D = pend_okD [OF p old id']
      have "?i \<notin> set (sl_nodes (swtSort s'))" if "ucMode (swt_cb w ?i) = LOS_SWTMR_MODE_ONCE"
        using D(4) [OF that] ran_out_same(2) [OF ro [of ?i]] by (auto simp: tview_def split: if_splits)
      then show ?thesis using D st [of ?i] by (simp add: same_timer_def)
    next
      case new
      have j: "j \<in> set (sl_nodes (swtSort s))" using new(1) by (auto simp: due_def tview_snd split: option.splits if_splits)
      then have jl: "j < swt_limit w" by (rule swt_invD(3) [OF inv])
      have ij: "?i = j" using swt_invD(5) [OF inv] jl new(2) by (simp add: ids_ok_def)
      have "ucState (swt_cb w j) \<noteq> OS_SWTMR_STATUS_UNUSED" using swt_invD(4) [OF inv jl] j by (simp add: tmr_ok_def)
      moreover have "j \<notin> set (sl_nodes (swtSort s'))" if "ucMode (swt_cb w j) = LOS_SWTMR_MODE_ONCE"
        using ran_out_same(3) [OF ro [of j] _ new(1)] that by (auto simp: tview_snd split: if_splits)
      ultimately show ?thesis unfolding ij using new(2) st [of j] by (simp add: same_timer_def)
    qed
  qed
  show "(\<forall>nb \<in> set (hmsgs k ((w, q), s)). msg_len nb = 12) \<Longrightarrow> (\<forall>nb \<in> set (hmsgs k ((w', q'), s')). msg_len nb = 12)"
    using xs by auto
qed

text \<open>
  The invariant of a history: \<open>slot\<close> is the buffer of the scan, \<open>buf\<close> the one of the timer task, and
  \<open>hand\<close> the item the task has read.
\<close>

definition hist_good :: "u32 \<Rightarrow> u32 \<Rightarrow> (tptr \<Rightarrow> qcont option) \<Rightarrow> titem option \<Rightarrow> swtst \<Rightarrow> bool" where
  "hist_good slot buf k hand = (\<lambda>((w, q), s). tmr_good slot k ((w, q), s) \<and> slot_ok buf q \<and>
     queueSize (g_allQueue q (unat (g_swtmrHandlerQueue w))) = 16 \<and>
     pend_ok w (swtSort s) (item_of ` set (hmsgs k ((w, q), s)) \<union> set_option hand) \<and>
     (\<forall>nb \<in> set (hmsgs k ((w, q), s)). msg_len nb = 12))"

lemma hist_good_cong:
  assumes "lst s' = lst s" and "\<And>t. status s' t = status s t" and "sched_inv s' = sched_inv s" and "swt_same s s'"
  shows "hist_good slot buf k hand (m, s') = hist_good slot buf k hand (m, s)"
  using tmr_good_cong [OF assms] que_inv_cong(2) [OF assms(1-3)] assms(4)
  by (cases m) (simp add: hist_good_def swt_same_def)

interpretation swt: timer_client "swtmrScan slot" "hist_good slot buf k hand"
proof
  fix m :: "swtmrs \<times> queues" and s :: ksched
  obtain w q where m: "m = (w, q)" by force
  let ?G = "hist_good slot buf k hand"
  show g1: "?G (m, s) \<Longrightarrow> sched_inv s" by (simp add: m hist_good_def tmr_good_def que_inv_def)
  show "\<exists>m' s'. swtmrScan slot (m, s) = Some (m', s') \<and> ?G (m', s') \<and> sysCycle s' = sysCycle s" if g: "?G (m, s)"
  proof -
    have t: "tmr_good slot k ((w, q), s)" using g by (simp add: m hist_good_def)
    obtain w' q' s' where sc: "swtmrScan slot ((w, q), s) = Some ((w', q'), s')" "tmr_good slot k ((w', q'), s')"
      "scanned k ((w, q), s) ((w', q'), s')"
      by (rule scan_good [OF t])
    have inv: "swt_inv w (swtSort s)" using t by (simp add: tmr_good_def)
    have e: "same_geo q q'" "g_swtmrHandlerQueue w' = g_swtmrHandlerQueue w" "sysCycle s' = sysCycle s"
      using sc(3) by (simp_all add: scanned_def)
    have p: "pend_ok w (swtSort s) (item_of ` set (hmsgs k ((w, q), s)) \<union> set_option hand)"
      using g by (simp add: m hist_good_def)
    have "?G ((w', q'), s')"
      using g sc(2) scanned_pend [OF inv sc(3) p] slot_ok_geo [OF e(1), of buf] e(1,2)
      by (simp add: m hist_good_def) (simp add: same_geo_def)
    then show ?thesis using sc(1) e(3) m by blast
  qed
  show "?G (m, fst (OsSchedScanTimerList s))" if g: "?G (m, s)"
    using g task_scan_good [of slot k w q s] by (simp add: m hist_good_def swt_same_def)
  show "?G (m, OsTimeSliceUpdate (runTask s) (sysCycle s) s)" if g: "?G (m, s)"
    using g g1 [OF g] hist_good_cong [of "OsTimeSliceUpdate (runTask s) (sysCycle s) s" s slot buf k hand m]
    by (simp add: swt_same_def OsTimeSliceUpdate_inv sched_inv_start)
  show "?G (m, mod_task (runTask s) (\<lambda>c. c\<lparr>startTime := sysCycle s\<rparr>) s)" if g: "?G (m, s)"
    using g g1 [OF g] hist_good_cong [of "mod_task (runTask s) (\<lambda>c. c\<lparr>startTime := sysCycle s\<rparr>) s" s slot buf k hand m]
    by (simp add: swt_same_def sched_inv_mod_task)
  show "?G (m, s\<lparr>g_tickIntLock := l\<rparr>) = ?G (m, s)" for l by (rule hist_good_cong) (simp_all add: swt_same_def)
  show "?G (m, s\<lparr>g_schedResponseTime := x\<rparr>) = ?G (m, s)" for x by (rule hist_good_cong) (simp_all add: swt_same_def)
  show "?G (m, ArchTaskSchedule s) = ?G (m, s)" by (rule hist_good_cong) (simp_all add: swt_same_def ArchTaskSchedule_def)
  show "?G (m, OsSchedUpdateExpireTime s) = ?G (m, s)" by (rule hist_good_cong) (simp_all add: swt_same_def)
qed

end
