(* ===== verification/Swtmr_Scan.thy ===== *)
theory Swtmr_Scan
  imports Swtmr_Inv
begin

text \<open>
  What the scan of the software timers sends: the expiries in the order of their times, each with the
  item of its timer, as long as the handler queue has free nodes.
\<close>

definition room :: "swtst \<Rightarrow> nat" where
  "room = (\<lambda>((w, q), s). unat (readWriteableCnt (g_allQueue q (unat (g_swtmrHandlerQueue w))) OS_QUEUE_WRITE))"

definition size_ok :: "swtst \<Rightarrow> bool" where
  "size_ok = (\<lambda>((w, q), s). queueSize (g_allQueue q (unat (g_swtmrHandlerQueue w))) = 16)"

lemma BufferOperate_counts:
  "OsQueueBufferOperate i ty buf sz q = (sz', q') \<Longrightarrow> readWriteableCnt (g_allQueue q' j) = readWriteableCnt (g_allQueue q j)"
  by (auto simp: OsQueueBufferOperate_def queue_position_def Let_def split: if_splits option.splits prod.splits)

lemma write_room:
  assumes h: "hq < OS_ALL_IPC_QUEUE_LIMIT q" and u: "used q (unat hq)" and z: "queueSize (g_allQueue q (unat hq)) = 16"
    and sl: "slot \<noteq> 0" and r: "LOS_QueueWriteCopy hq slot 12 LOS_NO_WAIT (q, s) = (r, (q', s'))"
  defines "cw \<equiv> \<lambda>q. readWriteableCnt (g_allQueue q (unat hq)) OS_QUEUE_WRITE"
  shows "r = Some LOS_OK \<longleftrightarrow> cw q \<noteq> 0" and "cw q' = (if cw q = 0 then 0 else cw q - 1)"
proof -
  have rw: "OS_QUEUE_READ_WRITE_GET 3 = OS_QUEUE_WRITE" by (simp add: OS_QUEUE_READ_WRITE_GET_def)
  obtain z' where o: "OsQueueOperate hq 3 slot 12 LOS_NO_WAIT (q, s) = ((r, z'), (q', s'))"
    using h sl r by (auto simp: not_le [symmetric] LOS_QueueWriteCopy_def OsQueueWriteParameterCheck_def OS_QUEUE_OPERATE_TYPE_def split: prod.splits)
  have ck: "OsQueueOperateParamCheck (g_allQueue q (unat hq)) 3 12 = LOS_OK"
    using u z by (simp add: OsQueueOperateParamCheck_def used_def SECUREC_MEM_MAX_LEN_def)
  have hi: "OsGetQueueHandle hq q = unat hq" by (rule handle_index(1) [OF h])
  have "(r = Some LOS_OK \<longleftrightarrow> cw q \<noteq> 0) \<and> cw q' = (if cw q = 0 then 0 else cw q - 1)"
  proof (cases "cw q = 0")
    case True
    then show ?thesis using o by (auto simp: OsQueueOperate_def hi ck rw cw_def Let_def errno_defs split: if_splits)
  next
    case False
    let ?q = "mod_que (unat hq) (\<lambda>c. c\<lparr>readWriteableCnt := (readWriteableCnt c)(OS_QUEUE_WRITE := readWriteableCnt c OS_QUEUE_WRITE - 1)\<rparr>) q"
    obtain z1 q1 where b: "OsQueueBufferOperate (unat hq) 3 slot 12 ?q = (z1, q1)" by force
    from BufferOperate_counts [OF b, of "unat hq"] show ?thesis
      using o False b by (auto simp: OsQueueOperate_def queue_transfer_def hi ck rw cw_def Let_def split: prod.splits list.splits)
  qed
  then show "r = Some LOS_OK \<longleftrightarrow> cw q \<noteq> 0" "cw q' = (if cw q = 0 then 0 else cw q - 1)" by blast+
qed

text \<open>One expiry: its item is sent if there is a free node, which it takes.\<close>

lemma expire_sends:
  assumes g: "tmr_good slot k ((w, q), s)" and z: "size_ok ((w, q), s)"
    and e: "swtmr_expire slot now i ((w, q), s) = ((w', q'), s')"
  shows "size_ok ((w', q'), s')" and "room ((w', q'), s') = room ((w, q), s) - 1"
    and "if room ((w, q), s) = 0 then hmsgs k ((w', q'), s') = hmsgs k ((w, q), s)
      else \<exists>nb. hmsgs k ((w', q'), s') = hmsgs k ((w, q), s) @ [nb] \<and> item_of nb = item (swt_cb w i)"
proof -
  let ?hq = "g_swtmrHandlerQueue w" and ?t = "sl_time (swtSort s) i"
  define c where "c = (swt_cb w i)\<lparr>swtStart := ?t\<rparr>"
  let ?s1 = "s\<lparr>swtSort := OsDeleteNodeSortLink i (swtSort s)\<rparr>" and ?q1 = "q\<lparr>qmem := store_item slot c (qmem q)\<rparr>"
  have ic: "item c = item (swt_cb w i)" by (simp add: c_def)
  obtain r q2 s2 where w2: "LOS_QueueWriteCopy ?hq slot 12 LOS_NO_WAIT (?q1, ?s1) = (r, (q2, s2))" "same_geo q q2"
    "if r = Some LOS_OK
      then \<exists>nb. hmsgs k ((w, q2), s2) = hmsgs k ((w, q), s) @ [nb] \<and> item_of nb = item (swt_cb w i) \<and> msg_len nb = 12
      else hmsgs k ((w, q2), s2) = hmsgs k ((w, q), s)"
    by (rule expire_send [OF g ic]) blast
  have q1: "same_geo q ?q1" by (simp add: same_geo_def)
  have h: "?hq < OS_ALL_IPC_QUEUE_LIMIT ?q1" "used ?q1 (unat ?hq)" "queueSize (g_allQueue ?q1 (unat ?hq)) = 16" "slot \<noteq> 0"
    using g z same_geo_used [OF q1] by (simp_all add: tmr_good_def size_ok_def slot_ok_def)
  note wr = write_room [OF h w2(1)]
  have q': "q' = q2" "g_swtmrHandlerQueue w' = ?hq" "lst s' = lst s2" "\<And>t. status s' t = status s2 t"
    using e w2(1) by (auto simp: swtmr_expire_def OsSwtmrTimeoutHandle_def OsSwtmrStart_def Let_def c_def split: if_splits)
  have ms: "hmsgs k ((w', q'), s') = hmsgs k ((w, q2), s2)"
    using q' by (simp add: msgs_def cnt_def granted_def live_def)
  show "size_ok ((w', q'), s')" using z w2(2) by (simp add: size_ok_def q' same_geo_def)
  have "unat (if x = 0 then 0 else x - 1) = unat x - 1" for x :: u16 by (simp add: unat_minus_one)
  from this [of "readWriteableCnt (g_allQueue q (unat ?hq)) OS_QUEUE_WRITE"]
  show "room ((w', q'), s') = room ((w, q), s) - 1" using wr(2) by (simp add: room_def q' split: if_splits)
  show "if room ((w, q), s) = 0 then hmsgs k ((w', q'), s') = hmsgs k ((w, q), s)
      else \<exists>nb. hmsgs k ((w', q'), s') = hmsgs k ((w, q), s) @ [nb] \<and> item_of nb = item (swt_cb w i)"
    using w2(3) wr(1) unfolding ms by (auto simp: room_def unat_eq_0)
qed

text \<open>
  \<open>es\<close> are the expiries of a scan, each with its timer and its time: of every timer the ones it has until
  it is not due any more, and all of them in the order of the times.
\<close>

definition expiries :: "swtst \<Rightarrow> (nat \<times> u64) list \<Rightarrow> swtst \<Rightarrow> bool" where
  "expiries = (\<lambda>((w, q), s) es ((w', q'), s'). sorted (map snd es) \<and>
     (\<forall>j. \<exists>n. filter (\<lambda>e. fst e = j) es = map (\<lambda>m. (j, the (snd ((expire s ^^ m) (tview w (swtSort s) j))))) [0..<n] \<and>
        (\<forall>m < n. due (sysCycle s) ((expire s ^^ m) (tview w (swtSort s) j))) \<and>
        tview w' (swtSort s') j = (expire s ^^ n) (tview w (swtSort s) j) \<and>
        \<not> due (sysCycle s) (tview w' (swtSort s') j)))"

lemma expiries_stop: "(\<And>j. \<not> due (sysCycle s) (tview w (swtSort s) j)) \<Longrightarrow> expiries ((w, q), s) [] ((w, q), s)"
  unfolding expiries_def prod.case by (simp add: exI [of _ 0])

lemma expiries_step:
  assumes mem: "i \<in> set (sl_nodes (swtSort s))" and i: "sl_time (swtSort s) i \<le> sysCycle s"
    and e: "conf s' = conf s" "g_sysClock s' = g_sysClock s" "sysCycle s' = sysCycle s"
      "\<And>j. tview w' (swtSort s') j = (if j = i then expire s (tview w (swtSort s) i) else tview w (swtSort s) j)"
    and r: "expiries ((w', q'), s') es st'" and low: "\<forall>x \<in> set es. sl_time (swtSort s) i \<le> snd x"
  shows "expiries ((w, q), s) ((i, sl_time (swtSort s) i) # es) st'"
proof -
  obtain w2 q2 s2 where st': "st' = ((w2, q2), s2)" by (metis prod.exhaust)
  let ?v = "\<lambda>j. tview w (swtSort s) j" and ?v2 = "\<lambda>j. tview w2 (swtSort s2) j"
  have ex: "expire s' = expire s" by (rule expire_cong [OF e(1,2)])
  have R: "\<exists>n. filter (\<lambda>e. fst e = j) es = map (\<lambda>m. (j, the (snd ((expire s ^^ m) (tview w' (swtSort s') j))))) [0..<n] \<and>
        (\<forall>m < n. due (sysCycle s) ((expire s ^^ m) (tview w' (swtSort s') j))) \<and>
        ?v2 j = (expire s ^^ n) (tview w' (swtSort s') j) \<and> \<not> due (sysCycle s) (?v2 j)" for j
    using r by (auto simp: expiries_def st' ex e(3))
  have "\<exists>n. filter (\<lambda>e. fst e = j) ((i, sl_time (swtSort s) i) # es) = map (\<lambda>m. (j, the (snd ((expire s ^^ m) (?v j))))) [0..<n] \<and>
        (\<forall>m < n. due (sysCycle s) ((expire s ^^ m) (?v j))) \<and> ?v2 j = (expire s ^^ n) (?v j) \<and> \<not> due (sysCycle s) (?v2 j)" for j
  proof (cases "j = i")
    case False
    then show ?thesis using R [of j] e(4) [of j] by simp
  next
    case True
    obtain n where n: "filter (\<lambda>e. fst e = i) es = map (\<lambda>m. (i, the (snd ((expire s ^^ m) (expire s (?v i)))))) [0..<n]"
        "\<forall>m < n. due (sysCycle s) ((expire s ^^ m) (expire s (?v i)))"
        "?v2 i = (expire s ^^ n) (expire s (?v i))" "\<not> due (sysCycle s) (?v2 i)"
      using R [of i] e(4) [of i] by auto
    have t: "snd (?v i) = Some (sl_time (swtSort s) i)" using mem by (simp add: tview_snd)
    have d: "due (sysCycle s) (?v i)" using t i by (simp add: due_def)
    have u: "[0..<Suc n] = 0 # map Suc [0..<n]" by (metis map_Suc_upt upt_conv_Cons zero_less_Suc)
    show ?thesis unfolding True
    proof (intro exI [of _ "Suc n"] conjI)
      show "filter (\<lambda>e. fst e = i) ((i, sl_time (swtSort s) i) # es) = map (\<lambda>m. (i, the (snd ((expire s ^^ m) (?v i))))) [0..<Suc n]"
        unfolding u using n(1) t by (simp add: funpow_swap1 o_def)
      show "\<forall>m < Suc n. due (sysCycle s) ((expire s ^^ m) (?v i))"
        using d n(2) by (auto simp: less_Suc_eq_0_disj funpow_swap1)
      show "?v2 i = (expire s ^^ Suc n) (?v i)" using n(3) by (simp add: funpow_swap1)
    qed (rule n(4))
  qed
  moreover have "sorted (map snd ((i, sl_time (swtSort s) i) # es))" using r low by (auto simp: expiries_def st')
  ultimately show ?thesis unfolding expiries_def st' prod.case by blast
qed

lemma expire_times:
  assumes g: "tmr_good slot k ((w, q), s)" and i: "sl_nodes (swtSort s) = i # r" "sl_time (swtSort s) i \<le> sysCycle s"
    and e: "\<And>j. tview w' (swtSort s') j = (if j = i then expire s (tview w (swtSort s) i) else tview w (swtSort s) j)"
    and j: "j \<in> set (sl_nodes (swtSort s'))"
  shows "sl_time (swtSort s) i \<le> sl_time (swtSort s') j"
proof (cases "j = i")
  case False
  then have "snd (tview w (swtSort s) j) = Some (sl_time (swtSort s') j)" using e [of j] j by (metis tview_snd)
  then have "j \<in> set r" "sl_time (swtSort s) j = sl_time (swtSort s') j" using i(1) False by (auto simp: tview_snd split: if_splits)
  then show ?thesis using g i(1) by (auto simp: tmr_good_def swt_inv_def sl_wf_def sl_sorted_def)
next
  case True
  have mem: "i \<in> set (sl_nodes (swtSort s))" using i by simp
  have "Some (sl_time (swtSort s') i) = snd (tview w' (swtSort s') i)" using j by (simp add: tview_snd True)
  also have "\<dots> = snd (expire s (swt_cb w i, Some (sl_time (swtSort s) i)))" unfolding e using mem by (simp add: tview_def)
  finally have t: "sl_time (swtSort s') i = sl_time (swtSort s) i + period s (uwInterval (swt_cb w i))" by (simp split: if_splits)
  have c: "swt_clock s" "unat (sl_time (swtSort s) i) < 2 ^ 63"
    using g i by (auto simp: tmr_good_def swt_clock_def clock_ok_def word_le_nat_alt)
  show ?thesis unfolding True t using period_props(1) [OF c] by (simp add: word_le_nat_alt)
qed

lemma scan_loop_sends:
  assumes "tmr_good slot k st" and "size_ok st"
  shows "\<exists>st' es xs. swtmr_scan_loop slot (sysCycle (snd st)) b st = Some (b \<or> es \<noteq> [], st') \<and> expiries st es st' \<and>
    (\<forall>t. (\<forall>i \<in> set (sl_nodes (swtSort (snd st))). t \<le> sl_time (swtSort (snd st)) i) \<longrightarrow> (\<forall>x \<in> set es. t \<le> snd x)) \<and>
    hmsgs k st' = hmsgs k st @ xs \<and>
    map item_of xs = take (room st) (map (\<lambda>x. item (swt_cb (fst (fst st)) (fst x))) es)"
  using assms
proof (induction "overdue (sysCycle (snd st)) (swtSort (snd st))" arbitrary: st b rule: less_induct)
  case less
  obtain w q s where st: "st = ((w, q), s)" by (metis prod.exhaust)
  note g = less.prems(1) [unfolded st] and z = less.prems(2) [unfolded st]
  have wf: "sl_wf (swtSort s)" using g by (simp add: tmr_good_def swt_inv_def)
  show ?case
  proof (cases "\<exists>i is. sl_nodes (swtSort s) = i # is \<and> sl_time (swtSort s) i \<le> sysCycle s")
    case False
    then have "\<not> due (sysCycle s) (tview w (swtSort s) j)" for j
      using wf by (cases "sl_nodes (swtSort s)") (auto simp: due_def tview_def sl_wf_def sl_sorted_def)
    then have "expiries st [] st" unfolding st by (rule expiries_stop)
    moreover have "swtmr_scan_loop slot (sysCycle (snd st)) b st = Some (b, st)"
      using False by (subst swtmr_scan_loop.simps) (auto simp: st split: list.splits)
    ultimately show ?thesis by (intro exI [of _ st] exI [of _ "[]"]) simp
  next
    case True
    then obtain i r where i: "sl_nodes (swtSort s) = i # r" "sl_time (swtSort s) i \<le> sysCycle s" by blast
    then have mem: "i \<in> set (sl_nodes (swtSort s))" by simp
    obtain w' q' s' where e: "swtmr_expire slot (sysCycle s) i ((w, q), s) = ((w', q'), s')" "tmr_good slot k ((w', q'), s')"
      "conf s' = conf s" "g_sysClock s' = g_sysClock s" "sysCycle s' = sysCycle s"
      "\<And>j. tview w' (swtSort s') j = (if j = i then expire s (tview w (swtSort s) i) else tview w (swtSort s) j)"
      by (rule expire_ok [OF g mem i(2)]) blast
    note sd = expire_sends [OF g z e(1)]
    have "overdue (sysCycle s') (swtSort s') < overdue (sysCycle s) (swtSort s)"
      unfolding e(5) by (rule expire_overdue [OF g mem i(2) e(6)])
    then obtain st' es xs where r: "swtmr_scan_loop slot (sysCycle s') True ((w', q'), s') = Some (True, st')"
      "expiries ((w', q'), s') es st'"
      "\<forall>t. (\<forall>i \<in> set (sl_nodes (swtSort s')). t \<le> sl_time (swtSort s') i) \<longrightarrow> (\<forall>x \<in> set es. t \<le> snd x)"
      "hmsgs k st' = hmsgs k ((w', q'), s') @ xs"
      "map item_of xs = take (room ((w', q'), s')) (map (\<lambda>x. item (swt_cb w' (fst x))) es)"
      using less.hyps [of "((w', q'), s')" True] e(2) sd(1) by (auto simp: st)
    let ?t = "sl_time (swtSort s) i" and ?es = "(i, sl_time (swtSort s) i) # es"
    have low: "\<forall>x \<in> set es. ?t \<le> snd x" using r(3) expire_times [OF g i e(6)] by blast
    have it: "item (swt_cb w' j) = item (swt_cb w j)" for j
      using arg_cong [OF e(6) [of j], of fst] by (cases "tview w (swtSort s) i") (auto simp: tview_def split: if_splits)
    have l: "swtmr_scan_loop slot (sysCycle s) b st = Some (True, st')"
      using r(1) e(1,5) i by (subst swtmr_scan_loop.simps) (simp add: st)
    have E: "expiries st ?es st'" unfolding st by (rule expiries_step [OF mem i(2) e(3-6) r(2) low])
    have lo: "\<forall>x \<in> set ?es. t \<le> snd x" if "\<forall>i \<in> set (sl_nodes (swtSort s)). t \<le> sl_time (swtSort s) i" for t
      using that mem low by force
    obtain ys where y: "hmsgs k ((w', q'), s') = hmsgs k ((w, q), s) @ ys" "map item_of ys = take (room ((w, q), s)) [item (swt_cb w i)]"
      using sd(3) that [of "[]"] by (auto split: if_splits simp: take_Cons')
    have "map item_of (ys @ xs) = take (room st) (map (\<lambda>x. item (swt_cb w (fst x))) ?es)"
      using r(5) y(2) sd(2) by (auto simp: it st take_Cons')
    then show ?thesis
      using l E lo r(4) y(1) unfolding st by (intro exI [of _ st'] exI [of _ ?es] exI [of _ "ys @ xs"]) simp
  qed
qed

end
