(* ===== verification/Swtmr_Props.thy ===== *)
theory Swtmr_Props
  imports Swtmr_Scan
begin

text \<open>
  The software timers as a whole: the operations of the interface keep the invariant, the histories
  of a system with a timer task, and the properties.
\<close>

section \<open>The operations of the interface\<close>

lemma hist_goodD:
  assumes "hist_good slot buf k hand ((w, q), s)"
  shows "tmr_good slot k ((w, q), s)" "swt_inv w (swtSort s)" "swt_clock s"
    "pend_ok w (swtSort s) (item_of ` set (hmsgs k ((w, q), s)) \<union> set_option hand)"
  using assms by (simp_all add: hist_good_def tmr_good_def)

definition pending :: "(tptr \<Rightarrow> qcont option) \<Rightarrow> titem option \<Rightarrow> swtst \<Rightarrow> u32 set" where
  "pending k hand st = (snd \<circ> snd) ` (item_of ` set (hmsgs k st) \<union> set_option hand)"

text \<open>An operation that changes the control blocks and the sort link only.\<close>

lemma hist_good_timers:
  assumes g: "hist_good slot buf k hand ((w, q), s)"
    and s': "lst s' = lst s" "\<And>t. status s' t = status s t" "sched_inv s' = sched_inv s" "swt_clock s' = swt_clock s"
    and w': "swt_inv w' (swtSort s')" "g_swtmrHandlerQueue w' = g_swtmrHandlerQueue w"
    and p: "pend_ok w' (swtSort s') (item_of ` set (hmsgs k ((w, q), s)) \<union> set_option hand)"
  shows "hist_good slot buf k hand ((w', q), s')"
  using g w' p que_inv_cong [OF s'(1-3), of None q k] calm_cong [OF s'(1,2), of k] s'(4)
  by (simp add: hist_good_def tmr_good_def)

text \<open>Starting and stopping one timer.\<close>

lemma OsSwtmrStart_good:
  assumes g: "hist_good slot buf k hand ((w, q), s)" and i: "i < swt_limit w" and un: "i \<notin> set (sl_nodes (swtSort s))"
    and st: "ucState (swt_cb w i) \<noteq> OS_SWTMR_STATUS_UNUSED" and c: "c = (swt_cb w i)\<lparr>swtStart := t\<rparr>" "unat t < 2 ^ 63"
    and once: "ucMode (swt_cb w i) = LOS_SWTMR_MODE_ONCE \<Longrightarrow>
      usTimerID (swt_cb w i) \<notin> pending k hand ((w, q), s)"
  obtains s' where "OsSwtmrStart now i ((mod_swt i (\<lambda>_. c) w, q), s) =
      ((mod_swt i (\<lambda>_. c\<lparr>ucState := OS_SWTMR_STATUS_TICKING\<rparr>) w, q), s')"
    and "hist_good slot buf k hand ((mod_swt i (\<lambda>_. c\<lparr>ucState := OS_SWTMR_STATUS_TICKING\<rparr>) w, q), s')"
    and "i \<in> set (sl_nodes (swtSort s'))" and "sl_time (swtSort s') i = t + period s (uwInterval (swt_cb w i))"
    and "\<And>j. j \<noteq> i \<Longrightarrow> tview (mod_swt i (\<lambda>_. c\<lparr>ucState := OS_SWTMR_STATUS_TICKING\<rparr>) w) (swtSort s') j = tview w (swtSort s) j"
proof -
  note D = hist_goodD [OF g]
  let ?c = "c\<lparr>ucState := OS_SWTMR_STATUS_TICKING\<rparr>"
  let ?w = "mod_swt i (\<lambda>_. ?c) w"
  let ?sl = "OsAdd2SortLink (TICK_PER_SECOND (conf s)) (g_sysClock s) i t (uwInterval (swt_cb w i)) (swtSort s)"
  let ?s = "OsSchedUpdateExpireTime (s\<lparr>swtSort := ?sl\<rparr>)"
  have wf: "sl_wf (swtSort s)" by (rule swt_invD(2) [OF D(2)])
  note p = period_props [OF D(3) c(2), of "uwInterval (swt_cb w i)"]
  have sl: "sl_wf ?sl" by (rule sl_wf_add2 [OF wf un p(2)])
  have eq: "set (sl_nodes ?sl) = insert i (set (sl_nodes (swtSort s)))"
    "sl_time ?sl = (sl_time (swtSort s))(i := t + period s (uwInterval (swt_cb w i)))"
    by (simp_all add: OsAdd2SortLink_eq [OF wf un])
  have e: "OsSwtmrStart now i ((mod_swt i (\<lambda>_. c) w, q), s) = ((?w, q), ?s)"
    by (simp add: OsSwtmrStart_def Let_def mod_swt_twice c(1))
  have ok: "tmr_ok (swt_cb w i) False (sl_time (swtSort s) i = OS_SORT_LINK_INVALID_TIME)"
    using swt_invD(4) [OF D(2) i] un by simp
  have inv: "swt_inv ?w ?sl"
    by (rule swt_inv_update [OF D(2) i _ _ _ sl]) (use st ok in \<open>simp_all add: eq c(1) tmr_ok_def\<close>)
  have pend: "pend_ok ?w ?sl (item_of ` set (hmsgs k ((w, q), s)) \<union> set_option hand)"
  proof (rule pend_okI)
    fix h a n
    assume m: "(h, a, n) \<in> item_of ` set (hmsgs k ((w, q), s)) \<union> set_option hand"
      and id: "usTimerID (swt_cb ?w (OS_SWT_FROM_SID n ?w)) = n"
    let ?j = "OS_SWT_FROM_SID n w"
    have id': "usTimerID (swt_cb w ?j) = n" using id by (simp add: c(1) split: if_splits)
    note P = pend_okD [OF D(4) m id']
    have "n \<in> pending k hand ((w, q), s)" unfolding pending_def by (rule image_eqI [OF _ m]) simp
    then have "ucMode (swt_cb w i) \<noteq> LOS_SWTMR_MODE_ONCE" if "?j = i" using once id' that by auto
    then show "ucState (swt_cb ?w (OS_SWT_FROM_SID n ?w)) \<noteq> OS_SWTMR_STATUS_UNUSED \<and>
       h = pfnHandler (swt_cb ?w (OS_SWT_FROM_SID n ?w)) \<and> a = swtArg (swt_cb ?w (OS_SWT_FROM_SID n ?w)) \<and>
       (ucMode (swt_cb ?w (OS_SWT_FROM_SID n ?w)) = LOS_SWTMR_MODE_ONCE \<longrightarrow> OS_SWT_FROM_SID n ?w \<notin> set (sl_nodes ?sl))"
      using P by (simp add: eq c(1))
  qed
  show thesis
  proof (rule that [OF e])
    show "hist_good slot buf k hand ((?w, q), ?s)"
      by (rule hist_good_timers [OF g]) (use inv pend in \<open>simp_all add: swt_clock_def clock_ok_def\<close>)
  qed (use eq in \<open>simp_all add: tview_def\<close>)
qed

lemma OsSwtmrStop_good:
  assumes g: "hist_good slot buf k hand ((w, q), s)" and i: "i < swt_limit w"
    and st: "ucState (swt_cb w i) \<noteq> OS_SWTMR_STATUS_UNUSED"
  obtains s' where "OsSwtmrStop i ((w, q), s) =
      ((mod_swt i (\<lambda>c. c\<lparr>ucState := OS_SWTMR_STATUS_CREATED, ucOverrun := 0\<rparr>) w, q), s')"
    and "hist_good slot buf k hand ((mod_swt i (\<lambda>c. c\<lparr>ucState := OS_SWTMR_STATUS_CREATED, ucOverrun := 0\<rparr>) w, q), s')"
    and "i \<notin> set (sl_nodes (swtSort s'))" and "sysCycle s' = sysCycle s" and "period s' = period s"
    and "\<And>j. j \<noteq> i \<Longrightarrow> tview (mod_swt i (\<lambda>c. c\<lparr>ucState := OS_SWTMR_STATUS_CREATED, ucOverrun := 0\<rparr>) w) (swtSort s') j = tview w (swtSort s) j"
    and "msgs None (q, s', k) = msgs None (q, s, k)"
proof -
  note D = hist_goodD [OF g]
  let ?c = "(swt_cb w i)\<lparr>ucState := OS_SWTMR_STATUS_CREATED, ucOverrun := 0\<rparr>"
  let ?w = "mod_swt i (\<lambda>c. c\<lparr>ucState := OS_SWTMR_STATUS_CREATED, ucOverrun := 0\<rparr>) w"
  have w: "?w = mod_swt i (\<lambda>_. ?c) w" by (rule mod_swt_const)
  let ?s1 = "delete_swt_link i s"
  have wf: "sl_wf (swtSort s)" by (rule swt_invD(2) [OF D(2)])
  have ok: "tmr_ok (swt_cb w i) (i \<in> set (sl_nodes (swtSort s))) (sl_time (swtSort s) i = OS_SORT_LINK_INVALID_TIME)"
    using swt_invD(4) [OF D(2) i] .
  have fr: "lst ?s1 = lst s" "tcb ?s1 = tcb s" "sched_inv ?s1 = sched_inv s" "conf ?s1 = conf s" "g_sysClock ?s1 = g_sysClock s"
    "sysCycle ?s1 = sysCycle s"
    by (simp_all add: delete_swt_link_def Let_def OsSchedResetSchedResponseTime_def)
  have sl: "sl_wf (swtSort ?s1) \<and> i \<notin> set (sl_nodes (swtSort ?s1)) \<and> sl_time (swtSort ?s1) i = OS_SORT_LINK_INVALID_TIME \<and>
    (\<forall>j. j \<noteq> i \<longrightarrow> (j \<in> set (sl_nodes (swtSort ?s1)) \<longleftrightarrow> j \<in> set (sl_nodes (swtSort s))) \<and>
      sl_time (swtSort ?s1) j = sl_time (swtSort s) j)"
  proof (cases "i \<in> set (sl_nodes (swtSort s))")
    case True
    then have "sl_time (swtSort s) i \<noteq> OS_SORT_LINK_INVALID_TIME" using wf by (simp add: sl_wf_def)
    then have "swtSort ?s1 = OsDeleteNodeSortLink i (swtSort s)"
      by (simp add: delete_swt_link_def Let_def OsSchedResetSchedResponseTime_def)
    then show ?thesis using sl_wf_delete [OF wf True] wf by (simp add: sl_wf_def)
  next
    case False
    then have "sl_time (swtSort s) i = OS_SORT_LINK_INVALID_TIME" using ok st by (simp add: tmr_ok_def)
    then show ?thesis using False wf by (simp add: delete_swt_link_def)
  qed
  let ?s = "OsSchedUpdateExpireTime ?s1"
  have e: "OsSwtmrStop i ((w, q), s) = ((?w, q), ?s)" by (simp add: OsSwtmrStop_def Let_def)
  have inv: "swt_inv ?w (swtSort ?s1)"
    unfolding w by (rule swt_inv_update [OF D(2) i]) (use sl st ok in \<open>simp_all add: tmr_ok_def\<close>)
  have pend: "pend_ok ?w (swtSort ?s1) (item_of ` set (hmsgs k ((w, q), s)) \<union> set_option hand)"
  proof (rule pend_okI)
    fix h a n
    assume m: "(h, a, n) \<in> item_of ` set (hmsgs k ((w, q), s)) \<union> set_option hand"
      and id: "usTimerID (swt_cb ?w (OS_SWT_FROM_SID n ?w)) = n"
    then have id': "usTimerID (swt_cb w (OS_SWT_FROM_SID n w)) = n" by (simp split: if_splits)
    show "ucState (swt_cb ?w (OS_SWT_FROM_SID n ?w)) \<noteq> OS_SWTMR_STATUS_UNUSED \<and>
       h = pfnHandler (swt_cb ?w (OS_SWT_FROM_SID n ?w)) \<and> a = swtArg (swt_cb ?w (OS_SWT_FROM_SID n ?w)) \<and>
       (ucMode (swt_cb ?w (OS_SWT_FROM_SID n ?w)) = LOS_SWTMR_MODE_ONCE \<longrightarrow> OS_SWT_FROM_SID n ?w \<notin> set (sl_nodes (swtSort ?s1)))"
      using pend_okD [OF D(4) m id'] sl by (cases "OS_SWT_FROM_SID n w = i") simp_all
  qed
  have cg: "msgs None (q, ?s, k) j = msgs None (q, s, k) j" for j by (rule que_inv_cong) (simp_all add: fr)
  show thesis
  proof (rule that [OF e])
    show "hist_good slot buf k hand ((?w, q), ?s)"
      by (rule hist_good_timers [OF g]) (use inv pend fr in \<open>simp_all add: swt_clock_def clock_ok_def\<close>)
    show "msgs None (q, ?s, k) = msgs None (q, s, k)" using cg by (simp add: fun_eq_iff)
  qed (use sl fr in \<open>simp_all add: tview_def fun_eq_iff\<close>)
qed

lemma from_sid_less: "0 < SWTMR_LIMIT w \<Longrightarrow> OS_SWT_FROM_SID n w < swt_limit w"
  by (simp add: OS_SWT_FROM_SID_def unat_mod word_less_nat_alt)

lemma LOS_SwtmrCreate_good:
  assumes g: "hist_good slot buf k hand ((w, q), s)"
    and r: "LOS_SwtmrCreate interval mode handler notNull para ((w, q), s) = (r, st')"
  shows "hist_good slot buf k hand st'"
proof (cases "fst r = LOS_OK \<and> g_swtmrFreeList w \<noteq> None")
  case False
  then have "st' = ((w, q), s)"
    using r by (auto simp: LOS_SwtmrCreate_def Let_def errno_defs split: if_splits option.splits)
  then show ?thesis using g by simp
next
  case True
  then obtain i where f: "g_swtmrFreeList w = Some i" by blast
  note D = hist_goodD [OF g]
  let ?c = "(swt_cb w i)\<lparr>pfnHandler := handler, ucMode := mode, uwInterval := interval, swtNext := None, swtArg := para,
     ucState := OS_SWTMR_STATUS_CREATED, ucOverrun := 0\<rparr>"
  let ?w1 = "w\<lparr>g_swtmrFreeList := swtNext (swt_cb w i)\<rparr>"
  let ?w = "mod_swt i (\<lambda>_. ?c) ?w1"
  let ?s = "s\<lparr>swtSort := SET_SORTLIST_VALUE i OS_SORT_LINK_INVALID_TIME (swtSort s)\<rparr>"
  have p: "interval \<noteq> 0" "handler \<noteq> 0" "mode \<in> {LOS_SWTMR_MODE_ONCE, LOS_SWTMR_MODE_PERIOD, LOS_SWTMR_MODE_NO_SELFDELETE}"
    using r True by (auto simp: LOS_SwtmrCreate_def errno_defs split: if_splits)
  have st': "st' = ((?w, q), ?s)"
    using r True f mod_swt_const [of i _ ?w1] by (auto simp: LOS_SwtmrCreate_def Let_def errno_defs split: if_splits)
  have ok: "tmr_ok ?c False True" using p by (simp add: tmr_ok_def)
  note T = swt_inv_take [OF D(2) f _ ok]
  have pend: "pend_ok ?w (swtSort ?s) (item_of ` set (hmsgs k ((w, q), s)) \<union> set_option hand)"
  proof (rule pend_okI)
    fix h a n
    assume m: "(h, a, n) \<in> item_of ` set (hmsgs k ((w, q), s)) \<union> set_option hand"
      and id: "usTimerID (swt_cb ?w (OS_SWT_FROM_SID n ?w)) = n"
    have lim: "OS_SWT_FROM_SID n ?w = OS_SWT_FROM_SID n w" by (simp add: OS_SWT_FROM_SID_def)
    have id': "usTimerID (swt_cb w (OS_SWT_FROM_SID n w)) = n" using id unfolding lim by (simp split: if_splits)
    note P = pend_okD [OF D(4) m id']
    have "OS_SWT_FROM_SID n w \<noteq> i" using P(1) T(2) by auto
    then show "ucState (swt_cb ?w (OS_SWT_FROM_SID n ?w)) \<noteq> OS_SWTMR_STATUS_UNUSED \<and>
       h = pfnHandler (swt_cb ?w (OS_SWT_FROM_SID n ?w)) \<and> a = swtArg (swt_cb ?w (OS_SWT_FROM_SID n ?w)) \<and>
       (ucMode (swt_cb ?w (OS_SWT_FROM_SID n ?w)) = LOS_SWTMR_MODE_ONCE \<longrightarrow> OS_SWT_FROM_SID n ?w \<notin> set (sl_nodes (swtSort ?s)))"
      unfolding lim using P by (simp add: SET_SORTLIST_VALUE_def)
  qed
  have "swt_inv ?w (swtSort ?s)" using T(4) by simp
  then show ?thesis
    unfolding st' by (intro hist_good_timers [OF g]) (use pend in \<open>simp_all add: swt_clock_def clock_ok_def\<close>)
qed

lemma swtmr_begin_good:
  assumes g: "hist_good slot buf k hand ((w, q), s)" and i: "i < swt_limit w" and un: "i \<notin> set (sl_nodes (swtSort s))"
    and st: "ucState (swt_cb w i) \<noteq> OS_SWTMR_STATUS_UNUSED"
    and once: "usTimerID (swt_cb w i) \<in> pending k hand ((w, q), s) \<Longrightarrow> ucMode (swt_cb w i) \<noteq> LOS_SWTMR_MODE_ONCE"
  defines "st' \<equiv> OsSwtmrStart (sysCycle s) i ((mod_swt i (\<lambda>c. c\<lparr>swtStart := sysCycle s\<rparr>) w, q), s)"
  shows "hist_good slot buf k hand st'"
    and "snd (tview (fst (fst st')) (swtSort (snd st')) i) = Some (sysCycle s + period s (uwInterval (swt_cb w i)))"
proof -
  let ?c = "(swt_cb w i)\<lparr>swtStart := sysCycle s\<rparr>"
  have m: "mod_swt i (\<lambda>c. c\<lparr>swtStart := sysCycle s\<rparr>) w = mod_swt i (\<lambda>_. ?c) w" by (rule mod_swt_const)
  have now: "unat (sysCycle s) < 2 ^ 63" using hist_goodD(3) [OF g] by (simp add: swt_clock_def clock_ok_def)
  have on: "usTimerID (swt_cb w i) \<notin> pending k hand ((w, q), s)" if "ucMode (swt_cb w i) = LOS_SWTMR_MODE_ONCE"
    using once that by blast
  obtain s' where x: "OsSwtmrStart (sysCycle s) i ((mod_swt i (\<lambda>_. ?c) w, q), s) =
      ((mod_swt i (\<lambda>_. ?c\<lparr>ucState := OS_SWTMR_STATUS_TICKING\<rparr>) w, q), s')"
    "hist_good slot buf k hand ((mod_swt i (\<lambda>_. ?c\<lparr>ucState := OS_SWTMR_STATUS_TICKING\<rparr>) w, q), s')"
    "i \<in> set (sl_nodes (swtSort s'))" "sl_time (swtSort s') i = sysCycle s + period s (uwInterval (swt_cb w i))"
    by (rule OsSwtmrStart_good [OF g i un st refl now on]) blast+
  then show "hist_good slot buf k hand st'"
    "snd (tview (fst (fst st')) (swtSort (snd st')) i) = Some (sysCycle s + period s (uwInterval (swt_cb w i)))"
    unfolding st'_def m x(1) by (simp_all add: tview_snd)
qed

lemma LOS_SwtmrStart_good:
  assumes g: "hist_good slot buf k hand ((w, q), s)"
    and once: "n \<in> pending k hand ((w, q), s) \<Longrightarrow> ucMode (swt_cb w (OS_SWT_FROM_SID n w)) \<noteq> LOS_SWTMR_MODE_ONCE"
    and r: "LOS_SwtmrStart n ((w, q), s) = (r, st')"
  shows "hist_good slot buf k hand st'"
    and "r = LOS_OK \<longleftrightarrow> n < OS_SWTMR_MAX_TIMERID w \<and> usTimerID (swt_cb w (OS_SWT_FROM_SID n w)) = n \<and>
      ucState (swt_cb w (OS_SWT_FROM_SID n w)) \<noteq> OS_SWTMR_STATUS_UNUSED"
    and "r = LOS_OK \<Longrightarrow> snd (tview (fst (fst st')) (swtSort (snd st')) (OS_SWT_FROM_SID n w)) =
      Some (sysCycle s + period s (uwInterval (swt_cb w (OS_SWT_FROM_SID n w))))"
proof -
  let ?i = "OS_SWT_FROM_SID n w" and ?now = "sysCycle s"
  note D = hist_goodD [OF g]
  have i: "?i < swt_limit w" by (rule from_sid_less [OF swt_invD(1) [OF D(2)]])
  have ok: "tmr_ok (swt_cb w ?i) (?i \<in> set (sl_nodes (swtSort s))) (sl_time (swtSort s) ?i = OS_SORT_LINK_INVALID_TIME)"
    by (rule swt_invD(4) [OF D(2) i])
  let ?valid = "n < OS_SWTMR_MAX_TIMERID w \<and> usTimerID (swt_cb w ?i) = n \<and> ucState (swt_cb w ?i) \<noteq> OS_SWTMR_STATUS_UNUSED"
  have "hist_good slot buf k hand st' \<and> (r = LOS_OK \<longleftrightarrow> ?valid) \<and> (r = LOS_OK \<longrightarrow>
      snd (tview (fst (fst st')) (swtSort (snd st')) ?i) = Some (?now + period s (uwInterval (swt_cb w ?i))))"
  proof (cases ?valid)
    case False
    then have "st' = ((w, q), s)" "r \<noteq> LOS_OK"
      using r by (auto simp: LOS_SwtmrStart_def Let_def errno_defs split: if_splits)
    then show ?thesis using g False by simp
  next
    case True
    then have st: "ucState (swt_cb w ?i) \<noteq> OS_SWTMR_STATUS_UNUSED" and nn: "\<not> OS_SWTMR_MAX_TIMERID w \<le> n"
      and id: "usTimerID (swt_cb w ?i) = n" by auto
    show ?thesis
    proof (cases "ucState (swt_cb w ?i) = OS_SWTMR_STATUS_TICKING")
      case tick: True
      show ?thesis
      proof (rule OsSwtmrStop_good [OF g i st])
        fix s1
        let ?w1 = "mod_swt ?i (\<lambda>c. c\<lparr>ucState := OS_SWTMR_STATUS_CREATED, ucOverrun := 0\<rparr>) w"
        assume x: "OsSwtmrStop ?i ((w, q), s) = ((?w1, q), s1)" "hist_good slot buf k hand ((?w1, q), s1)"
          "?i \<notin> set (sl_nodes (swtSort s1))" "sysCycle s1 = ?now" "period s1 = period s" "msgs None (q, s1, k) = msgs None (q, s, k)"
        have "r = LOS_OK" "st' = OsSwtmrStart ?now ?i ((mod_swt ?i (\<lambda>c. c\<lparr>swtStart := ?now\<rparr>) ?w1, q), s1)"
          using r nn id tick x(1,4) by (simp_all add: LOS_SwtmrStart_def Let_def)
        moreover have "pending k hand ((?w1, q), s1) = pending k hand ((w, q), s)" using x(6) by (simp add: pending_def)
        ultimately show ?thesis using swtmr_begin_good [OF x(2) _ x(3)] i True once x(4,5) id by (simp add: fun_eq_iff)
      qed
    next
      case False
      then have cr: "ucState (swt_cb w ?i) = OS_SWTMR_STATUS_CREATED" "?i \<notin> set (sl_nodes (swtSort s))"
        using ok st by (auto simp: tmr_ok_def)
      have "r = LOS_OK" "st' = OsSwtmrStart ?now ?i ((mod_swt ?i (\<lambda>c. c\<lparr>swtStart := ?now\<rparr>) w, q), s)"
        using r nn id cr(1) by (simp_all add: LOS_SwtmrStart_def Let_def)
      then show ?thesis using swtmr_begin_good [OF g i cr(2) st] once True by simp
    qed
  qed
  then show "hist_good slot buf k hand st'" "r = LOS_OK \<longleftrightarrow> ?valid"
    "r = LOS_OK \<Longrightarrow> snd (tview (fst (fst st')) (swtSort (snd st')) ?i) = Some (?now + period s (uwInterval (swt_cb w ?i)))"
    by blast+
qed

lemma LOS_SwtmrStop_good:
  assumes g: "hist_good slot buf k hand ((w, q), s)" and r: "LOS_SwtmrStop n ((w, q), s) = (r, st')"
  shows "hist_good slot buf k hand st'"
proof -
  let ?i = "OS_SWT_FROM_SID n w"
  have i: "?i < swt_limit w" by (rule from_sid_less [OF swt_invD(1) [OF hist_goodD(2) [OF g]]])
  show ?thesis
  proof (cases "n < OS_SWTMR_MAX_TIMERID w \<and> usTimerID (swt_cb w ?i) = n \<and> ucState (swt_cb w ?i) = OS_SWTMR_STATUS_TICKING")
    case False
    then have "st' = ((w, q), s)" using r by (auto simp: LOS_SwtmrStop_def Let_def split: if_splits)
    then show ?thesis using g by simp
  next
    case True
    then have "st' = OsSwtmrStop ?i ((w, q), s)" using r by (auto simp: LOS_SwtmrStop_def Let_def split: if_splits)
    then show ?thesis by (rule ssubst) (rule OsSwtmrStop_good [OF g i], use True in auto)
  qed
qed

lemma OsSwtmrDelete_good:
  assumes g: "hist_good slot buf k hand ((w, q), s)" and i: "i < swt_limit w" and un: "i \<notin> set (sl_nodes (swtSort s))"
    and st: "ucState (swt_cb w i) \<noteq> OS_SWTMR_STATUS_UNUSED" and fresh: "next_id w (usTimerID (swt_cb w i)) \<notin> pending k hand ((w, q), s)"
  shows "hist_good slot buf k hand ((OsSwtmrDelete i w, q), s)"
proof -
  note D = hist_goodD [OF g]
  let ?w = "OsSwtmrDelete i w"
  have "pend_ok ?w (swtSort s) (item_of ` set (hmsgs k ((w, q), s)) \<union> set_option hand)"
  proof (rule pend_okI)
    fix h a n
    assume m: "(h, a, n) \<in> item_of ` set (hmsgs k ((w, q), s)) \<union> set_option hand"
      and id: "usTimerID (swt_cb ?w (OS_SWT_FROM_SID n ?w)) = n"
    have lim: "OS_SWT_FROM_SID n ?w = OS_SWT_FROM_SID n w" by (simp add: OsSwtmrDelete_eq OS_SWT_FROM_SID_def)
    have "n \<in> pending k hand ((w, q), s)" unfolding pending_def by (rule image_eqI [OF _ m]) simp
    then have j: "OS_SWT_FROM_SID n w \<noteq> i" using fresh id unfolding lim by (auto simp: OsSwtmrDelete_eq)
    then have "usTimerID (swt_cb w (OS_SWT_FROM_SID n w)) = n" using id unfolding lim by (simp add: OsSwtmrDelete_eq)
    then show "ucState (swt_cb ?w (OS_SWT_FROM_SID n ?w)) \<noteq> OS_SWTMR_STATUS_UNUSED \<and>
       h = pfnHandler (swt_cb ?w (OS_SWT_FROM_SID n ?w)) \<and> a = swtArg (swt_cb ?w (OS_SWT_FROM_SID n ?w)) \<and>
       (ucMode (swt_cb ?w (OS_SWT_FROM_SID n ?w)) = LOS_SWTMR_MODE_ONCE \<longrightarrow> OS_SWT_FROM_SID n ?w \<notin> set (sl_nodes (swtSort s)))"
      unfolding lim using pend_okD [OF D(4) m] j by (simp add: OsSwtmrDelete_eq)
  qed
  then show ?thesis
    by (intro hist_good_timers [OF g]) (use OsSwtmrDelete_inv [OF D(2) i un st] in \<open>simp_all add: OsSwtmrDelete_eq\<close>)
qed

lemma LOS_SwtmrDelete_good:
  assumes g: "hist_good slot buf k hand ((w, q), s)" and fresh: "next_id w n \<notin> pending k hand ((w, q), s)"
    and r: "LOS_SwtmrDelete n ((w, q), s) = (r, st')"
  shows "hist_good slot buf k hand st'"
proof -
  let ?i = "OS_SWT_FROM_SID n w"
  note D = hist_goodD [OF g]
  have i: "?i < swt_limit w" by (rule from_sid_less [OF swt_invD(1) [OF D(2)]])
  have ok: "tmr_ok (swt_cb w ?i) (?i \<in> set (sl_nodes (swtSort s))) (sl_time (swtSort s) ?i = OS_SORT_LINK_INVALID_TIME)"
    by (rule swt_invD(4) [OF D(2) i])
  show ?thesis
  proof (cases "n < OS_SWTMR_MAX_TIMERID w \<and> usTimerID (swt_cb w ?i) = n \<and> ucState (swt_cb w ?i) \<noteq> OS_SWTMR_STATUS_UNUSED")
    case False
    then have "st' = ((w, q), s)" using r by (auto simp: LOS_SwtmrDelete_def Let_def split: if_splits)
    then show ?thesis using g by simp
  next
    case True
    then have st: "ucState (swt_cb w ?i) \<noteq> OS_SWTMR_STATUS_UNUSED" and nn: "\<not> OS_SWTMR_MAX_TIMERID w \<le> n"
      and id: "usTimerID (swt_cb w ?i) = n" by auto
    show ?thesis
    proof (cases "ucState (swt_cb w ?i) = OS_SWTMR_STATUS_TICKING")
      case tick: True
      show ?thesis
      proof (rule OsSwtmrStop_good [OF g i st])
        fix s1
        let ?w1 = "mod_swt ?i (\<lambda>c. c\<lparr>ucState := OS_SWTMR_STATUS_CREATED, ucOverrun := 0\<rparr>) w"
        assume x: "OsSwtmrStop ?i ((w, q), s) = ((?w1, q), s1)" "hist_good slot buf k hand ((?w1, q), s1)"
          "?i \<notin> set (sl_nodes (swtSort s1))" "msgs None (q, s1, k) = msgs None (q, s, k)"
        have "st' = ((OsSwtmrDelete ?i ?w1, q), s1)"
          using r nn id tick x(1) by (simp add: LOS_SwtmrDelete_def Let_def)
        moreover have "pending k hand ((?w1, q), s1) = pending k hand ((w, q), s)" using x(4) by (simp add: pending_def)
        moreover have "next_id ?w1 n = next_id w n" by (simp add: next_id_def)
        ultimately show ?thesis using OsSwtmrDelete_good [OF x(2) _ x(3)] i fresh id by simp
      qed
    next
      case False
      then have cr: "ucState (swt_cb w ?i) = OS_SWTMR_STATUS_CREATED" "?i \<notin> set (sl_nodes (swtSort s))"
        using ok st by (auto simp: tmr_ok_def)
      then have "st' = ((OsSwtmrDelete ?i w, q), s)" using r nn id by (simp add: LOS_SwtmrDelete_def Let_def)
      then show ?thesis using OsSwtmrDelete_good [OF g i cr(2) st] fresh id by simp
    qed
  qed
qed

section \<open>The timer task\<close>

lemma calm_less: "calm s k \<Longrightarrow> calm s (k(t := None))"
  by (auto simp: calm_def live_def)

lemma operate_calm:
  assumes inv: "sched_inv s" and c: "calm s k" and o: "OsQueueOperate qid ty buf sz n (q, s) = ((r, z), (q', s'))"
    and b: "n \<noteq> LOS_NO_WAIT \<Longrightarrow> can_block s" and qid: "qid < OS_ALL_IPC_QUEUE_LIMIT q"
  shows "calm s' (if r = None then k(runTask s := Some \<lparr>kQue = unat qid, kType = ty, kBuf = buf, kSize = sz\<rparr>) else k)"
proof (cases "r = None")
  case False
  then show ?thesis
    using o c transfer_frame(2) [OF _ inv] by (auto simp: OsQueueOperate_def Let_def split: if_splits prod.splits)
next
  case True
  let ?h = "readWriteList (unat qid) (OS_QUEUE_READ_WRITE_GET ty)" and ?t = "runTask s"
  let ?e = "\<lparr>kQue = unat qid, kType = ty, kBuf = buf, kSize = sz\<rparr>"
  have n: "n \<noteq> LOS_NO_WAIT" and s': "s' = LOS_Schedule (OsSchedTaskWait ?h n s)"
    using o True handle_index(1) [OF qid] by (auto simp: OsQueueOperate_def Let_def split: if_splits prod.splits)
  have w: "ls_nodes (lst s') h = (if h = ?h then ls_nodes (lst s) ?h @ [?t] else ls_nodes (lst s) h)" if "is_wait h" for h
    using wq.wait_waiters [OF inv b [OF n] readWriteList_wait that] by (simp add: s')
  have "u \<in> set (que_wait s' (kQue e) (kSide e))"
    if l: "live s' (k(?t := Some ?e)) u e" "hasFlag (status s' u) OS_TASK_STATUS_PEND" for u e
  proof (cases "u = ?t")
    case True
    then show ?thesis using l(1) w [OF readWriteList_wait] by (auto simp: live_def)
  next
    case False
    then have "live s k u e" "hasFlag (status s u) OS_TASK_STATUS_PEND" using l by (simp_all add: live_def s' TaskWait_tcb)
    then have "u \<in> set (que_wait s (kQue e) (kSide e))" using c by (simp add: calm_def)
    then show ?thesis using w [OF readWriteList_wait] by (cases "readWriteList (kQue e) (kSide e) = ?h") auto
  qed
  then show ?thesis using True by (simp add: calm_def)
qed

text \<open>Taking a message off the handler queue moves its item into the hand of the timer task.\<close>

lemma take_item_good:
  assumes g: "hist_good slot buf k None ((w, q), s)"
    and res: "op_result (unat (g_swtmrHandlerQueue w)) 0 buf 12 (q, s, k) ok z (q', s', k')"
    and fr: "swt_same s s'" "same_geo q q'" "calm s' k'"
  shows "hist_good slot buf k' (if ok then Some (item_at (qmem q') buf) else None) ((w, q'), s')" and "ok \<Longrightarrow> z = 12"
proof -
  let ?hq = "unat (g_swtmrHandlerQueue w)"
  note D = hist_goodD [OF g]
  have G: "slot_ok slot q" "slot_ok buf q" "g_swtmrHandlerQueue w < OS_ALL_IPC_QUEUE_LIMIT q" "used q ?hq"
    "queueSize (g_allQueue q ?hq) = 16" "\<And>nb. nb \<in> set (msgs None (q, s, k) ?hq) \<Longrightarrow> msg_len nb = 12"
    using g by (simp_all add: hist_good_def tmr_good_def)
  have t: "OS_QUEUE_IS_READ 0" "\<not> OS_QUEUE_IS_POINT 0" by (simp_all add: OS_QUEUE_IS_READ_def OS_QUEUE_READ_WRITE_GET_def OS_QUEUE_IS_POINT_def)
  have len: "length nb = 16" if "nb \<in> set (msgs None (q, s, k) ?hq)" for nb
    using contents_length [of nb "g_allQueue q ?hq" "qmem q"] that G(5) by (simp add: msgs_def)
  have tm: "tmr_good slot k' ((w, q'), s')"
    using res D(1) fr G slot_ok_geo [OF fr(2)] same_geo_used [OF fr(2)] swt_same_clock [OF fr(1)]
    by (simp add: tmr_good_def op_result_def swt_same_def)
  have mv: "if ok then \<exists>nb. msgs None (q, s, k) ?hq = nb # msgs None (q', s', k') ?hq \<and> item_of nb = item_at (qmem q') buf \<and> z = 12
      else msgs None (q', s', k') ?hq = msgs None (q, s, k) ?hq"
  proof (cases ok)
    case True
    then obtain nb where nb: "msgs None (q, s, k) ?hq = nb # msgs None (q', s', k') ?hq"
      "unat (msg_len nb) \<le> length nb \<Longrightarrow> got 0 nb (qmem q') buf 12 z"
      using res t by (auto simp: op_result_def moved_def)
    then have "msg_len nb = 12" "length nb = 16" using G(6) [of nb] len [of nb] by simp_all
    then have "z = 12" "bytes (qmem q') buf 12 = take 12 nb" using nb(2) t by (auto simp: got_def)
    then show ?thesis using nb(1) item_of_bytes [of nb "qmem q'" buf] True by simp
  qed (use res in \<open>simp add: op_result_def\<close>)
  have sub: "item_of ` set (msgs None (q', s', k') ?hq) \<union> set_option (if ok then Some (item_at (qmem q') buf) else None) \<subseteq>
      item_of ` set (msgs None (q, s, k) ?hq)"
    using mv by (cases ok) auto
  have "pend_ok w (swtSort s') (item_of ` set (msgs None (q', s', k') ?hq) \<union> set_option (if ok then Some (item_at (qmem q') buf) else None))"
    by (rule pend_ok_mono [OF _ sub]) (use D(4) fr(1) in \<open>simp add: swt_same_def\<close>)
  moreover have "set (msgs None (q', s', k') ?hq) \<subseteq> set (msgs None (q, s, k) ?hq)" using mv by (cases ok) auto
  ultimately show "hist_good slot buf k' (if ok then Some (item_at (qmem q') buf) else None) ((w, q'), s')"
    using tm G slot_ok_geo [OF fr(2)] fr(2) unfolding hist_good_def prod.case fst_conv snd_conv
    by (auto simp: same_geo_def)
  show "z = 12" if ok using mv that by auto
qed

lemma task_read_good:
  assumes g: "hist_good slot buf k None ((w, q), s)"
    and c: "can_block s" "k (runTask s) = None" "\<not> hasFlag (status s (runTask s)) OS_TASK_STATUS_TIMEOUT"
    and r: "OsSwtmrTask_read buf ((w, q), s) = ((r, z), ((w', q'), s'))"
  shows "w' = w" and "hist_good slot buf (if r = None then k(runTask s := Some \<lparr>kQue = unat (g_swtmrHandlerQueue w), kType = 0, kBuf = buf, kSize = 12\<rparr>) else k)
    (if r = Some LOS_OK then Some (item_at (qmem q') buf) else None) ((w', q'), s')"
proof -
  let ?hq = "g_swtmrHandlerQueue w"
  have G: "que_inv None (q, s, k)" "?hq < OS_ALL_IPC_QUEUE_LIMIT q" "slot_ok buf q" "calm s k"
    using g by (simp_all add: hist_good_def tmr_good_def)
  show w: "w' = w" using r by (auto simp: OsSwtmrTask_read_def Let_def split: prod.splits)
  have b: "buf_ok x 3 buf 12 = buf_ok x 0 buf 12" for x by (simp add: buf_ok_def buf_len_def OS_QUEUE_IS_POINT_def)
  have cl: "caller_ok 0 buf 12 LOS_WAIT_FOREVER (q, s, k)" using G(3) c b by (simp add: caller_ok_def slot_ok_def valid_type_def)
  have gs: "hist_good slot buf k None ((w, q), s)" by (rule g)
  show "hist_good slot buf (if r = None then k(runTask s := Some \<lparr>kQue = unat ?hq, kType = 0, kBuf = buf, kSize = 12\<rparr>) else k)
    (if r = Some LOS_OK then Some (item_at (qmem q') buf) else None) ((w', q'), s')"
  proof (cases "intActive s")
    case True
    then have "r = Some LOS_ERRNO_QUEUE_READ_IN_INTERRUPT" "q' = q" "s' = s"
      using r G(2,3) by (auto simp: OsSwtmrTask_read_def LOS_QueueReadCopy_def OsQueueReadParameterCheck_def slot_ok_def Let_def errno_defs not_le [symmetric])
    then show ?thesis using g w by (simp add: errno_defs)
  next
    case False
    obtain r1 z1 q1 s1 where o: "OsQueueOperate ?hq 0 buf 12 LOS_WAIT_FOREVER (q, s) = ((r1, z1), (q1, s1))" by (metis prod.exhaust)
    have e: "r1 = r" "q1 = q'" "s1 = s'"
      using r o False G(2,3) by (auto simp: OsSwtmrTask_read_def LOS_QueueReadCopy_def OsQueueReadParameterCheck_def
          slot_ok_def OS_QUEUE_OPERATE_TYPE_def Let_def not_le [symmetric])
    let ?k = "if r = None then k(runTask s := Some \<lparr>kQue = unat ?hq, kType = 0, kBuf = buf, kSize = 12\<rparr>) else k"
    have "op_result (unat ?hq) 0 buf 12 (q, s, k) (r = Some LOS_OK) z1 (q', s', ?k)"
      using hist_operate_ok [OF G(1,2) cl] by (simp add: hist_operate_def o e)
    moreover have "calm s' ?k"
      using operate_calm [OF que_invD(1) [OF G(1)] G(4) o [unfolded e] c(1) G(2)] .
    ultimately show ?thesis using take_item_good(1) [OF gs] operate_frame [OF o] w by (simp add: e)
  qed
qed

lemma task_resume_good:
  assumes g: "hist_good slot buf k None ((w, q), s)"
    and c: "k (runTask s) = Some \<lparr>kQue = unat (g_swtmrHandlerQueue w), kType = 0, kBuf = buf, kSize = 12\<rparr>"
      "\<not> hasFlag (status s (runTask s)) OS_TASK_STATUS_PEND"
    and r: "OsQueueOperate_resume (unat (g_swtmrHandlerQueue w)) 0 buf 12 (runTask s) (q, s) = ((r, z), (q', s'))"
  shows "hist_good slot buf (k(runTask s := None)) (if r = LOS_OK then Some (item_at (qmem q') buf) else None) ((w, q'), s')"
proof -
  let ?hq = "unat (g_swtmrHandlerQueue w)" and ?k = "k(runTask s := None)"
  have G: "que_inv None (q, s, k)" "calm s k" using g by (simp_all add: hist_good_def tmr_good_def)
  have inv: "sched_inv s" by (rule que_invD(1) [OF G(1)])
  have res: "op_result ?hq 0 buf 12 (q, s, k) (r = LOS_OK) z (q', s', ?k)"
    using hist_resume_ok [OF G(1) c] c(1) by (simp add: hist_resume_def r)
  have "swt_same s s' \<and> same_geo q q' \<and> calm s' ?k"
  proof (cases "hasFlag (status s (runTask s)) OS_TASK_STATUS_TIMEOUT")
    case True
    then have e: "s' = clr_status (runTask s) OS_TASK_STATUS_TIMEOUT s" "q' = q" using r by (auto simp: OsQueueOperate_resume_def)
    have "calm s' ?k" using G(2) by (auto simp: calm_def live_def e(1))
    then show ?thesis by (simp add: e swt_same_def)
  next
    case False
    then have "queue_transfer ?hq 0 buf 12 (q, s) = (z, (q', s'))" using r by (auto simp: OsQueueOperate_resume_def split: prod.splits)
    from transfer_frame(1) [OF this] transfer_frame(2) [OF this inv G(2)] show ?thesis using calm_less by blast
  qed
  then show ?thesis using take_item_good(1) [OF g res] by blast
qed

text \<open>What the task does with the item: it calls the handler of a timer in use, with its argument.\<close>

lemma task_item_good:
  assumes g: "hist_good slot buf k (Some x) ((w, q), s)" and x: "item_at (qmem q) buf = x"
    and fresh: "next_id w (snd (snd x)) \<notin> pending k (Some x) ((w, q), s)"
    and r: "OsSwtmrTask_item LOS_OK 12 buf w (qmem q) = (call, w')"
  shows "hist_good slot buf k None ((w', q), s)"
    and "call = Some (h, a) \<Longrightarrow> \<exists>i < swt_limit w. usTimerID (swt_cb w i) = snd (snd x) \<and>
      ucState (swt_cb w i) \<noteq> OS_SWTMR_STATUS_UNUSED \<and> h = pfnHandler (swt_cb w i) \<and> a = swtArg (swt_cb w i)"
proof -
  note D = hist_goodD [OF g]
  obtain h' a' n where xx: "x = (h', a', n)" by (metis prod.exhaust)
  let ?i = "OS_SWT_FROM_SID n w"
  have i: "?i < swt_limit w" by (rule from_sid_less [OF swt_invD(1) [OF D(2)]])
  have ld: "load32 (qmem q) buf = h'" "load32 (qmem q) (buf + 4) = a'" "load32 (qmem q) (buf + 8) = n"
    using x xx by (simp_all add: item_at_def)
  have mem: "(h', a', n) \<in> item_of ` set (hmsgs k ((w, q), s)) \<union> set_option (Some x)" by (simp add: xx)
  have less: "hist_good slot buf k None ((w, q), s)"
    using g pend_ok_mono [OF D(4), of "item_of ` set (hmsgs k ((w, q), s))"] by (auto simp: hist_good_def)
  have pl: "pending k None ((w, q), s) \<subseteq> pending k (Some x) ((w, q), s)" by (auto simp: pending_def)
  show "hist_good slot buf k None ((w', q), s)"
  proof (cases "h' \<noteq> 0 \<and> n < OS_SWTMR_MAX_TIMERID w \<and> usTimerID (swt_cb w ?i) = n \<and> ucMode (swt_cb w ?i) = LOS_SWTMR_MODE_ONCE")
    case False
    then have "w' = w" using r by (auto simp: OsSwtmrTask_item_def ld Let_def split: if_splits)
    then show ?thesis using less by simp
  next
    case True
    then have id: "usTimerID (swt_cb w ?i) = n" by simp
    have "w' = OsSwtmrDelete ?i w" using r True by (auto simp: OsSwtmrTask_item_def ld Let_def split: if_splits)
    then show ?thesis
      using OsSwtmrDelete_good [OF less i] pend_okD [OF D(4) mem id] True fresh pl by (auto simp: xx)
  qed
  assume cl: "call = Some (h, a)"
  then have id: "usTimerID (swt_cb w ?i) = n" and ha: "h = h'" "a = a'"
    using r by (auto simp: OsSwtmrTask_item_def ld Let_def split: if_splits)
  show "\<exists>i < swt_limit w. usTimerID (swt_cb w i) = snd (snd x) \<and> ucState (swt_cb w i) \<noteq> OS_SWTMR_STATUS_UNUSED \<and>
      h = pfnHandler (swt_cb w i) \<and> a = swtArg (swt_cb w i)"
    using pend_okD [OF D(4) mem id] id i ha by (auto simp: xx)
qed

section \<open>Initialisation\<close>


text \<open>The control blocks after \<open>n - 1\<close> rounds of the loop.\<close>

definition linked_cb :: "nat \<Rightarrow> nat \<Rightarrow> SWTMR_CTRL_S" where
  "linked_cb n i = zeroSWTMR\<lparr>swtNext := if Suc i < n then Some (Suc i) else None, usTimerID := if i < n then of_nat i else 0\<rparr>"

lemma linked_cb_Suc:
  assumes "0 < n"
  shows "(linked_cb n)(n := linked_cb n n\<lparr>usTimerID := of_nat n\<rparr>, n - 1 := linked_cb n (n - 1)\<lparr>swtNext := Some n\<rparr>) = linked_cb (Suc n)"
proof
  fix i
  consider "i = n" | "i = n - 1" "i \<noteq> n" | "i \<noteq> n" "i \<noteq> n - 1" by blast
  then show "((linked_cb n)(n := linked_cb n n\<lparr>usTimerID := of_nat n\<rparr>, n - 1 := linked_cb n (n - 1)\<lparr>swtNext := Some n\<rparr>)) i = linked_cb (Suc n) i"
    by cases (use assms in \<open>auto simp: linked_cb_def zeroSWTMR_def\<close>)
qed

lemma swtmr_link_fold:
  assumes "0 < n"
  shows "foldl (\<lambda>v i. mod_swt (i - 1) (\<lambda>c. c\<lparr>swtNext := Some i\<rparr>) (mod_swt i (\<lambda>c. c\<lparr>usTimerID := of_nat i\<rparr>) v))
       (w\<lparr>g_swtmrCBArray := (\<lambda>_. zeroSWTMR), g_swtmrFreeList := Some 0\<rparr>) [1..<n] =
     w\<lparr>g_swtmrCBArray := linked_cb n, g_swtmrFreeList := Some 0\<rparr>"
  using assms
proof (induction n)
  case (Suc n)
  show ?case
  proof (cases "n = 0")
    case True
    then show ?thesis by (simp add: zeroSWTMR_def One_nat_def linked_cb_def fun_eq_iff)
  next
    case False
    have m: "mod_swt (n - 1) (\<lambda>c. c\<lparr>swtNext := Some n\<rparr>) (mod_swt n (\<lambda>c. c\<lparr>usTimerID := of_nat n\<rparr>) (w\<lparr>g_swtmrCBArray := f, g_swtmrFreeList := fl\<rparr>))
        = w\<lparr>g_swtmrCBArray := f(n := f n\<lparr>usTimerID := of_nat n\<rparr>, n - 1 := f (n - 1)\<lparr>swtNext := Some n\<rparr>), g_swtmrFreeList := fl\<rparr>" for f fl
      using False by (simp add: mod_swt_def)
    have "[1..<Suc n] = [1..<n] @ [n]" using False by (simp add: One_nat_def)
    then show ?thesis using Suc.IH False linked_cb_Suc [of n] by (simp only: foldl_append foldl.simps m)
  qed
qed simp

lemma linked_chain:
  assumes "i \<le> n" and "\<And>j. nx j = (if Suc j < n then Some (Suc j) else None)"
  shows "free_chain nx (if i < n then Some i else None) [i..<n]"
  using assms(1)
proof (induction "n - i" arbitrary: i)
  case (Suc m)
  then show ?case using Suc(1) [of "Suc i"] by (simp add: upt_conv_Cons assms(2))
qed simp

lemma swtmr_link_inv:
  assumes l: "0 < SWTMR_LIMIT w" and sl: "sl_nodes sl = []" "sl_wf sl" "\<And>i. sl_time sl i = OS_SORT_LINK_INVALID_TIME"
  shows "swt_inv ((swtmr_link w)\<lparr>g_swtmrHandlerQueue := hq\<rparr>) sl"
proof -
  let ?w = "(swtmr_link w)\<lparr>g_swtmrHandlerQueue := hq\<rparr>" and ?n = "unat (SWTMR_LIMIT w)"
  have n: "0 < ?n" using l by (simp add: word_less_nat_alt)
  have w: "swtmr_link w = w\<lparr>g_swtmrCBArray := linked_cb ?n, g_swtmrFreeList := Some 0\<rparr>"
    unfolding swtmr_link_def by (rule swtmr_link_fold [OF n])
  have "free_ok ?w [0..<?n]"
    using linked_chain [of 0 ?n "\<lambda>i. swtNext (linked_cb ?n i)"] n
    by (auto simp: free_ok_def w linked_cb_def zeroSWTMR_def)
  moreover have "ids_ok ?w" unfolding ids_ok_def
  proof (intro allI impI)
    fix i assume "i < swt_limit ?w"
    then have i: "i < ?n" by (simp add: w)
    then have "i < 2 ^ 32" using unsigned_less [of "SWTMR_LIMIT w", where 'a = nat] by simp
    then have u: "unat (of_nat i :: u32) = i" by (simp add: unat_of_nat take_bit_eq_mod)
    have "?n \<le> unat (OS_SWTMR_MAX_TIMERID w)" using max_id_unat(2) [OF l] by simp
    then show "usTimerID (swt_cb ?w i) < OS_SWTMR_MAX_TIMERID ?w \<and> OS_SWT_FROM_SID (usTimerID (swt_cb ?w i)) ?w = i"
      using i u by (simp add: w linked_cb_def OS_SWTMR_MAX_TIMERID_def OS_SWT_FROM_SID_def word_less_nat_alt unat_mod)
  qed
  ultimately show ?thesis using sl l by (auto simp: swt_inv_def tmr_ok_def w linked_cb_def zeroSWTMR_def)
qed

section \<open>Histories\<close>

text \<open>
  A state of a history is the kernel's state, the parts of the queue operations that wait to be
  resumed, and the item the timer task has read and not yet handled.  The steps are the calls of the
  interface, the tick interrupt, the three parts of the loop of \<open>OsSwtmrTask\<close>, and whatever the rest
  of the kernel does with its tasks and queues, as long as it leaves the timers' sort link, the two
  item buffers and the handler queue alone.  Three guards are not checked by the code: a one-shot timer is
  not started while an item of it is pending, the identifier a deletion gives to a block is not one
  of a pending item, and no other task waits in the middle of a queue operation with its wait cancelled.
\<close>

type_synonym swth = "swtst \<times> (tptr \<Rightarrow> qcont option) \<times> titem option"

inductive swt_step :: "u32 \<Rightarrow> u32 \<Rightarrow> swth \<Rightarrow> swth \<Rightarrow> bool" for slot buf where
  create: "LOS_SwtmrCreate iv mode h nn a st = (rc, st') \<Longrightarrow> swt_step slot buf (st, k, hand) (st', k, hand)"
| start: "(n \<in> pending k hand st \<longrightarrow> ucMode (swt_cb (fst (fst st)) (OS_SWT_FROM_SID n (fst (fst st)))) \<noteq> LOS_SWTMR_MODE_ONCE) \<Longrightarrow>
    LOS_SwtmrStart n st = (r', st') \<Longrightarrow> swt_step slot buf (st, k, hand) (st', k, hand)"
| stop: "LOS_SwtmrStop n st = (r', st') \<Longrightarrow> swt_step slot buf (st, k, hand) (st', k, hand)"
| delete: "next_id (fst (fst st)) n \<notin> pending k hand st \<Longrightarrow>
    LOS_SwtmrDelete n st = (r', st') \<Longrightarrow> swt_step slot buf (st, k, hand) (st', k, hand)"
| tick: "g_tickIntLock (snd st) = 0 \<Longrightarrow> LOS_SchedTickHandler (Some (swtmrScan slot)) st = Some st' \<Longrightarrow> swt_step slot buf (st, k, hand) (st', k, hand)"
| read: "can_block s \<Longrightarrow> k (runTask s) = None \<Longrightarrow> \<not> hasFlag (status s (runTask s)) OS_TASK_STATUS_TIMEOUT \<Longrightarrow>
    OsSwtmrTask_read buf ((w, q), s) = ((r, z), ((w', q'), s')) \<Longrightarrow>
    swt_step slot buf (((w, q), s), k, None) (((w', q'), s'),
      if r = None then k(runTask s := Some \<lparr>kQue = unat (g_swtmrHandlerQueue w), kType = 0, kBuf = buf, kSize = 12\<rparr>) else k,
      if r = Some LOS_OK then Some (item_at (qmem q') buf) else None)"
| resume: "k (runTask s) = Some \<lparr>kQue = unat (g_swtmrHandlerQueue w), kType = 0, kBuf = buf, kSize = 12\<rparr> \<Longrightarrow>
    \<not> hasFlag (status s (runTask s)) OS_TASK_STATUS_PEND \<Longrightarrow>
    OsQueueOperate_resume (unat (g_swtmrHandlerQueue w)) 0 buf 12 (runTask s) (q, s) = ((r', z), (q', s')) \<Longrightarrow>
    swt_step slot buf (((w, q), s), k, None) (((w, q'), s'), k(runTask s := None), if r' = LOS_OK then Some (item_at (qmem q') buf) else None)"
| item: "item_at (qmem q) buf = x \<Longrightarrow> next_id w (snd (snd x)) \<notin> pending k (Some x) ((w, q), s) \<Longrightarrow>
    OsSwtmrTask_item LOS_OK 12 buf w (qmem q) = (call, w') \<Longrightarrow>
    swt_step slot buf (((w, q), s), k, Some x) (((w', q), s), k, None)"
| other: "que_step (q, s, k) (q', s', k') \<Longrightarrow> swtSort s' = swtSort s \<Longrightarrow> swt_clock s' \<Longrightarrow> calm s' k' \<Longrightarrow>
    slot_ok slot q' \<Longrightarrow> slot_ok buf q' \<Longrightarrow> hq = g_swtmrHandlerQueue w \<Longrightarrow> hq < OS_ALL_IPC_QUEUE_LIMIT q' \<Longrightarrow> used q' (unat hq) \<Longrightarrow>
    queueSize (g_allQueue q' (unat hq)) = 16 \<Longrightarrow> msgs None (q', s', k') (unat hq) = msgs None (q, s, k) (unat hq) \<Longrightarrow>
    swt_step slot buf (((w, q), s), k, hand) (((w, q'), s'), k', hand)"

definition hist_inv :: "u32 \<Rightarrow> u32 \<Rightarrow> swth \<Rightarrow> bool" where
  "hist_inv slot buf = (\<lambda>(st, k, hand). hist_good slot buf k hand st)"

lemma swt_step_inv:
  assumes "swt_step slot buf x y" and "hist_inv slot buf x"
  shows "hist_inv slot buf y"
  using assms
proof (induction rule: swt_step.induct)
  case (create iv mode h nn a st rc st' k hand)
  then show ?case using LOS_SwtmrCreate_good [of slot buf k hand _ _ _ iv mode h nn a rc st'] by (cases st) (auto simp: hist_inv_def)
next
  case (start n k hand st r' st')
  obtain w q s where st: "st = ((w, q), s)" by (metis prod.exhaust)
  show ?case using LOS_SwtmrStart_good(1) [of slot buf k hand w q s n r' st'] start by (auto simp: hist_inv_def st)
next
  case (stop n st r' st' k hand)
  then show ?case using LOS_SwtmrStop_good [of slot buf k hand _ _ _ n r' st'] by (cases st) (auto simp: hist_inv_def)
next
  case (delete st n k hand r' st')
  obtain w q s where st: "st = ((w, q), s)" by (metis prod.exhaust)
  show ?case using LOS_SwtmrDelete_good [of slot buf k hand w q s n r' st'] delete by (auto simp: hist_inv_def st)
next
  case (tick st st' k hand)
  obtain m s where st: "st = (m, s)" by (metis prod.exhaust)
  show ?case using swt.tick_keeps_invariant [of slot buf k hand m s] tick by (auto simp: hist_inv_def st)
next
  case (read s k w q r z w' q' s')
  then show ?case using task_read_good(2) [of slot buf k w q s r z w' q' s'] unfolding hist_inv_def prod.case by blast
next
  case (resume k s w q r' z q' s')
  then show ?case using task_resume_good [of slot buf k w q s r' z q' s'] unfolding hist_inv_def prod.case by blast
next
  case (item q x w k s call w')
  then show ?case using task_item_good(1) [of slot buf k x w q s call w'] unfolding hist_inv_def prod.case by blast
next
  case (other q s k q' s' k' hq w hand)
  then show ?case using que_step_inv [OF other(1)] by (simp add: hist_inv_def hist_good_def tmr_good_def)
qed

lemma swt_steps_inv: "(swt_step slot buf)\<^sup>*\<^sup>* x y \<Longrightarrow> hist_inv slot buf x \<Longrightarrow> hist_inv slot buf y"
  by (induction rule: rtranclp_induct) (auto intro: swt_step_inv)

text \<open>The state after the queue of \<open>OsSwtmrInit\<close> has been created, before the first task runs.\<close>

definition swt_start :: "u32 \<Rightarrow> u32 \<Rightarrow> swtst \<Rightarrow> bool" where
  "swt_start slot buf = (\<lambda>((w, q), s). \<exists>w0 q0 s0 mem hq.
     que_inv None (q0, s0, \<lambda>_. None) \<and> fresh_area mem (unat (SWTMR_LIMIT w0) * 16) (q0, s0, \<lambda>_. None) \<and>
     LOS_QueueCreate 0 (SWTMR_LIMIT w0) True 12 mem (q0, s0) = ((LOS_OK, Some hq, None), (q, s)) \<and>
     w = (swtmr_link w0)\<lparr>g_swtmrHandlerQueue := hq\<rparr> \<and>
     swt_clock s \<and> slot_ok slot q \<and> slot_ok buf q \<and>
     sl_nodes (swtSort s) = [] \<and> \<not> sl_fault (swtSort s) \<and> (\<forall>i. sl_time (swtSort s) i = OS_SORT_LINK_INVALID_TIME))"

lemma swt_start_inv:
  assumes "swt_start slot buf ((w, q), s)"
  shows "hist_inv slot buf (((w, q), s), \<lambda>_. None, None)"
proof -
  obtain w0 q0 s0 mem hq where inv: "que_inv None (q0, s0, \<lambda>_. None)" and
      fr: "fresh_area mem (unat (SWTMR_LIMIT w0) * 16) (q0, s0, \<lambda>_. None)" and
      c: "LOS_QueueCreate 0 (SWTMR_LIMIT w0) True 12 mem (q0, s0) = ((LOS_OK, Some hq, None), (q, s))" and
      w: "w = (swtmr_link w0)\<lparr>g_swtmrHandlerQueue := hq\<rparr>" and
      o: "swt_clock s" "slot_ok slot q" "slot_ok buf q" and
      l: "sl_nodes (swtSort s) = []" "\<not> sl_fault (swtSort s)" "\<forall>i. sl_time (swtSort s) i = OS_SORT_LINK_INVALID_TIME"
    using assms by (auto simp: swt_start_def)
  have "SWTMR_LIMIT w0 \<noteq> 0" using c by (auto simp: LOS_QueueCreate_def OsQueueCreate_def errno_defs)
  then have sw: "swt_inv w (swtSort s)"
    using swtmr_link_inv [of w0 "swtSort s" hq] l by (simp add: w sl_wf_def sl_sorted_def word_neq_0_conv)
  have Q: "que_inv None (q, s, \<lambda>_. None)" "\<exists>i. hq = of_nat i \<and> i < all_queues q0 \<and> used q i \<and> queueSize (g_allQueue q i) = 16 \<and>
      msgs None (q, s, \<lambda>_. None) i = []"
    using OsQueueCreate_ok [OF inv, of 0 mem "SWTMR_LIMIT w0" 12 0 True] fr c by (auto simp: LOS_QueueCreate_def)
  then obtain i where i: "hq = of_nat i" "used q i" "queueSize (g_allQueue q i) = 16" "msgs None (q, s, \<lambda>_. None) i = []" by blast
  have "i < 65536 \<and> i < all_queues q" using que_invD(2) [OF Q(1)] i(2) by (auto simp: q_free_def used_def)
  then have "unat hq = i" "hq < OS_ALL_IPC_QUEUE_LIMIT q"
    by (simp_all add: i(1) unsigned_of_nat take_bit_nat_eq_self word_less_nat_alt unat_all)
  then show ?thesis
    using Q(1) sw o i by (simp add: hist_inv_def hist_good_def tmr_good_def w calm_def live_def pend_ok_def)
qed

section \<open>Properties\<close>


subsection \<open>A timer module with two timers\<close>

definition demo_swt0 :: swtmrs where
  "demo_swt0 = \<lparr>SWTMR_LIMIT = 2, g_swtmrHandlerQueue = 0, g_swtmrCBArray = (\<lambda>_. zeroSWTMR), g_swtmrFreeList = None\<rparr>"

definition demo_tq :: "mem8 \<Rightarrow> queues" where
  "demo_tq m = fst (snd (LOS_QueueCreate 0 2 True 12 0x20000000 (demo_queues1 m, demo_sched)))"

definition demo_swt :: "mem8 \<Rightarrow> swtst" where
  "demo_swt m = (((swtmr_link demo_swt0)\<lparr>g_swtmrHandlerQueue := 0\<rparr>, demo_tq m), demo_sched)"

lemma demo_tq_create:
  "LOS_QueueCreate 0 2 True 12 0x20000000 (demo_queues1 m, demo_sched) = ((LOS_OK, Some 0, None), (demo_tq m, demo_sched))"
  "demo_tq m = mod_que 0 (queue_setup 0 2 16 0x20000000) ((demo_queues1 m)\<lparr>g_freeQueueList := [1]\<rparr>)"
proof -
  have "queue_lists 0 demo_sched = demo_sched" by (rule queue_lists_same) (simp_all add: demo_lists)
  then show "LOS_QueueCreate 0 2 True 12 0x20000000 (demo_queues1 m, demo_sched) = ((LOS_OK, Some 0, None), (demo_tq m, demo_sched))"
    "demo_tq m = mod_que 0 (queue_setup 0 2 16 0x20000000) ((demo_queues1 m)\<lparr>g_freeQueueList := [1]\<rparr>)"
    by (simp_all add: demo_tq_def LOS_QueueCreate_def OsQueueCreate_def demo_queues1_eq(2) demo_queues0_def Let_def
        zeroQueueCB_def queue_setup_def)
qed

lemma demo_tq_used: "used (demo_tq m) i \<longleftrightarrow> i = 0" "qmem (demo_tq m) = m"
  by (auto simp: used_def demo_tq_create(2) demo_queues1_eq(2) demo_queues0_def all_queues_def queue_setup_def zeroQueueCB_def)

lemma demo_swt_start: "swt_start 0x30000000 0x40000000 (demo_swt m)"
proof -
  have "fresh_area 0x20000000 (unat (SWTMR_LIMIT demo_swt0) * 16) (demo_queues1 m, demo_sched, \<lambda>_. None)"
    by (simp add: fresh_area_def no_wrap_def used_def demo_queues1_eq(2) zeroQueueCB_def live_def demo_swt0_def)
  moreover have "slot_ok 0x30000000 (demo_tq m)" "slot_ok 0x40000000 (demo_tq m)"
    by (simp_all add: slot_ok_def demo_tq_used)
      (simp_all add: demo_tq_create(2) demo_queues1_eq(2) demo_queues0_def queue_setup_def zeroQueueCB_def buf_ok_def buf_len_def
        OS_QUEUE_IS_POINT_def no_wrap_def apart_def)
  moreover have "swtSort demo_sched = \<lparr>sl_nodes = [], sl_time = (\<lambda>_. OS_SORT_LINK_INVALID_TIME), sl_fault = False\<rparr>"
    by (simp add: demo_sched_def)
  moreover have "swt_clock demo_sched" by (simp add: swt_clock_def clock_ok_def demo_sched_def demo_conf_def)
  ultimately show ?thesis
    unfolding swt_start_def demo_swt_def prod.case
    by (intro exI [of _ demo_swt0] exI [of _ "demo_queues1 m"] exI [of _ demo_sched] exI [of _ "0x20000000"] exI [of _ 0])
      (use demo_init_inv demo_tq_create(1) in \<open>simp add: demo_swt0_def\<close>)
qed

text \<open>A periodic timer is created and started.\<close>

definition demo_swt1 :: "mem8 \<Rightarrow> swtst" where
  "demo_swt1 m = snd (LOS_SwtmrCreate 10 LOS_SWTMR_MODE_PERIOD 0x8001 True 7 (demo_swt m))"

definition demo_swt2 :: "mem8 \<Rightarrow> swtst" where
  "demo_swt2 m = snd (LOS_SwtmrStart 0 (demo_swt1 m))"

lemma demo_swt_steps: "(swt_step 0x30000000 0x40000000)\<^sup>*\<^sup>* (demo_swt m, \<lambda>_. None, None) (demo_swt2 m, \<lambda>_. None, None)"
proof -
  have c: "swt_step 0x30000000 0x40000000 (demo_swt m, \<lambda>_. None, None) (demo_swt1 m, \<lambda>_. None, None)"
    unfolding demo_swt1_def by (rule create) (rule surjective_pairing)
  have "ucMode (swt_cb (fst (fst (demo_swt1 m))) (OS_SWT_FROM_SID 0 (fst (fst (demo_swt1 m))))) = LOS_SWTMR_MODE_PERIOD"
    by (simp add: demo_swt1_def LOS_SwtmrCreate_def demo_swt_def swtmr_link_def demo_swt0_def OS_SWT_FROM_SID_def upt_rec One_nat_def)
  then have "swt_step 0x30000000 0x40000000 (demo_swt1 m, \<lambda>_. None, None) (demo_swt2 m, \<lambda>_. None, None)"
    unfolding demo_swt2_def by (intro start [where n = 0]) (simp, rule surjective_pairing)
  with c show ?thesis by (meson converse_rtranclp_into_rtranclp rtranclp.rtrancl_refl)
qed

lemma interface_tick_lock:
  "g_tickIntLock (snd (snd (LOS_SwtmrCreate iv mode h nn a st))) = g_tickIntLock (snd st)"
  "g_tickIntLock (snd (snd (LOS_SwtmrStart n st))) = g_tickIntLock (snd st)"
proof -
  obtain w q s where st: "st = ((w, q), s)" by (metis prod.exhaust)
  have u: "g_tickIntLock (OsSchedUpdateExpireTime s) = g_tickIntLock s" for s
    by (simp add: OsSchedUpdateExpireTime_def OsSchedSetNextExpireTime_def Let_def)
  show "g_tickIntLock (snd (snd (LOS_SwtmrCreate iv mode h nn a st))) = g_tickIntLock (snd st)"
    by (simp add: st LOS_SwtmrCreate_def Let_def split: option.splits)
  show "g_tickIntLock (snd (snd (LOS_SwtmrStart n st))) = g_tickIntLock (snd st)"
    by (simp add: st LOS_SwtmrStart_def OsSwtmrStart_def OsSwtmrStop_def delete_swt_link_def OsSchedResetSchedResponseTime_def u Let_def)
qed


text \<open>C34: in every history, the scan of the timers by the tick interrupt returns.  Every timer expires until it is not
  due any more, a periodic timer each time one period later; the expiries are in the order of their times;
  and as long as the handler queue has free nodes, each sends the handler, the argument and the identifier of its
  timer, after the items that are in the queue already.\<close>

theorem OsSwtmrScan_correct:
  assumes "swt_start slot buf st0" and "(swt_step slot buf)\<^sup>*\<^sup>* (st0, \<lambda>_. None, None) (((w, q), s), k, hand)"
  shows "\<exists>w' q' s' es xs. OsSwtmrScan slot ((w, q), s) = Some (es \<noteq> [], ((w', q'), s')) \<and> sorted (map snd es) \<and>
     (\<forall>j. \<exists>n. filter (\<lambda>e. fst e = j) es = map (\<lambda>m. (j, the (snd ((expire s ^^ m) (tview w (swtSort s) j))))) [0..<n] \<and>
        (\<forall>m < n. due (sysCycle s) ((expire s ^^ m) (tview w (swtSort s) j))) \<and>
        tview w' (swtSort s') j = (expire s ^^ n) (tview w (swtSort s) j) \<and>
        \<not> due (sysCycle s) (tview w' (swtSort s') j)) \<and>
     hmsgs k ((w', q'), s') = hmsgs k ((w, q), s) @ xs \<and>
     map item_of xs = take (unat (readWriteableCnt (g_allQueue q (unat (g_swtmrHandlerQueue w))) OS_QUEUE_WRITE))
       (map (\<lambda>e. item (swt_cb w (fst e))) es)"
proof -
  have "hist_inv slot buf (st0, \<lambda>_. None, None)" using swt_start_inv assms(1) by (metis prod.exhaust)
  then have g: "hist_good slot buf k hand ((w, q), s)" using swt_steps_inv [OF assms(2)] by (simp add: hist_inv_def)
  then have "size_ok ((w, q), s)" by (simp add: size_ok_def hist_good_def)
  from scan_loop_sends [OF hist_goodD(1) [OF g] this, of False] show ?thesis
    by (auto simp: expiries_def OsSwtmrScan_def room_def)
qed

theorem OsSwtmrScan_correct_witness:
  "\<exists>b st'. OsSwtmrScan 0x30000000 (demo_swt2 (\<lambda>_. 0)) = Some (b, st')"
proof -
  obtain w q s where e: "demo_swt2 (\<lambda>_. 0) = ((w, q), s)" by (metis prod.exhaust)
  show ?thesis using OsSwtmrScan_correct [OF demo_swt_start demo_swt_steps [of "\<lambda>_. 0", unfolded e]] unfolding e by blast
qed

text \<open>C35: the timer task deletes a one-shot timer when it has read its expiry, without looking at the state of
  the timer.  If the timer has been started again in the meantime, which succeeds, its block becomes the first of the
  free list while it is still running and on the sort link.\<close>

theorem swtmr_restart_race:
  assumes g: "hist_good slot buf k (Some (h, a, n)) ((w, q), s)" and x: "item_at (qmem q) buf = (h, a, n)"
    and n: "h \<noteq> 0" "n < OS_SWTMR_MAX_TIMERID w" "usTimerID (swt_cb w (OS_SWT_FROM_SID n w)) = n"
    and once: "ucMode (swt_cb w (OS_SWT_FROM_SID n w)) = LOS_SWTMR_MODE_ONCE"
    and start: "LOS_SwtmrStart n ((w, q), s) = (r, ((w1, q1), s1))"
    and item: "OsSwtmrTask_item LOS_OK 12 buf w1 (qmem q1) = (call, w2)"
  shows "r = LOS_OK \<and> call = Some (h, a) \<and> ucState (swt_cb w2 (OS_SWT_FROM_SID n w)) = OS_SWTMR_STATUS_UNUSED \<and>
    g_swtmrFreeList w2 = Some (OS_SWT_FROM_SID n w) \<and> OS_SWT_FROM_SID n w \<in> set (sl_nodes (swtSort s1))"
proof -
  let ?i = "OS_SWT_FROM_SID n w" and ?now = "sysCycle s"
  note D = hist_goodD [OF g]
  have i: "?i < swt_limit w" by (rule from_sid_less [OF swt_invD(1) [OF D(2)]])
  have mem: "(h, a, n) \<in> item_of ` set (hmsgs k ((w, q), s)) \<union> set_option (Some (h, a, n))" by simp
  note P = pend_okD [OF D(4) mem n(3)]
  have un: "?i \<notin> set (sl_nodes (swtSort s))" using P(4) once by blast
  have ok: "tmr_ok (swt_cb w ?i) False (sl_time (swtSort s) ?i = OS_SORT_LINK_INVALID_TIME)"
    using swt_invD(4) [OF D(2) i] un by simp
  have void: "sl_time (swtSort s) ?i = OS_SORT_LINK_INVALID_TIME" and st: "ucState (swt_cb w ?i) \<in> {OS_SWTMR_STATUS_CREATED, OS_SWTMR_STATUS_TICKING}"
    using ok P(1) by (auto simp: tmr_ok_def)
  have stop: "OsSwtmrStop ?i ((w, q), s) = ((mod_swt ?i (\<lambda>c. c\<lparr>ucState := OS_SWTMR_STATUS_CREATED, ucOverrun := 0\<rparr>) w, q), OsSchedUpdateExpireTime s)"
    by (simp add: OsSwtmrStop_def delete_swt_link_def void)
  have add: "?i \<in> set (sl_nodes (OsAdd2SortLink tps clk ?i t m (swtSort s)))" for tps clk t m
    by (simp add: OsAdd2SortLink_eq [OF swt_invD(2) [OF D(2)] un])
  have R: "r = LOS_OK" "q1 = q" "?i \<in> set (sl_nodes (swtSort s1))" "usTimerID (swt_cb w1 ?i) = n" "SWTMR_LIMIT w1 = SWTMR_LIMIT w"
    "ucMode (swt_cb w1 ?i) = LOS_SWTMR_MODE_ONCE"
  proof -
    have nn: "\<not> OS_SWTMR_MAX_TIMERID w \<le> n" using n(2) by simp
    have "LOS_SwtmrStart n ((w, q), s) = (LOS_OK, OsSwtmrStart ?now ?i ((mod_swt ?i (\<lambda>c. c\<lparr>swtStart := ?now\<rparr>)
        (if ucState (swt_cb w ?i) = OS_SWTMR_STATUS_TICKING then mod_swt ?i (\<lambda>c. c\<lparr>ucState := OS_SWTMR_STATUS_CREATED, ucOverrun := 0\<rparr>) w else w), q),
        if ucState (swt_cb w ?i) = OS_SWTMR_STATUS_TICKING then OsSchedUpdateExpireTime s else s))"
      using st nn n(3) by (auto simp: LOS_SwtmrStart_def stop Let_def)
    with start have e: "r = LOS_OK" "((w1, q1), s1) = OsSwtmrStart ?now ?i ((mod_swt ?i (\<lambda>c. c\<lparr>swtStart := ?now\<rparr>)
        (if ucState (swt_cb w ?i) = OS_SWTMR_STATUS_TICKING then mod_swt ?i (\<lambda>c. c\<lparr>ucState := OS_SWTMR_STATUS_CREATED, ucOverrun := 0\<rparr>) w else w), q),
        if ucState (swt_cb w ?i) = OS_SWTMR_STATUS_TICKING then OsSchedUpdateExpireTime s else s)" by simp_all
    then show "r = LOS_OK" "q1 = q" "?i \<in> set (sl_nodes (swtSort s1))" "usTimerID (swt_cb w1 ?i) = n" "SWTMR_LIMIT w1 = SWTMR_LIMIT w"
      "ucMode (swt_cb w1 ?i) = LOS_SWTMR_MODE_ONCE"
      using n(3) once add by (auto simp: OsSwtmrStart_def Let_def split: if_splits)
  qed
  have W: "OS_SWT_FROM_SID n w1 = ?i" "OS_SWTMR_MAX_TIMERID w1 = OS_SWTMR_MAX_TIMERID w"
    using R(5) by (simp_all add: OS_SWT_FROM_SID_def OS_SWTMR_MAX_TIMERID_def)
  have "call = Some (h, a)" "w2 = OsSwtmrDelete ?i w1"
    using item x n(1,2) R(2,4,6) W by (auto simp: OsSwtmrTask_item_def item_at_def Let_def split: if_splits)
  then show ?thesis using R(1,3) by (simp add: OsSwtmrDelete_def Let_def)
qed

text \<open>A one-shot timer has been created, and its item is in the buffer of the timer task.\<close>

definition demo_race_mem :: mem8 where
  "demo_race_mem = store_item 0x40000000 (zeroSWTMR\<lparr>pfnHandler := 0x8001, swtArg := 7\<rparr>) (\<lambda>_. 0)"

definition demo_race :: swtst where
  "demo_race = snd (LOS_SwtmrCreate 10 LOS_SWTMR_MODE_ONCE 0x8001 True 7 (demo_swt demo_race_mem))"

theorem swtmr_restart_race_witness:
  "\<exists>w1 q1 s1 call w2. LOS_SwtmrStart 0 demo_race = (LOS_OK, ((w1, q1), s1)) \<and>
     OsSwtmrTask_item LOS_OK 12 0x40000000 w1 (qmem q1) = (call, w2) \<and>
     ucState (swt_cb w2 0) = OS_SWTMR_STATUS_UNUSED \<and> 0 \<in> set (sl_nodes (swtSort s1))"
proof -
  let ?x = "(0x8001, 7, 0) :: titem"
  obtain w q s where e: "demo_race = ((w, q), s)" by (metis prod.exhaust)
  have l: "swtmr_link demo_swt0 = \<lparr>SWTMR_LIMIT = 2, g_swtmrHandlerQueue = 0, g_swtmrCBArray = linked_cb 2, g_swtmrFreeList = Some 0\<rparr>"
  proof -
    have n: "unat (SWTMR_LIMIT demo_swt0) = 2" by (simp add: demo_swt0_def)
    have "swtmr_link demo_swt0 = demo_swt0\<lparr>g_swtmrCBArray := linked_cb 2, g_swtmrFreeList := Some 0\<rparr>"
      unfolding swtmr_link_def n by (rule swtmr_link_fold) simp
    then show ?thesis by (simp add: demo_swt0_def)
  qed
  have sn: "sl_nodes (swtSort demo_sched) = []" by (simp add: demo_sched_def)
  have c: "swt_cb w 0 = (linked_cb 2 0)\<lparr>pfnHandler := 0x8001, ucMode := 0, uwInterval := 10, swtNext := None, swtArg := 7, ucState := 1, ucOverrun := 0\<rparr>"
    "SWTMR_LIMIT w = 2" "q = demo_tq demo_race_mem" "sl_nodes (swtSort s) = []"
    using e by (auto simp: demo_race_def LOS_SwtmrCreate_def demo_swt_def l Let_def SET_SORTLIST_VALUE_def sn)
  have i: "OS_SWT_FROM_SID 0 w = 0" "OS_SWTMR_MAX_TIMERID w = 0xFFFFFFFE" using c(2) by (simp_all add: OS_SWT_FROM_SID_def OS_SWTMR_MAX_TIMERID_def)
  have h0: "hist_good 0x30000000 0x40000000 (\<lambda>_. None) None (demo_swt demo_race_mem)"
    using swt_start_inv [OF demo_swt_start [of demo_race_mem, unfolded demo_swt_def]] by (simp only: hist_inv_def prod.case demo_swt_def)
  have h1: "hist_good 0x30000000 0x40000000 (\<lambda>_. None) None ((w, q), s)"
    using LOS_SwtmrCreate_good [OF h0 [unfolded demo_swt_def]] e unfolding demo_race_def demo_swt_def by (metis prod.collapse)
  then have g: "hist_good 0x30000000 0x40000000 (\<lambda>_. None) (Some ?x) ((w, q), s)"
    using c(1,4) i(1) by (auto simp: hist_good_def pend_ok_def Let_def linked_cb_def zeroSWTMR_def)
  have x: "item_at (qmem q) 0x40000000 = ?x"
    using item_at_store [of "0x40000000" "zeroSWTMR\<lparr>pfnHandler := 0x8001, swtArg := 7\<rparr>" "\<lambda>_. 0"]
    by (simp add: c(3) demo_tq_used demo_race_mem_def no_wrap_def zeroSWTMR_def)
  obtain r w1 q1 s1 where st: "LOS_SwtmrStart 0 ((w, q), s) = (r, ((w1, q1), s1))" by (metis prod.exhaust)
  obtain call w2 where it: "OsSwtmrTask_item LOS_OK 12 0x40000000 w1 (qmem q1) = (call, w2)" by (metis prod.exhaust)
  show ?thesis
    using swtmr_restart_race [OF g x _ _ _ _ st it] st it i c(1) by (simp add: e linked_cb_def zeroSWTMR_def)
qed

lemma sl_insert_last:
  assumes "xs \<noteq> []" and "\<And>j. j \<in> set xs \<Longrightarrow> rt j < rt n"
  shows "sl_insert rt n xs = xs @ [n]"
proof -
  have "takeWhile (\<lambda>p. rt p \<le> rt n) xs = xs" "dropWhile (\<lambda>p. rt p \<le> rt n) xs = []"
    using assms(2) by (simp_all add: takeWhile_eq_all_conv less_imp_le)
  moreover have "rt (hd xs) \<noteq> rt n" using assms(2) [of "hd xs"] assms(1) by simp
  ultimately show ?thesis using assms(1) by (cases xs) (simp_all add: sl_insert_def)
qed

lemma next_node_last: "i \<notin> set xs \<Longrightarrow> next_node i (xs @ [i]) = None"
  by (induction xs) auto

text \<open>C36: \<open>OsSwtmrResponseTimeReset\<close> is to restart every timer from a given time, but follows the link of the timer it has
  just inserted again: if the first timer moves behind all the others, the loop ends there and
  none of the others is restarted.\<close>

theorem swtmr_reset_skips:
  assumes wf: "sl_wf (swtSort s)" and n: "sl_nodes (swtSort s) = i # xs" "xs \<noteq> []"
    and late: "\<forall>j \<in> set xs. sl_time (swtSort s) j < start + period s (uwInterval (swt_cb w i))"
  shows "\<exists>st'. OsSwtmrResponseTimeReset start ((w, q), s) = Some st' \<and>
    (\<forall>j \<in> set xs. tview (fst (fst st')) (swtSort (snd st')) j = tview w (swtSort s) j)"
proof -
  let ?sl = "OsDeleteNodeSortLink i (swtSort s)" and ?rt = "start + period s (uwInterval (swt_cb w i))"
  let ?st = "swtmr_restart start i ((w, q), s)"
  have d: "sl_wf ?sl" by (rule sl_wf_delete [OF wf]) (simp add: n)
  have di: "i \<notin> set xs" "distinct xs" using wf n by (auto simp: sl_wf_def)
  have nd: "sl_nodes ?sl = xs" and tm: "j \<noteq> i \<Longrightarrow> sl_time ?sl j = sl_time (swtSort s) j" for j
    using n by (auto simp: OsDeleteNodeSortLink_def SET_SORTLIST_VALUE_def)
  have "sl_insert ((sl_time ?sl)(i := ?rt)) i xs = xs @ [i]"
    by (rule sl_insert_last [OF n(2)]) (use late tm di in auto)
  then have st: "swtSort (snd ?st) = ?sl\<lparr>sl_time := (sl_time ?sl)(i := ?rt), sl_nodes := xs @ [i]\<rparr>"
    using di nd by (simp add: swtmr_restart_def OsSwtmrStart_def Let_def OsAdd2SortLink_eq [OF d])
  have "OsSwtmrResponseTimeReset start ((w, q), s) = Some ?st"
    using st next_node_last [OF di(1)]
    by (simp add: OsSwtmrResponseTimeReset_def n reset_loop.simps [of start "Some i"]) (simp add: reset_loop.simps Let_def)
  moreover have "tview (fst (fst ?st)) (swtSort (snd ?st)) j = tview w (swtSort s) j" if "j \<in> set xs" for j
    using that di tm n by (auto simp: tview_def st) (auto simp: swtmr_restart_def OsSwtmrStart_def Let_def)
  ultimately show ?thesis by blast
qed

definition demo_two :: ksched where
  "demo_two = demo_sched\<lparr>swtSort := \<lparr>sl_nodes = [0, 1], sl_time = (\<lambda>_. OS_SORT_LINK_INVALID_TIME)(0 := 1000, 1 := 2000), sl_fault = False\<rparr>\<rparr>"

theorem swtmr_reset_skips_witness:
  "\<exists>st'. OsSwtmrResponseTimeReset 5000 ((demo_swt0, demo_tq (\<lambda>_. 0)), demo_two) = Some st' \<and>
    snd (tview (fst (fst st')) (swtSort (snd st')) 1) = Some 2000"
proof -
  have wf: "sl_wf (swtSort demo_two)" by (simp add: demo_two_def sl_wf_def sl_sorted_def OS_SORT_LINK_INVALID_TIME_def)
  have n: "sl_nodes (swtSort demo_two) = 0 # [1]" "[1 :: nat] \<noteq> []" by (simp_all add: demo_two_def)
  have "period demo_two (uwInterval (swt_cb demo_swt0 0)) = 0"
    by (simp add: demo_swt0_def zeroSWTMR_def OS_SYS_TICK_TO_CYCLE_def)
  then have l: "\<forall>j \<in> set [1]. sl_time (swtSort demo_two) j < 5000 + period demo_two (uwInterval (swt_cb demo_swt0 0))"
    by (simp add: demo_two_def)
  have "snd (tview demo_swt0 (swtSort demo_two) 1) = Some 2000" by (simp add: tview_def demo_two_def)
  then show ?thesis using swtmr_reset_skips [OF wf n l, of "demo_tq (\<lambda>_. 0)"] by auto
qed

text \<open>The timers \<open>is\<close> have the response time \<open>t\<close>, and keep it when they are started again at \<open>start\<close>.\<close>

definition equal_times :: "u64 \<Rightarrow> u64 \<Rightarrow> nat list \<Rightarrow> swtst \<Rightarrow> bool" where
  "equal_times start t is = (\<lambda>((w, q), s). sl_wf (swtSort s) \<and> sl_nodes (swtSort s) = is \<and> t \<noteq> OS_SORT_LINK_INVALID_TIME \<and>
     (\<forall>i \<in> set is. sl_time (swtSort s) i = t \<and> start + period s (uwInterval (swt_cb w i)) = t))"

text \<open>A timer whose time does not change is inserted right behind the first one.\<close>

lemma restart_equal:
  assumes "equal_times start t (A @ x # B) st" and "A @ B = b # is"
  shows "equal_times start t (b # x # is) (swtmr_restart start x st)"
proof -
  obtain w q s where st: "st = ((w, q), s)" by (metis prod.exhaust)
  let ?sl = "OsDeleteNodeSortLink x (swtSort s)"
  have wf: "sl_wf (swtSort s)" and n: "sl_nodes (swtSort s) = A @ x # B" and t: "t \<noteq> OS_SORT_LINK_INVALID_TIME"
    and ti: "\<And>i. i \<in> set (A @ x # B) \<Longrightarrow> sl_time (swtSort s) i = t \<and> start + period s (uwInterval (swt_cb w i)) = t"
    using assms(1) by (auto simp: equal_times_def st)
  have x: "x \<notin> set A" "x \<notin> set B" using wf n by (auto simp: sl_wf_def)
  have d: "sl_wf ?sl" by (rule sl_wf_delete [OF wf]) (simp add: n)
  have nd: "sl_nodes ?sl = b # is" and tm: "\<And>j. j \<noteq> x \<Longrightarrow> sl_time ?sl j = sl_time (swtSort s) j"
    using n x assms(2) by (auto simp: OsDeleteNodeSortLink_def SET_SORTLIST_VALUE_def remove1_append)
  have xn: "x \<notin> set (sl_nodes ?sl)" using x arg_cong [OF assms(2), of set] unfolding nd by auto
  have S: "set (A @ x # B) = set (b # x # is)" using arg_cong [OF assms(2), of set] by auto
  have tx: "start + period s (uwInterval (swt_cb w x)) = t" using ti [of x] by simp
  have bx: "b \<noteq> x" using xn nd by simp
  have add: "OsAdd2SortLink (TICK_PER_SECOND (conf s)) (g_sysClock s) x start (uwInterval (swt_cb w x)) ?sl =
      ?sl\<lparr>sl_time := (sl_time ?sl)(x := t), sl_nodes := b # x # is\<rparr>"
  proof -
    have "sl_time ?sl b = t" using bx tm ti [of b] S by auto
    then have "sl_insert ((sl_time ?sl)(x := t)) x (b # is) = b # x # is" using bx by (simp add: sl_insert_def)
    then show ?thesis unfolding OsAdd2SortLink_eq [OF d xn] tx nd by simp
  qed
  have "sl_wf (OsAdd2SortLink (TICK_PER_SECOND (conf s)) (g_sysClock s) x start (uwInterval (swt_cb w x)) ?sl)"
    by (rule sl_wf_add2 [OF d xn]) (simp add: tx t)
  then show ?thesis
    using ti tm S t tx by (auto simp: equal_times_def st swtmr_restart_def OsSwtmrStart_def Let_def add)
qed

definition turning :: "u64 \<Rightarrow> nat option \<Rightarrow> swtst \<Rightarrow> bool" where
  "turning start n st \<longleftrightarrow> (\<exists>b y x t. n = Some x \<and> equal_times start t [b, y, x] st)"

lemma turning_step:
  assumes "turning start n st"
  obtains x y where "n = Some x" and "turning start (Some y) (swtmr_restart start x st)"
    and "next_node x (sl_nodes (swtSort (snd (swtmr_restart start x st)))) = Some y"
proof -
  obtain b y x t where n: "n = Some x" and e: "equal_times start t [b, y, x] st" using assms by (auto simp: turning_def)
  have e': "equal_times start t [b, x, y] (swtmr_restart start x st)"
    using restart_equal [of start t "[b, y]" x "[]" st b "[y]"] e by simp
  then have "sl_nodes (swtSort (snd (swtmr_restart start x st))) = [b, x, y]" "b \<noteq> x"
    by (auto simp: equal_times_def sl_wf_def split: prod.splits)
  then show thesis using n e' by (intro that [of x y]) (auto simp: turning_def)
qed

lemma reset_loop_diverges:
  assumes "turning start n st"
  shows "reset_loop start n st = None"
proof -
  have "\<not> turning start n st" if "reset_loop start n st = Some st'" for st'
  proof (rule reset_loop.raw_induct [where P = "\<lambda>start n st st'. \<not> turning start n st", OF _ that])
    fix f start n st st'
    assume ih: "\<And>start n st st'. f start n st = Some st' \<Longrightarrow> \<not> turning start n st"
      and r: "(case n of None \<Rightarrow> Some st
        | Some i \<Rightarrow> let st1 = swtmr_restart start i st in f start (next_node i (sl_nodes (swtSort (snd st1)))) st1) = Some st'"
    show "\<not> turning start n st"
    proof
      assume "turning start n st"
      then obtain x y where "n = Some x" "turning start (Some y) (swtmr_restart start x st)"
        "next_node x (sl_nodes (swtSort (snd (swtmr_restart start x st)))) = Some y" by (rule turning_step)
      then show False using r ih by (simp add: Let_def)
    qed
  qed
  then show ?thesis using assms by (cases "reset_loop start n st") auto
qed

lemma DeQueue_timers [simp]:
  "swtSort (OsSchedTaskDeQueue t s) = swtSort s" "conf (OsSchedTaskDeQueue t s) = conf s"
  "g_sysClock (OsSchedTaskDeQueue t s) = g_sysClock s" "startTime (tcb (OsSchedTaskDeQueue t s) u) = startTime (tcb s u)"
  by (simp_all add: OsSchedTaskDeQueue_def OsSchedPriQueueDelete_def Let_def)

text \<open>C37: three timers with the same response time that does not change make \<open>OsSwtmrResponseTimeReset\<close> go round
  for ever, because a timer that ties with the first one is inserted right behind it.  So the scheduler
  does not start if three such timers were started at the time it reads.\<close>

theorem swtmr_reset_diverges:
  assumes wf: "sl_wf (swtSort s)" and n: "sl_nodes (swtSort s) = [a, b, c]"
    and t: "\<forall>i \<in> {a, b, c}. sl_time (swtSort s) i = sysCycle s + period s (uwInterval (swt_cb w i)) \<and>
      sl_time (swtSort s) i = sl_time (swtSort s) a"
  shows "OsSwtmrResponseTimeReset (sysCycle s) ((w, q), s) = None \<and> OsSchedStart OsSwtmrResponseTimeReset ((w, q), s) = None"
proof -
  have R: "OsSwtmrResponseTimeReset (sysCycle s) ((w, q), s') = None"
    if s': "swtSort s' = swtSort s" "conf s' = conf s" "g_sysClock s' = g_sysClock s" for s'
  proof -
    let ?t = "sl_time (swtSort s) a" and ?st = "swtmr_restart (sysCycle s) a ((w, q), s')"
    have "?t \<noteq> OS_SORT_LINK_INVALID_TIME" using wf n by (simp add: sl_wf_def)
    then have "equal_times (sysCycle s) ?t ([] @ a # [b, c]) ((w, q), s')" using wf n t s' by (auto simp: equal_times_def)
    from restart_equal [OF this, of b "[c]"] have e: "equal_times (sysCycle s) ?t [b, a, c] ?st" by simp
    then have "sl_nodes (swtSort (snd ?st)) = [b, a, c]" "b \<noteq> a"
      by (auto simp: equal_times_def sl_wf_def split: prod.splits)
    moreover have "reset_loop (sysCycle s) (Some c) ?st = None"
      by (rule reset_loop_diverges) (use e in \<open>auto simp: turning_def\<close>)
    ultimately show ?thesis
      unfolding OsSwtmrResponseTimeReset_def by (simp add: s' n reset_loop.simps [of "sysCycle s" "Some a"] Let_def)
  qed
  have "OsSchedStart OsSwtmrResponseTimeReset ((w, q), s) = None"
    by (auto simp: OsSchedStart_def R Let_def split: option.splits)
  then show ?thesis using R by simp
qed

definition demo_three :: ksched where
  "demo_three = demo_sched\<lparr>swtSort := \<lparr>sl_nodes = [0, 1, 2], sl_time = (\<lambda>_. OS_SORT_LINK_INVALID_TIME)(0 := 100500, 1 := 100500, 2 := 100500),
     sl_fault = False\<rparr>\<rparr>"

theorem swtmr_reset_diverges_witness:
  "OsSchedStart OsSwtmrResponseTimeReset ((demo_swt0\<lparr>SWTMR_LIMIT := 3, g_swtmrCBArray := (\<lambda>_. zeroSWTMR\<lparr>uwInterval := 10\<rparr>)\<rparr>,
     demo_tq (\<lambda>_. 0)), demo_three) = None"
proof -
  let ?w = "demo_swt0\<lparr>SWTMR_LIMIT := 3, g_swtmrCBArray := (\<lambda>_. zeroSWTMR\<lparr>uwInterval := 10\<rparr>)\<rparr>"
  have wf: "sl_wf (swtSort demo_three)" by (simp add: demo_three_def sl_wf_def sl_sorted_def OS_SORT_LINK_INVALID_TIME_def)
  have n: "sl_nodes (swtSort demo_three) = [0, 1, 2]" by (simp add: demo_three_def)
  have "period demo_three 10 = 100000" by (simp add: demo_three_def demo_sched_def demo_conf_def OS_SYS_TICK_TO_CYCLE_def)
  then have t: "\<forall>i \<in> {0, 1, 2}. sl_time (swtSort demo_three) i = sysCycle demo_three + period demo_three (uwInterval (swt_cb ?w i)) \<and>
      sl_time (swtSort demo_three) i = sl_time (swtSort demo_three) 0"
    by (simp add: demo_three_def demo_sched_def)
  show ?thesis using swtmr_reset_diverges [OF wf n t] by simp
qed

end
