(* ===== verification/Spec2Isabelle.thy ===== *)
theory Spec2Isabelle
  imports Task_Props Swtmr_Props
begin

text \<open>
  A verification development of the LiteOS-M kernel, \<open>src/kernel\<close>, in its default configuration and
  with the ARM Cortex-M4 port, \<open>src/arch/arm/cortex-m4/gcc\<close>.

  \<^bold>\<open>The program.\<close>  The kernel keeps its tasks on doubly linked lists: one ready queue per priority, the
  wait lists of semaphores, mutexes, events and queues, and the lists of free and finished tasks.  Tasks
  that sleep or wait with a limit are on a sort link, ordered by response time; a second sort link holds the
  running software timers.  The tick interrupt wakes the tasks that are due and reports the timers that
  have expired, through a message queue, to the timer task; the switch exception picks the most urgent
  ready task.  Every call of the interface is a section with interrupts locked, possibly followed by a
  wait, after which the same call goes on.

  \<^bold>\<open>The model.\<close>  Each section is a function on the state of its component and the kernel state.  A call that
  may wait is two functions: the part up to the wait, whose result \<open>None\<close> means that the task waits, and the
  part after it, named \<open>_resume\<close>.  Histories are sequences of such steps, with the task switch, the tick
  and the rest of the system in between, as inductive relations.  Machine integers are words, so that
  wrap-around is visible; error codes are the words the code returns; memory that is read back as bytes
  (queue nodes, task stacks, timer items) is a function from addresses to bytes.  The results of heap
  allocations are arguments.  A loop that need not end is a partial function into options, and then it is
  proved that it returns, or when it does not.

  \<^bold>\<open>The theories\<close>, in the order of their dependencies:

  \<^item> \<open>Prelude\<close>: words, flags of a status word, the scheme of error numbers (\<open>los_error.h\<close>).
  \<^item> \<open>Los_List\<close>: the pointer code of \<open>los_list.h\<close>, and the abstract list store all other theories use; the
    pointer code refines the store.
  \<^item> \<open>SortLink\<close>: \<open>los_sortlink.c\<close>; insertion keeps the order, and the next expiry is never late.
  \<^item> \<open>Kernel_State\<close>, \<open>Sched\<close>: task control blocks, the kernel state, \<open>los_sched.c\<close> and the switch exception.
  \<^item> \<open>Sched_Inv\<close>, \<open>Sched_Props\<close>: the scheduler invariant \<open>sched_inv\<close>, kept by every operation; the switch runs
    a most urgent task, the bitmap search is the linear search, the scan wakes exactly the tasks that
    are due, the tick is not programmed too late.  The locale \<open>timer_client\<close> is the interface between the
    tick handler and the timer scan; it is interpreted for a system without timers and, in \<open>Swtmr_Inv\<close>,
    for the software timers.
  \<^item> \<open>Wait_Queue\<close>: what semaphores, mutexes, events and queues share, waiting on a list and being woken.
  \<^item> \<open>Sem\<close>, \<open>Mux\<close>, \<open>Event\<close>: \<open>los_sem.c\<close>, \<open>los_mux.c\<close>, \<open>los_event.c\<close>, with their histories: counters
    in bounds, ownership and priority inheritance, no missed wake-up.
  \<^item> \<open>Membox\<close>: \<open>los_membox.c\<close>, memory boxes with blocks of one size.
  \<^item> \<open>Bytes\<close>, \<open>Queue\<close>, \<open>Queue_Ring\<close>, \<open>Queue_Inv\<close>, \<open>Queue_Props\<close>: \<open>memcpy_s\<close> and \<open>los_queue.c\<close>; a queue is a
    bounded sequence of messages, also while tasks wait in the middle of an operation.
  \<^item> \<open>Tick\<close>: \<open>los_tick.c\<close> and the timer of the port; the cycle count never goes back.
  \<^item> \<open>Task\<close>, \<open>Task_Props\<close>: \<open>los_task.c\<close> and the initial context of a task; the operations that control tasks keep
    the scheduler invariant in every order, and creation builds the stack and the control block.
  \<^item> \<open>Swtmr\<close>, \<open>Swtmr_Inv\<close>, \<open>Swtmr_Scan\<close>, \<open>Swtmr_Props\<close>: \<open>los_swtmr.c\<close>; the timers, the handler queue and the
    tick together, what the scan sends, and the restart of the timers when the scheduler starts.

  Interfaces are locales: \<open>list_store\<close> (lists, interpreted by the pointer code and by sequences), \<open>wait_queue\<close>
  (waiting and waking, interpreted by the scheduler), \<open>timer_client\<close> and \<open>block_pool\<close> (allocation from a pool,
  interpreted by the memory boxes).

  The properties are the theorems after a text that begins with \<open>C\<close> and a number.  Some state what the code
  does wrong: a time slice that has ended in the past, the recursion count of a mutex, an
  inherited priority that stays, the sizes of a memory box, a stale message length,
  lost timer periods, a timer that is freed while it runs, and the restart of the timers.

  \<^bold>\<open>Bounds.\<close>  The clock is assumed below \<open>2 ^ 63\<close> cycles and at least two ticks per second are configured
  (\<open>clock_ok\<close>), so that response times do not wrap around; at one gigahertz that is 292 years.  There is
  no fuel: loops are structural, or partial functions with a proof that they return.  The guards of the
  step relations say what the code leaves to its callers, for example that a buffer does not overlap the
  nodes of a queue, or that a task that is resumed has not exited.

  \<^bold>\<open>Not modelled.\<close>  Options that are off by default (hooks, power management, processor usage, alignment of
  timers, memory protection); functions that only print; the heap (\<open>los_memory.c\<close>), which is used through the
  results of its calls; registers and saved contexts beyond the initial one; \<open>LOS_KernelInit\<close>, which calls
  the initialisations in turn; the ports to other processors, the components, the compatibility
  layers and the targets.  There is no history with the deletion and joining of tasks: \<open>LOS_TaskDelete\<close>, \<open>LOS_TaskJoin\<close>
  and \<open>LOS_TaskDetach\<close> are defined, and of the part they share with the scheduler it is shown
  (in \<open>Sched_Inv\<close>) that \<open>OsSchedTaskExit\<close>, \<open>OsSchedTaskWait\<close> and \<open>OsSchedTaskWake\<close> keep the invariant.
\<close>

end
